(* ===== verification/Kernel_Prelude.thy ===== *)
theory Kernel_Prelude
  imports "HOL-Library.Word" "HOL-Library.Monad_Syntax"
begin

text \<open>
  Shared vocabulary of the TinyShell OS development: the fixed-width integer types of
  the C sources, the counted loops, C strings, and the facts on words, lists and
  arrays the components use. Nothing here models a kernel component.
\<close>

unbundle bit_operations_syntax

section \<open>Machine integers\<close>

text \<open>
  \<open>uint8_t\<close>, \<open>uint16_t\<close>, \<open>uint32_t\<close> and \<open>uint64_t\<close>. The kernel is built for i386,
  so \<open>uintptr_t\<close> and \<open>size_t\<close> are 32 bits wide and are \<open>u32\<close> as well.
\<close>

type_synonym u8 = "8 word"
type_synonym u16 = "16 word"
type_synonym u32 = "32 word"
type_synonym u64 = "64 word"

lemma unat_less_width:
  "unat (a :: u8) < 256" "unat (b :: u16) < 65536" "unat (c :: u32) < 4294967296"
  "unat (d :: u64) < 18446744073709551616"
  using unsigned_less [of a] unsigned_less [of b] unsigned_less [of c] unsigned_less [of d]
  by simp_all

text \<open>
  \<open>word_nat\<close> collects the rules that turn word arithmetic without overflow into
  arithmetic on natural numbers.
\<close>

named_theorems word_nat

lemma unat_and_mask [word_nat]: "unat (w AND mask n) = unat w mod 2 ^ n"
  for w :: "'a::len word"
  by (metis take_bit_eq_mask take_bit_eq_mod unsigned_take_bit_eq)

lemma unat_and_not_mask [word_nat]: "unat (w AND NOT (mask n)) = unat w div 2 ^ n * 2 ^ n"
  for w :: "'a::len word"
proof -
  have "unat (w AND NOT (mask n)) = push_bit n (drop_bit n (unat w))"
    by (rule bit_eqI) (auto simp: bit_simps bit_unsigned_iff possible_bit_word dest: bit_imp_le_length)
  then show ?thesis
    by (simp add: push_bit_eq_mult drop_bit_eq_div)
qed

lemma unat_drop_bit [word_nat]: "unat (drop_bit n w) = unat w div 2 ^ n"
  for w :: "'a::len word"
  by (metis drop_bit_eq_div unat_drop_bit_eq)

lemma bit_set_iff: "bit (w OR push_bit n 1) k \<longleftrightarrow> bit w k \<or> n = k \<and> k < LENGTH('a)"
  for w :: "'a::len word"
  by (auto simp: bit_simps dest: bit_imp_le_length)

lemma bit_clear_iff: "bit (w AND NOT (push_bit n 1)) k \<longleftrightarrow> bit w k \<and> n \<noteq> k"
  for w :: "'a::len word"
  by (auto simp: bit_simps dest: bit_imp_le_length)

lemma mask_numerals:
  "(4095 :: u32) = mask 12" "(4095 :: u64) = mask 12" "(15 :: u32) = mask 4"
  "(1023 :: u32) = mask 10" "(63 :: u32) = mask 6"
  by (simp_all add: mask_eq_exp_minus_1)

lemma unat_add_no_wrap [word_nat]:
  "unat a + unat b < 2 ^ LENGTH('a) \<Longrightarrow> unat (a + b) = unat a + unat b"
  for a b :: "'a::len word"
  by (simp add: unat_word_ariths)

lemma unat_sub_no_wrap [word_nat]: "b \<le> a \<Longrightarrow> unat (a - b) = unat a - unat b"
  for a b :: "'a::len word"
  by (simp add: unat_sub)

lemma unat_succ_less [word_nat]: "i < n \<Longrightarrow> unat (i + 1) = Suc (unat i)"
  for i n :: "'a::len word"
  proof -
  assume "i < n"
  then have "unat i < unat n"
    by (simp add: word_less_nat_alt)
  moreover have "unat n < 2 ^ LENGTH('a)"
    by (rule unsigned_less)
  ultimately have "unat i + 1 < 2 ^ LENGTH('a)"
    by linarith
  then show ?thesis by (simp add: unat_word_ariths)
qed

lemma unat_word_of_nat_small [word_nat]:
  "n < 2 ^ LENGTH('a) \<Longrightarrow> unat (word_of_nat n :: 'a::len word) = n"
  by (simp add: unat_of_nat)

lemma unat_ucast_small [word_nat]:
  "unat w < 2 ^ LENGTH('b) \<Longrightarrow> unat (ucast w :: 'b::len word) = unat w"
  for w :: "'a::len word"
  by (simp add: unsigned_ucast_eq take_bit_eq_mod)

section \<open>Counted loops\<close>

text \<open>
  \<open>for (i = lo; i < hi; ++i) body(i)\<close> with a \<open>uint32_t\<close> counter. The guard keeps the
  increment below \<open>hi\<close>, so the counter never wraps and the loop always ends.
\<close>

function for_u32 :: "u32 \<Rightarrow> u32 \<Rightarrow> (u32 \<Rightarrow> 's \<Rightarrow> 's) \<Rightarrow> 's \<Rightarrow> 's" where
  "for_u32 i n body s = (if i < n then for_u32 (i + 1) n body (body i s) else s)"
  by pat_completeness auto
termination
  by (relation "measure (\<lambda>(i, n, body, s). unat n - unat i)")
    (auto simp: unat_succ_less word_less_nat_alt)

declare for_u32.simps [simp del]

lemma for_u32_done [simp]: "n \<le> i \<Longrightarrow> for_u32 i n body s = s"
  by (subst for_u32.simps) (simp add: not_less [symmetric])

lemma for_u32_step: "i < n \<Longrightarrow> for_u32 i n body s = for_u32 (i + 1) n body (body i s)"
  by (subst for_u32.simps) simp

text \<open>The loop rule: an invariant indexed by the number of iterations done.\<close>

lemma for_u32_invariant:
  assumes "P i s" and "i \<le> n"
    and "\<And>j t. i \<le> j \<Longrightarrow> j < n \<Longrightarrow> P j t \<Longrightarrow> P (j + 1) (body j t)"
  shows "P n (for_u32 i n body s)"
  using assms
proof (induction i n body s rule: for_u32.induct)
  case (1 i n body s)
  show ?case
  proof (cases "i < n")
    case True
    then have le: "i \<le> i + 1" "i + 1 \<le> n"
      by (auto simp: word_le_nat_alt word_less_nat_alt unat_succ_less)
    have "P n (for_u32 (i + 1) n body (body i s))"
      proof (rule 1(1) [OF True _ le(2)])
      show "P (i + 1) (body i s)" using 1(2,4) True by simp
      show "P (j + 1) (body j t)" if "i + 1 \<le> j" "j < n" "P j t" for j t
        using 1(4) that le(1) order_trans by blast
    qed
    with True show ?thesis by (simp add: for_u32_step)
  next
    case False
    with 1(2,3) show ?thesis by simp
  qed
qed

lemma unat_diff_step: "r \<noteq> w \<Longrightarrow> unat (w - r :: u32) = Suc (unat (w - (r + 1)))"
proof -
  assume "r \<noteq> w"
  then have "unat (w - r - 1) = unat (w - r) - 1" "0 < unat (w - r)"
    by (auto simp: unat_minus_one unat_gt_0)
  then show ?thesis by (simp add: algebra_simps)
qed

section \<open>Array loops\<close>

text \<open>A loop that rewrites every element of an array in place, each from its old value.\<close>

lemma fold_update_upt:
  assumes "n \<le> length xs"
  shows "fold (\<lambda>i xs. xs[i := f i (xs ! i)]) [0..<n] xs = map (\<lambda>i. f i (xs ! i)) [0..<n] @ drop n xs"
  using assms
proof (induction n)
  case (Suc n)
  then have "drop n xs = xs ! n # drop (Suc n) xs" by (simp add: Cons_nth_drop_Suc)
  with Suc show ?case by (simp add: list_update_append nth_append)
qed simp

lemmas fold_fill_upt = fold_update_upt [where f = "\<lambda>i _. g i" for g, simplified]

lemma fold_map_upt:
  "n = length xs \<Longrightarrow> fold (\<lambda>i xs. xs[i := g (xs ! i)]) [0..<n] xs = map g xs"
  using fold_update_upt [of n xs "\<lambda>_. g"] by (simp add: map_nth flip: o_def [of g "(!) xs"] map_map)

section \<open>Runs of operations\<close>

text \<open>A sequence of operations on a state, with the results in order, and its simulation.\<close>

fun run_ops :: "('o \<Rightarrow> 's \<Rightarrow> 'r \<times> 's) \<Rightarrow> 'o list \<Rightarrow> 's \<Rightarrow> 'r list \<times> 's" where
  "run_ops step [] s = ([], s)"
| "run_ops step (x # ops) s = (let (r, s1) = step x s; (rs, s2) = run_ops step ops s1 in (r # rs, s2))"

lemma run_ops_simulation:
  assumes "\<And>x s. good s \<Longrightarrow> ok x \<Longrightarrow> good (snd (step x s)) \<and> fst (step x s) = fst (spec x (view s)) \<and>
      view (snd (step x s)) = snd (spec x (view s))"
  shows "good s \<Longrightarrow> list_all ok ops \<Longrightarrow> good (snd (run_ops step ops s)) \<and>
    fst (run_ops step ops s) = fst (run_ops spec ops (view s)) \<and>
    view (snd (run_ops step ops s)) = snd (run_ops spec ops (view s))"
proof (induction ops arbitrary: s)
  case (Cons x ops)
  have st: "good (snd (step x s))" "fst (step x s) = fst (spec x (view s))"
      "view (snd (step x s)) = snd (spec x (view s))"
    using assms [OF Cons.prems(1), of x] Cons.prems(2) by auto
  from Cons.IH [OF st(1)] Cons.prems(2) st(2,3) show ?case
    by (simp add: case_prod_beta Let_def)
qed simp

end
