(* ===== verification/Page_Allocator.thy ===== *)
theory Page_Allocator
  imports Kernel_Prelude
begin

text \<open>
  The contract of a page allocator as its clients (the boot sequence and the paging
  self-test of \<open>kernel/kernel.c\<close>) use it: addresses are available or owned, an allocation
  moves one available address to the owned ones, a free moves it back and is refused for
  anything that is not owned.
\<close>

text \<open>
  A client run: allocations and frees in any order. The ledger lists the addresses handed
  out and not yet given back, the way a client that trusts the answers would keep it.
\<close>

fun client_run :: "('s \<Rightarrow> u32 \<times> 's) \<Rightarrow> (u32 \<Rightarrow> 's \<Rightarrow> bool \<times> 's) \<Rightarrow>
    u32 option list \<Rightarrow> 's \<Rightarrow> u32 list \<Rightarrow> u32 list \<times> 's" where
  "client_run alloc release [] s ledger = (ledger, s)"
| "client_run alloc release (None # ops) s ledger =
     (case alloc s of (a, s') \<Rightarrow> client_run alloc release ops s' (if a = 0 then ledger else a # ledger))"
| "client_run alloc release (Some a # ops) s ledger =
     (case release a s of (ok, s') \<Rightarrow> client_run alloc release ops s' (if ok then removeAll a ledger else ledger))"

locale page_allocator =
  fixes wf :: "'s \<Rightarrow> bool"
    and avail :: "'s \<Rightarrow> u32 set"
    and owned :: "'s \<Rightarrow> u32 set"
    and alloc :: "'s \<Rightarrow> u32 \<times> 's"
    and release :: "u32 \<Rightarrow> 's \<Rightarrow> bool \<times> 's"
  assumes zero_not_page: "wf s \<Longrightarrow> 0 \<notin> avail s \<union> owned s"
    and disjoint: "wf s \<Longrightarrow> avail s \<inter> owned s = {}"
    and alloc_wf: "wf s \<Longrightarrow> alloc s = (a, s') \<Longrightarrow> wf s'"
    and alloc_fails: "wf s \<Longrightarrow> alloc s = (0, s') \<Longrightarrow>
      avail s = {} \<and> avail s' = {} \<and> owned s' = owned s"
    and alloc_gives: "wf s \<Longrightarrow> alloc s = (a, s') \<Longrightarrow> a \<noteq> 0 \<Longrightarrow>
      a \<in> avail s \<and> avail s' = avail s - {a} \<and> owned s' = insert a (owned s)"
    and release_wf: "wf s \<Longrightarrow> release a s = (ok, s') \<Longrightarrow> wf s'"
    and release_ok: "wf s \<Longrightarrow> release a s = (True, s') \<Longrightarrow>
      a \<in> owned s \<and> avail s' = insert a (avail s) \<and> owned s' = owned s - {a}"
    and release_fails: "wf s \<Longrightarrow> release a s = (False, s') \<Longrightarrow> a \<notin> owned s \<and> s' = s"
begin

lemma client_run_ledger:
  assumes "wf s" and "distinct ledger" and "set ledger = owned s"
    and "client_run alloc release ops s ledger = (ledger', s')"
  shows "wf s' \<and> distinct ledger' \<and> set ledger' = owned s' \<and>
    avail s' \<union> owned s' = avail s \<union> owned s"
  using assms
proof (induction ops arbitrary: s ledger)
  case Nil
  then show ?case by auto
next
  case (Cons op ops)
  note wf = Cons.prems(1)
  show ?case
  proof (cases op)
    case None
    obtain a t where at: "alloc s = (a, t)" by fastforce
    have t: "wf t" by (rule alloc_wf [OF wf at])
    show ?thesis
    proof (cases "a = 0")
      case True
      have eq: "avail s = {}" "avail t = {}" "owned t = owned s"
        using alloc_fails [of s t] wf at True by simp_all
      have "client_run alloc release ops t ledger = (ledger', s')"
        using Cons.prems(4) None at True by simp
      from Cons.IH [OF t Cons.prems(2) _ this] eq Cons.prems(3) show ?thesis by simp
    next
      case False
      note gives = alloc_gives [OF wf at False]
      have "a \<notin> set ledger" using gives disjoint [OF wf] Cons.prems(3) by auto
      moreover have "client_run alloc release ops t (a # ledger) = (ledger', s')"
        using Cons.prems(4) None at False by simp
      ultimately have "wf s' \<and> distinct ledger' \<and> set ledger' = owned s' \<and>
          avail s' \<union> owned s' = avail t \<union> owned t"
        using Cons.IH [OF t, of "a # ledger"] Cons.prems(2,3) gives by simp
      with gives show ?thesis by auto
    qed
  next
    case (Some a)
    obtain ok t where at: "release a s = (ok, t)" by fastforce
    have t: "wf t" by (rule release_wf [OF wf at])
    show ?thesis
    proof (cases ok)
      case True
      then have rel: "a \<in> owned s" "avail t = insert a (avail s)" "owned t = owned s - {a}"
        using release_ok [of s a t] wf at by simp_all
      have "client_run alloc release ops t (removeAll a ledger) = (ledger', s')"
        using Cons.prems(4) Some at True by simp
      then have "wf s' \<and> distinct ledger' \<and> set ledger' = owned s' \<and>
          avail s' \<union> owned s' = avail t \<union> owned t"
        using Cons.IH [OF t, of "removeAll a ledger"] Cons.prems(2,3) rel by (simp add: distinct_removeAll)
      with rel show ?thesis by auto
    next
      case False
      with at have "t = s" using release_fails [of s a t] wf by simp
      with Cons.prems(4) at Some False have "client_run alloc release ops s ledger = (ledger', s')"
        by simp
      then show ?thesis by (rule Cons.IH [OF Cons.prems(1-3)])
    qed
  qed
qed

text \<open>
  Hence every address handed out lies in the pool the run started with, and no address is
  handed out while a client still holds it.
\<close>

lemma client_run_pool:
  assumes "wf s" and "owned s = {}" and "client_run alloc release ops s [] = (ledger, s')"
  shows "distinct ledger \<and> set ledger \<subseteq> avail s"
  using client_run_ledger [OF assms(1) _ _ assms(3)] assms(2) by auto

lemma release_twice:
  assumes "wf s" and "release a s = (True, s')"
  shows "fst (release a s') = False"
proof -
  obtain ok t where "release a s' = (ok, t)" by fastforce
  moreover have "a \<notin> owned s'" and "wf s'"
    using release_ok [OF assms] release_wf [OF assms] by auto
  ultimately show ?thesis using release_ok [of s' a t] by (cases ok) auto
qed

end

end
