(* ===== verification/Pmm.thy ===== *)
theory Pmm
  imports Page_Allocator
begin

text \<open>
  The physical page allocator, \<open>kernel/mm/pmm.c\<close>: two bitmaps over the 1048576 pages of the
  32-bit physical space, the counters derived from them and the ownership freeze.
\<close>

section \<open>State and operations\<close>

abbreviation PMM_PAGE_SIZE :: u32 where "PMM_PAGE_SIZE \<equiv> 4096"
abbreviation PMM_PAGE_SHIFT :: nat where "PMM_PAGE_SHIFT \<equiv> 12"
abbreviation PMM_PAGE_COUNT :: u32 where "PMM_PAGE_COUNT \<equiv> 1048576"
abbreviation PMM_BITMAP_WORDS :: nat where "PMM_BITMAP_WORDS \<equiv> 32768"
abbreviation PMM_PAGE_MASK :: u32 where "PMM_PAGE_MASK \<equiv> 4095"
abbreviation PMM_PAGE_MASK64 :: u64 where "PMM_PAGE_MASK64 \<equiv> 4095"
abbreviation PMM_PHYSICAL_LIMIT :: u64 where "PMM_PHYSICAL_LIMIT \<equiv> 4294967296"

record pmm =
  managed_pages :: "u32 list"
  allocated_pages :: "u32 list"
  total_pages :: u32
  free_pages :: u32
  ownership_frozen :: bool

definition bitmap_word :: "u32 \<Rightarrow> u32" where
  "bitmap_word page = page div 32"

definition bitmap_mask :: "u32 \<Rightarrow> u32" where
  "bitmap_mask page = push_bit (unat (page mod 32)) 1"

definition page_is_managed :: "pmm \<Rightarrow> u32 \<Rightarrow> bool" where
  "page_is_managed s page =
     (managed_pages s ! unat (bitmap_word page) AND bitmap_mask page \<noteq> 0)"

definition page_is_allocated :: "pmm \<Rightarrow> u32 \<Rightarrow> bool" where
  "page_is_allocated s page =
     (allocated_pages s ! unat (bitmap_word page) AND bitmap_mask page \<noteq> 0)"

definition page_is_reserved :: "pmm \<Rightarrow> u32 \<Rightarrow> bool" where
  "page_is_reserved s page = (\<not> page_is_managed s page \<and> page_is_allocated s page)"

definition set_managed :: "u32 \<Rightarrow> bool \<Rightarrow> pmm \<Rightarrow> pmm" where
  "set_managed page v s =
     (let word = unat (bitmap_word page); m = bitmap_mask page in
      if v then s\<lparr>managed_pages := (managed_pages s)[word := managed_pages s ! word OR m]\<rparr>
      else s\<lparr>managed_pages := (managed_pages s)[word := managed_pages s ! word AND NOT m]\<rparr>)"

definition set_allocated :: "u32 \<Rightarrow> bool \<Rightarrow> pmm \<Rightarrow> pmm" where
  "set_allocated page v s =
     (let word = unat (bitmap_word page); m = bitmap_mask page in
      if v then s\<lparr>allocated_pages := (allocated_pages s)[word := allocated_pages s ! word OR m]\<rparr>
      else s\<lparr>allocated_pages := (allocated_pages s)[word := allocated_pages s ! word AND NOT m]\<rparr>)"

definition mark_page_reserved :: "u32 \<Rightarrow> pmm \<Rightarrow> pmm" where
  "mark_page_reserved page s =
     (if page_is_reserved s page then s
      else if page_is_managed s page then
        (if page_is_allocated s page then s
         else let s = set_allocated page True (set_managed page False s) in
           s\<lparr>total_pages := total_pages s - 1, free_pages := free_pages s - 1\<rparr>)
      else set_allocated page True s)"

definition mark_page_usable :: "u32 \<Rightarrow> pmm \<Rightarrow> pmm" where
  "mark_page_usable page s =
     (if page = 0 \<or> page_is_reserved s page \<or> page_is_managed s page then s
      else let s = set_allocated page False (set_managed page True s) in
        s\<lparr>total_pages := total_pages s + 1, free_pages := free_pages s + 1\<rparr>)"

text \<open>
  \<open>clip_to_physical\<close> is only called with the addresses of two locals, so its out-pointers
  are the result: \<open>None\<close> for the failure return, the clipped bounds otherwise.
\<close>

definition clip_to_physical :: "u64 \<Rightarrow> u64 \<Rightarrow> (u64 \<times> u64) option" where
  "clip_to_physical base len =
     (if len = 0 then Some (0, 0)
      else if base > - 1 - len then None
      else let end = base + len in
        if base \<ge> PMM_PHYSICAL_LIMIT then Some (0, 0)
        else if end > PMM_PHYSICAL_LIMIT then Some (base, PMM_PHYSICAL_LIMIT)
        else Some (base, end))"

definition inward_page_span :: "u64 \<Rightarrow> u64 \<Rightarrow> u32 \<times> u32" where
  "inward_page_span base end =
     (let aligned_start = (base + PMM_PAGE_MASK64) AND NOT PMM_PAGE_MASK64;
          aligned_end = end AND NOT PMM_PAGE_MASK64 in
      if aligned_start \<ge> aligned_end then (0, 0)
      else
        let start_page = ucast (drop_bit PMM_PAGE_SHIFT aligned_start);
            end_page = ucast (drop_bit PMM_PAGE_SHIFT aligned_end);
            start_page = (if start_page = 0 then 1 else start_page) in
        if start_page \<ge> end_page then (0, 0) else (start_page, end_page))"

definition outward_page_span :: "u64 \<Rightarrow> u64 \<Rightarrow> u32 \<times> u32" where
  "outward_page_span base end =
     (let aligned_start = base AND NOT PMM_PAGE_MASK64 in
      if base \<ge> end then (0, 0)
      else
        let aligned_end = (if end AND PMM_PAGE_MASK64 \<noteq> 0
              then (end + PMM_PAGE_MASK64) AND NOT PMM_PAGE_MASK64 else end);
            start_page = ucast (drop_bit PMM_PAGE_SHIFT aligned_start);
            end_page = (if aligned_end \<ge> PMM_PHYSICAL_LIMIT then PMM_PAGE_COUNT
              else ucast (drop_bit PMM_PAGE_SHIFT aligned_end)) in
        if start_page \<ge> end_page then (0, 0) else (start_page, end_page))"

definition pmm_reset :: "pmm \<Rightarrow> pmm" where
  "pmm_reset s =
     (let s = for_u32 0 (of_nat PMM_BITMAP_WORDS)
            (\<lambda>word s. s\<lparr>managed_pages := (managed_pages s)[unat word := 0],
                        allocated_pages := (allocated_pages s)[unat word := 0]\<rparr>) s in
      mark_page_reserved 0 (s\<lparr>total_pages := 0, free_pages := 0, ownership_frozen := False\<rparr>))"

definition pmm_add_usable_region :: "u64 \<Rightarrow> u64 \<Rightarrow> pmm \<Rightarrow> bool \<times> pmm" where
  "pmm_add_usable_region base len s =
     (if ownership_frozen s then (False, s)
      else case clip_to_physical base len of
        None \<Rightarrow> (False, s)
      | Some (clipped_base, clipped_end) \<Rightarrow>
          (let (first, last_excl) = inward_page_span clipped_base clipped_end in
           (True, for_u32 first last_excl mark_page_usable s)))"

definition pmm_reserve_region :: "u64 \<Rightarrow> u64 \<Rightarrow> pmm \<Rightarrow> bool \<times> pmm" where
  "pmm_reserve_region base len s =
     (if ownership_frozen s then (False, s)
      else case clip_to_physical base len of
        None \<Rightarrow> (False, s)
      | Some (clipped_base, clipped_end) \<Rightarrow>
          (let (first, last_excl) = outward_page_span clipped_base clipped_end in
           (True, for_u32 first last_excl mark_page_reserved s)))"

text \<open>
  \<open>__builtin_ctz\<close>: the number of trailing zero bits, looked for from bit \<open>i\<close> on. The
  builtin is undefined at 0, where \<open>pmm_alloc_page\<close> never calls it.
\<close>

function ctz_from :: "nat \<Rightarrow> u32 \<Rightarrow> nat" where
  "ctz_from i w = (if i < 32 \<and> \<not> bit w i then ctz_from (Suc i) w else i)"
  by pat_completeness auto
termination
  by (relation "measure (\<lambda>(i, w). 32 - i)") auto

declare ctz_from.simps [simp del]

definition builtin_ctz :: "u32 \<Rightarrow> u32" where
  "builtin_ctz w = of_nat (ctz_from 0 w)"

text \<open>The scan of \<open>pmm_alloc_page\<close> from bitmap word \<open>word\<close> on.\<close>

function alloc_scan :: "nat \<Rightarrow> pmm \<Rightarrow> u32 \<times> pmm" where
  "alloc_scan word s =
     (if word < PMM_BITMAP_WORDS then
        (let free_mask = managed_pages s ! word AND NOT (allocated_pages s ! word) in
         if free_mask = 0 then alloc_scan (Suc word) s
         else
           let b = builtin_ctz free_mask;
               page = of_nat word * 32 + b;
               s = set_allocated page True s in
           (push_bit PMM_PAGE_SHIFT page, s\<lparr>free_pages := free_pages s - 1\<rparr>))
      else (0, s))"
  by pat_completeness auto
termination
  by (relation "measure (\<lambda>(word, s). PMM_BITMAP_WORDS - word)") auto

declare alloc_scan.simps [simp del]

definition pmm_alloc_page :: "pmm \<Rightarrow> u32 \<times> pmm" where
  "pmm_alloc_page s =
     (let s = s\<lparr>ownership_frozen := True\<rparr> in
      if free_pages s = 0 then (0, s) else alloc_scan 0 s)"

definition pmm_free_page :: "u32 \<Rightarrow> pmm \<Rightarrow> bool \<times> pmm" where
  "pmm_free_page physical_address s =
     (if physical_address = 0 then (False, s)
      else if physical_address AND PMM_PAGE_MASK \<noteq> 0 then (False, s)
      else if physical_address > push_bit PMM_PAGE_SHIFT (PMM_PAGE_COUNT - 1) then (False, s)
      else
        let page = drop_bit PMM_PAGE_SHIFT physical_address in
        if \<not> page_is_managed s page \<or> \<not> page_is_allocated s page then (False, s)
        else
          let s = set_allocated page False s in
          (True, s\<lparr>free_pages := free_pages s + 1\<rparr>))"

definition pmm_free_page_count :: "pmm \<Rightarrow> u32" where
  "pmm_free_page_count s = free_pages s"

definition pmm_total_page_count :: "pmm \<Rightarrow> u32" where
  "pmm_total_page_count s = total_pages s"


section \<open>Page states\<close>

text \<open>The four states the two bitmaps encode, as the comment above them lists them.\<close>

datatype page_state = Page_Unknown | Page_Free | Page_Allocated | Page_Reserved

definition page_state :: "pmm \<Rightarrow> u32 \<Rightarrow> page_state" where
  "page_state s p =
     (if p < PMM_PAGE_COUNT then
        (if page_is_managed s p
         then (if page_is_allocated s p then Page_Allocated else Page_Free)
         else (if page_is_allocated s p then Page_Reserved else Page_Unknown))
      else Page_Unknown)"

definition pages_in :: "page_state \<Rightarrow> pmm \<Rightarrow> u32 set" where
  "pages_in st s = {p. page_state s p = st}"

text \<open>
  Well-formedness: the bitmaps have their static sizes, page 0 is reserved for ever, and
  the two counters count what the bitmaps say.
\<close>

definition pmm_wf :: "pmm \<Rightarrow> bool" where
  "pmm_wf s \<longleftrightarrow>
     length (managed_pages s) = PMM_BITMAP_WORDS \<and>
     length (allocated_pages s) = PMM_BITMAP_WORDS \<and>
     page_state s 0 = Page_Reserved \<and>
     unat (free_pages s) = card (pages_in Page_Free s) \<and>
     unat (total_pages s) = card (pages_in Page_Free s) + card (pages_in Page_Allocated s)"

abbreviation bitmaps_sized :: "pmm \<Rightarrow> bool" where
  "bitmaps_sized s \<equiv> length (managed_pages s) = PMM_BITMAP_WORDS \<and>
     length (allocated_pages s) = PMM_BITMAP_WORDS"

subsection \<open>Bitmap updates\<close>

lemma unat_bitmap_word: "unat (bitmap_word p) = unat p div 32"
  by (simp add: bitmap_word_def unat_div)

lemma bitmap_mask_eq: "bitmap_mask p = push_bit (unat p mod 32) 1"
  by (simp add: bitmap_mask_def unat_mod)

lemma page_is_managed_bit:
  "page_is_managed s p \<longleftrightarrow> bit (managed_pages s ! (unat p div 32)) (unat p mod 32)"
  by (simp add: page_is_managed_def unat_bitmap_word bitmap_mask_eq and_exp_eq_0_iff_not_bit)

lemma page_is_allocated_bit:
  "page_is_allocated s p \<longleftrightarrow> bit (allocated_pages s ! (unat p div 32)) (unat p mod 32)"
  by (simp add: page_is_allocated_def unat_bitmap_word bitmap_mask_eq and_exp_eq_0_iff_not_bit)

lemma page_eq_iff: "p = q \<longleftrightarrow> unat p div 32 = unat q div 32 \<and> unat p mod 32 = unat q mod 32"
  for p q :: u32
  by (metis div_mult_mod_eq word_unat_eq_iff)

lemma page_word_less: "p < PMM_PAGE_COUNT \<Longrightarrow> unat p div 32 < PMM_BITMAP_WORDS"
  by (simp add: word_less_nat_alt less_mult_imp_div_less)

lemma set_managed_fields [simp]:
  "allocated_pages (set_managed p v s) = allocated_pages s"
  "total_pages (set_managed p v s) = total_pages s"
  "free_pages (set_managed p v s) = free_pages s"
  "ownership_frozen (set_managed p v s) = ownership_frozen s"
  "length (managed_pages (set_managed p v s)) = length (managed_pages s)"
  by (simp_all add: set_managed_def Let_def)

lemma set_allocated_fields [simp]:
  "managed_pages (set_allocated p v s) = managed_pages s"
  "total_pages (set_allocated p v s) = total_pages s"
  "free_pages (set_allocated p v s) = free_pages s"
  "ownership_frozen (set_allocated p v s) = ownership_frozen s"
  "length (allocated_pages (set_allocated p v s)) = length (allocated_pages s)"
  by (simp_all add: set_allocated_def Let_def)

lemma managed_set_managed:
  assumes "p < PMM_PAGE_COUNT" and "length (managed_pages s) = PMM_BITMAP_WORDS"
  shows "page_is_managed (set_managed p v s) q \<longleftrightarrow> (if q = p then v else page_is_managed s q)"
  using page_word_less [OF assms(1)] assms(2)
  by (cases "unat q div 32 = unat p div 32")
    (auto simp: page_is_managed_bit set_managed_def Let_def unat_bitmap_word bitmap_mask_eq
      bit_set_iff bit_clear_iff page_eq_iff simp del: push_bit_of_1)

lemma allocated_set_allocated:
  assumes "p < PMM_PAGE_COUNT" and "length (allocated_pages s) = PMM_BITMAP_WORDS"
  shows "page_is_allocated (set_allocated p v s) q \<longleftrightarrow> (if q = p then v else page_is_allocated s q)"
  using page_word_less [OF assms(1)] assms(2)
  by (cases "unat q div 32 = unat p div 32")
    (auto simp: page_is_allocated_bit set_allocated_def Let_def unat_bitmap_word bitmap_mask_eq
      bit_set_iff bit_clear_iff page_eq_iff simp del: push_bit_of_1)

lemma allocated_set_managed [simp]:
  "page_is_allocated (set_managed p v s) q = page_is_allocated s q"
  by (simp add: page_is_allocated_def)

lemma managed_set_allocated [simp]:
  "page_is_managed (set_allocated p v s) q = page_is_managed s q"
  by (simp add: page_is_managed_def)

lemma page_bits_update [simp]:
  "page_is_managed (s\<lparr>total_pages := t\<rparr>) = page_is_managed s"
  "page_is_managed (s\<lparr>free_pages := f\<rparr>) = page_is_managed s"
  "page_is_managed (s\<lparr>ownership_frozen := b\<rparr>) = page_is_managed s"
  "page_is_allocated (s\<lparr>total_pages := t\<rparr>) = page_is_allocated s"
  "page_is_allocated (s\<lparr>free_pages := f\<rparr>) = page_is_allocated s"
  "page_is_allocated (s\<lparr>ownership_frozen := b\<rparr>) = page_is_allocated s"
  by (simp_all add: fun_eq_iff page_is_managed_def page_is_allocated_def)

lemma page_state_update [simp]:
  "page_state (s\<lparr>total_pages := t\<rparr>) = page_state s"
  "page_state (s\<lparr>free_pages := f\<rparr>) = page_state s"
  "page_state (s\<lparr>ownership_frozen := b\<rparr>) = page_state s"
  by (simp_all add: fun_eq_iff page_state_def)

lemmas page_bits = managed_set_managed allocated_set_allocated

lemma page_state_cases:
  assumes "p < PMM_PAGE_COUNT"
  shows "page_is_managed s p \<longleftrightarrow> page_state s p \<in> {Page_Free, Page_Allocated}"
    and "page_is_allocated s p \<longleftrightarrow> page_state s p \<in> {Page_Reserved, Page_Allocated}"
    and "page_is_reserved s p \<longleftrightarrow> page_state s p = Page_Reserved"
  using assms by (auto simp: page_state_def page_is_reserved_def split: if_splits)

lemma page_state_outside [simp]: "\<not> p < PMM_PAGE_COUNT \<Longrightarrow> page_state s p = Page_Unknown"
  by (simp add: page_state_def)

subsection \<open>Single-page transitions\<close>

lemma mark_page_reserved_state:
  assumes "bitmaps_sized s" and "p < PMM_PAGE_COUNT"
  shows "page_state (mark_page_reserved p s) =
     (if page_state s p \<in> {Page_Unknown, Page_Free}
      then (page_state s)(p := Page_Reserved) else page_state s)"
  using assms
  by (auto simp: fun_eq_iff page_state_def mark_page_reserved_def page_is_reserved_def Let_def page_bits)

lemma mark_page_usable_state:
  assumes "bitmaps_sized s" and "p < PMM_PAGE_COUNT"
  shows "page_state (mark_page_usable p s) =
     (if p \<noteq> 0 \<and> page_state s p = Page_Unknown
      then (page_state s)(p := Page_Free) else page_state s)"
  using assms
  by (auto simp: fun_eq_iff page_state_def mark_page_usable_def page_is_reserved_def Let_def page_bits)

lemma set_allocated_state:
  assumes "bitmaps_sized s" and "p < PMM_PAGE_COUNT" and "page_is_managed s p"
  shows "page_state (set_allocated p v s) =
     (page_state s)(p := (if v then Page_Allocated else Page_Free))"
  using assms by (auto simp: fun_eq_iff page_state_def page_bits)

subsection \<open>Counting\<close>

lemma card_pages_in_bound: "page_state s 0 = Page_Reserved \<Longrightarrow>
   card (pages_in Page_Free s) + card (pages_in Page_Allocated s) < 1048576"
proof -
  assume zero: "page_state s 0 = Page_Reserved"
  let ?A = "pages_in Page_Free s \<union> pages_in Page_Allocated s"
  have "unat p \<in> {1..<1048576}" if "p \<in> ?A" for p
  proof -
    from that zero have "p \<noteq> 0" by (auto simp: pages_in_def)
    moreover from that have "p < PMM_PAGE_COUNT"
      by (cases "p < PMM_PAGE_COUNT") (auto simp: pages_in_def)
    ultimately show ?thesis by (simp add: word_less_nat_alt Suc_le_eq unat_gt_0)
  qed
  then have "unat ` ?A \<subseteq> {1..<1048576}" by blast
  then have "card (unat ` ?A) \<le> card {1..<1048576::nat}"
    by (intro card_mono) auto
  moreover have "card (unat ` ?A) = card ?A"
    by (intro card_image inj_onI) (simp add: word_unat_eq_iff)
  moreover have "card ?A = card (pages_in Page_Free s) + card (pages_in Page_Allocated s)"
    by (intro card_Un_disjoint) (auto simp: pages_in_def)
  ultimately show ?thesis by simp
qed

lemma pages_in_upd:
  "page_state t = (page_state s)(p := n) \<Longrightarrow>
   pages_in st t = (if st = n then insert p (pages_in st s) else pages_in st s - {p})"
  by (auto simp: pages_in_def)

lemma pages_in_same: "page_state t = page_state s \<Longrightarrow> pages_in st t = pages_in st s"
  by (simp add: pages_in_def)

lemma mark_page_reserved_fields:
  "length (managed_pages (mark_page_reserved p s)) = length (managed_pages s)"
  "length (allocated_pages (mark_page_reserved p s)) = length (allocated_pages s)"
  "ownership_frozen (mark_page_reserved p s) = ownership_frozen s"
  "p < PMM_PAGE_COUNT \<Longrightarrow> free_pages (mark_page_reserved p s) =
     (if page_state s p = Page_Free then free_pages s - 1 else free_pages s)"
  "p < PMM_PAGE_COUNT \<Longrightarrow> total_pages (mark_page_reserved p s) =
     (if page_state s p = Page_Free then total_pages s - 1 else total_pages s)"
  by (auto simp: mark_page_reserved_def Let_def page_state_cases)

lemma mark_page_usable_fields:
  "length (managed_pages (mark_page_usable p s)) = length (managed_pages s)"
  "length (allocated_pages (mark_page_usable p s)) = length (allocated_pages s)"
  "ownership_frozen (mark_page_usable p s) = ownership_frozen s"
  "p < PMM_PAGE_COUNT \<Longrightarrow> free_pages (mark_page_usable p s) =
     (if p \<noteq> 0 \<and> page_state s p = Page_Unknown then free_pages s + 1 else free_pages s)"
  "p < PMM_PAGE_COUNT \<Longrightarrow> total_pages (mark_page_usable p s) =
     (if p \<noteq> 0 \<and> page_state s p = Page_Unknown then total_pages s + 1 else total_pages s)"
  by (cases "page_state s p"; simp add: mark_page_usable_def Let_def page_state_cases)+

lemma unat_dec: "unat (x :: u32) = n \<Longrightarrow> 0 < n \<Longrightarrow> unat (x - 1) = n - 1"
  by (metis unat_1 unat_sub_no_wrap unat_gt_0 word_less_1 linorder_not_le less_numeral_extra(3))

lemma unat_inc: "unat (x :: u32) = n \<Longrightarrow> n < 4294967295 \<Longrightarrow> unat (x + 1) = Suc n"
  by (simp add: unat_add_no_wrap)

lemma pmm_wfD:
  assumes "pmm_wf s"
  shows "bitmaps_sized s" "page_state s 0 = Page_Reserved"
    "unat (free_pages s) = card (pages_in Page_Free s)"
    "unat (total_pages s) = card (pages_in Page_Free s) + card (pages_in Page_Allocated s)"
    "card (pages_in Page_Free s) + card (pages_in Page_Allocated s) < 1048576"
  using assms card_pages_in_bound [of s] by (simp_all add: pmm_wf_def)

lemma pages_in_nonempty: "page_state s p = st \<Longrightarrow> 0 < card (pages_in st s)"
  by (auto simp: pages_in_def card_gt_0_iff)

lemma mark_page_reserved_wf:
  assumes wf: "pmm_wf s" and p: "p < PMM_PAGE_COUNT"
  shows "pmm_wf (mark_page_reserved p s)"
proof (cases "page_state s p")
  case Page_Unknown
  then have st: "page_state (mark_page_reserved p s) = (page_state s)(p := Page_Reserved)"
    using mark_page_reserved_state pmm_wfD(1) [OF wf] p by simp
  have "p \<notin> pages_in Page_Free s" "p \<notin> pages_in Page_Allocated s"
    using Page_Unknown by (auto simp: pages_in_def)
  with st Page_Unknown p pmm_wfD [OF wf] show ?thesis
    by (simp add: pmm_wf_def mark_page_reserved_fields pages_in_upd [OF st])
next
  case Page_Free
  then have st: "page_state (mark_page_reserved p s) = (page_state s)(p := Page_Reserved)"
    using mark_page_reserved_state pmm_wfD(1) [OF wf] p by simp
  have mem: "p \<in> pages_in Page_Free s" "p \<notin> pages_in Page_Allocated s"
    using Page_Free by (auto simp: pages_in_def)
  then have "card (pages_in Page_Free s - {p}) = card (pages_in Page_Free s) - 1"
    by simp
  with st Page_Free mem p pmm_wfD [OF wf] pages_in_nonempty [OF Page_Free] show ?thesis
    by (simp add: pmm_wf_def mark_page_reserved_fields pages_in_upd [OF st] unat_dec)
next
  case Page_Allocated
  then have st: "page_state (mark_page_reserved p s) = page_state s"
    using mark_page_reserved_state pmm_wfD(1) [OF wf] p by simp
  with Page_Allocated p pmm_wfD [OF wf] show ?thesis
    by (simp add: pmm_wf_def mark_page_reserved_fields pages_in_same [OF st])
next
  case Page_Reserved
  then have st: "page_state (mark_page_reserved p s) = page_state s"
    using mark_page_reserved_state pmm_wfD(1) [OF wf] p by simp
  with Page_Reserved p pmm_wfD [OF wf] show ?thesis
    by (simp add: pmm_wf_def mark_page_reserved_fields pages_in_same [OF st])
qed

lemma mark_page_usable_wf:
  assumes wf: "pmm_wf s" and p: "p < PMM_PAGE_COUNT"
  shows "pmm_wf (mark_page_usable p s)"
proof (cases "p \<noteq> 0 \<and> page_state s p = Page_Unknown")
  case True
  then have st: "page_state (mark_page_usable p s) = (page_state s)(p := Page_Free)"
    using mark_page_usable_state pmm_wfD(1) [OF wf] p by simp
  have "p \<notin> pages_in Page_Free s" "p \<notin> pages_in Page_Allocated s"
    using True by (auto simp: pages_in_def)
  with st True p pmm_wfD [OF wf] show ?thesis
    by (simp add: pmm_wf_def mark_page_usable_fields pages_in_upd [OF st] unat_inc)
next
  case False
  then have st: "page_state (mark_page_usable p s) = page_state s"
    using mark_page_usable_state pmm_wfD(1) [OF wf] p by auto
  with False p pmm_wfD [OF wf] show ?thesis
    by (auto simp: pmm_wf_def mark_page_usable_fields pages_in_same [OF st])
qed

subsection \<open>Marking a range of pages\<close>

text \<open>
  Both marking loops change each page of the range once and independently, so one lemma
  carries them; \<open>h p st\<close> is the state page \<open>p\<close> moves to from \<open>st\<close>.
\<close>

lemma mark_range:
  assumes wf: "pmm_wf s" and le: "first \<le> stop" and stop: "stop \<le> PMM_PAGE_COUNT"
    and mark: "\<And>p u. pmm_wf u \<Longrightarrow> p < PMM_PAGE_COUNT \<Longrightarrow>
      pmm_wf (f p u) \<and> ownership_frozen (f p u) = ownership_frozen u \<and>
      page_state (f p u) = (page_state u)(p := h p (page_state u p))"
  shows "pmm_wf (for_u32 first stop f s) \<and>
    ownership_frozen (for_u32 first stop f s) = ownership_frozen s \<and>
    (\<forall>q. page_state (for_u32 first stop f s) q =
      (if first \<le> q \<and> q < stop then h q (page_state s q) else page_state s q))"
    (is "?P stop (for_u32 first stop f s)")
proof (rule for_u32_invariant [where P = ?P])
  show "?P first s" using wf by auto
  show "?P (j + 1) (f j u)" if j: "first \<le> j" "j < stop" and P: "?P j u" for j u
  proof -
    have "j < PMM_PAGE_COUNT" using j(2) stop by simp
    moreover have "q < j + 1 \<longleftrightarrow> q < j \<or> q = j" for q
      using unat_succ_less [OF j(2)] by (auto simp: word_less_nat_alt word_unat_eq_iff)
    ultimately show ?thesis
      using P j(1) mark [of u j] by auto
  qed
qed (rule le)

lemma mark_range_usable:
  assumes "pmm_wf s" and "first \<le> stop" and "stop \<le> PMM_PAGE_COUNT"
  shows "pmm_wf (for_u32 first stop mark_page_usable s) \<and>
    ownership_frozen (for_u32 first stop mark_page_usable s) = ownership_frozen s \<and>
    (\<forall>q. page_state (for_u32 first stop mark_page_usable s) q =
      (if first \<le> q \<and> q < stop
       then (if q \<noteq> 0 \<and> page_state s q = Page_Unknown then Page_Free else page_state s q)
       else page_state s q))"
  using assms
  by (rule mark_range [where h = "\<lambda>p st. if p \<noteq> 0 \<and> st = Page_Unknown then Page_Free else st"])
    (auto simp: mark_page_usable_wf mark_page_usable_state mark_page_usable_fields pmm_wfD(1))

lemma mark_range_reserved:
  assumes "pmm_wf s" and "first \<le> stop" and "stop \<le> PMM_PAGE_COUNT"
  shows "pmm_wf (for_u32 first stop mark_page_reserved s) \<and>
    ownership_frozen (for_u32 first stop mark_page_reserved s) = ownership_frozen s \<and>
    (\<forall>q. page_state (for_u32 first stop mark_page_reserved s) q =
      (if first \<le> q \<and> q < stop
       then (if page_state s q \<in> {Page_Unknown, Page_Free} then Page_Reserved else page_state s q)
       else page_state s q))"
  using assms
  by (rule mark_range [where
        h = "\<lambda>p st. if st \<in> {Page_Unknown, Page_Free} then Page_Reserved else st"])
    (auto simp: mark_page_reserved_wf mark_page_reserved_state mark_page_reserved_fields pmm_wfD(1))

subsection \<open>Page spans\<close>

definition clipped :: "u64 \<Rightarrow> u64 \<Rightarrow> bool" where
  "clipped base end \<longleftrightarrow> base \<le> end \<and> end \<le> PMM_PHYSICAL_LIMIT"

lemma clip_to_physical_None: "clip_to_physical base len = None \<longleftrightarrow>
    2 ^ 64 \<le> unat base + unat len"
proof -
  have "unat (- 1 - len) = 2 ^ 64 - 1 - unat len"
    by (simp add: unat_sub_no_wrap unsigned_minus_1_eq_mask mask_eq_exp_minus_1)
  then show ?thesis
    using unat_less_width(4) [of len] unat_less_width(4) [of base] by (auto simp: clip_to_physical_def Let_def word_less_nat_alt)
qed

lemma clip_to_physical_Some:
  assumes "clip_to_physical base len = Some (b, e)"
  shows "b \<le> e" and "unat e \<le> 2 ^ 32"
    and "(b, e) = (0, 0) \<and> (len = 0 \<or> 2 ^ 32 \<le> unat base) \<or>
      len \<noteq> 0 \<and> unat base < 2 ^ 32 \<and> b = base \<and> unat e = min (unat base + unat len) (2 ^ 32)"
proof -
  have nw: "unat base + unat len < 2 ^ 64"
    using assms clip_to_physical_None [of base len] by (cases "2 ^ 64 \<le> unat base + unat len") auto
  then have "unat (base + len) = unat base + unat len"
    by (simp add: unat_add_no_wrap)
  with assms nw show 3: "(b, e) = (0, 0) \<and> (len = 0 \<or> 2 ^ 32 \<le> unat base) \<or>
      len \<noteq> 0 \<and> unat base < 2 ^ 32 \<and> b = base \<and> unat e = min (unat base + unat len) (2 ^ 32)"
    by (auto simp: clip_to_physical_def Let_def word_less_nat_alt word_le_nat_alt split: if_splits)
  from 3 show "b \<le> e" and "unat e \<le> 2 ^ 32"
    by (auto simp: word_le_nat_alt)
qed

lemma unat_page_of: "unat x \<le> 2 ^ 33 \<Longrightarrow> unat (ucast (drop_bit 12 x) :: u32) = unat x div 4096"
  for x :: u64
  by (simp add: unat_ucast_small unat_drop_bit)

lemma align64:
  "unat (x AND NOT PMM_PAGE_MASK64) = unat x div 4096 * 4096"
  "unat (x AND PMM_PAGE_MASK64) = unat x mod 4096"
  using unat_and_not_mask [of x 12] unat_and_mask [of x 12]
  by (simp_all add: mask_numerals)

lemma align_up64:
  "unat x \<le> 2 ^ 32 \<Longrightarrow>
   unat ((x + PMM_PAGE_MASK64) AND NOT PMM_PAGE_MASK64) = (unat x + 4095) div 4096 * 4096"
  unfolding align64 by (simp add: unat_add_no_wrap)

lemma inward_page_span_iff:
  assumes "b \<le> e" and "unat e \<le> 2 ^ 32" and "inward_page_span b e = (first, stop)"
  shows "first \<le> stop" and "stop \<le> PMM_PAGE_COUNT"
    and "first \<le> p \<and> p < stop \<longleftrightarrow> p \<noteq> 0 \<and> unat b \<le> unat p * 4096 \<and> unat p * 4096 + 4096 \<le> unat e"
proof -
  have b: "unat b \<le> 2 ^ 32" using assms(1,2) by (simp add: word_le_nat_alt)
  let ?s = "(b + PMM_PAGE_MASK64) AND NOT PMM_PAGE_MASK64"
  let ?e = "e AND NOT PMM_PAGE_MASK64"
  have s: "unat ?s = (unat b + 4095) div 4096 * 4096" and e: "unat ?e = unat e div 4096 * 4096"
    by (rule align_up64 [OF b], rule align64)
  have "unat ?s \<le> 2 ^ 33" "unat ?e \<le> 2 ^ 33" unfolding s e using b assms(2) by simp_all
  then have pages: "unat (ucast (drop_bit 12 ?s) :: u32) = (unat b + 4095) div 4096"
      "unat (ucast (drop_bit 12 ?e) :: u32) = unat e div 4096"
    unfolding unat_page_of [OF \<open>unat ?s \<le> 2 ^ 33\<close>] unat_page_of [OF \<open>unat ?e \<le> 2 ^ 33\<close>] s e by simp_all
  show 1: "first \<le> stop" and 2: "stop \<le> PMM_PAGE_COUNT"
    using assms(2,3) pages
    by (auto simp: inward_page_span_def Let_def word_le_nat_alt split: if_splits)
  have "unat first = 0 \<and> unat stop = 0 \<and>
      (unat e div 4096 \<le> (unat b + 4095) div 4096 \<or> unat e div 4096 \<le> 1) \<or>
    unat first = max 1 ((unat b + 4095) div 4096) \<and> unat stop = unat e div 4096"
    using assms(3) pages s e
    by (auto simp: inward_page_span_def Let_def word_le_nat_alt unat_gt_0 word_unat_eq_iff split: if_splits)
  moreover have "(unat b + 4095) div 4096 \<le> unat p \<longleftrightarrow> unat b \<le> unat p * 4096" by linarith
  moreover have "unat p < unat e div 4096 \<longleftrightarrow> unat p * 4096 + 4096 \<le> unat e" by linarith
  ultimately show "first \<le> p \<and> p < stop \<longleftrightarrow> p \<noteq> 0 \<and> unat b \<le> unat p * 4096 \<and> unat p * 4096 + 4096 \<le> unat e"
    unfolding word_le_nat_alt word_less_nat_alt word_unat_eq_iff [of p] by auto
qed

lemma outward_page_span_iff:
  assumes "b \<le> e" and "unat e \<le> 2 ^ 32" and "outward_page_span b e = (first, stop)"
  shows "first \<le> stop" and "stop \<le> PMM_PAGE_COUNT"
    and "first \<le> p \<and> p < stop \<longleftrightarrow> b < e \<and> unat b < unat p * 4096 + 4096 \<and> unat p * 4096 < unat e"
proof -
  have b: "unat b \<le> 2 ^ 32" using assms(1,2) by (simp add: word_le_nat_alt)
  let ?s = "b AND NOT PMM_PAGE_MASK64"
  define ae where "ae = (if e AND PMM_PAGE_MASK64 \<noteq> 0
    then (e + PMM_PAGE_MASK64) AND NOT PMM_PAGE_MASK64 else e)"
  have s: "unat ?s = unat b div 4096 * 4096" by (rule align64)
  have zero: "e AND PMM_PAGE_MASK64 = 0 \<longleftrightarrow> unat e mod 4096 = 0"
    using align64(2) [of e] by (metis unat_eq_zero)
  have ae: "unat ae = (unat e + 4095) div 4096 * 4096"
    unfolding ae_def zero using align_up64 [OF assms(2)] by auto
  have bounds: "unat ?s \<le> 2 ^ 33" "unat ae \<le> 2 ^ 33" unfolding s ae using b assms(2) by simp_all
  define S :: u32 where "S = ucast (drop_bit 12 ?s)"
  define T :: u32 where
    "T = (if ae \<ge> PMM_PHYSICAL_LIMIT then PMM_PAGE_COUNT else ucast (drop_bit 12 ae))"
  have sp: "unat S = unat b div 4096"
    unfolding S_def unat_page_of [OF bounds(1)] s by simp
  have ep: "unat T = (unat e + 4095) div 4096"
    unfolding T_def
  proof (cases "PMM_PHYSICAL_LIMIT \<le> ae")
    case True
    with ae assms(2) show "unat (if ae \<ge> PMM_PHYSICAL_LIMIT then PMM_PAGE_COUNT
        else ucast (drop_bit 12 ae)) = (unat e + 4095) div 4096"
      by (auto simp: word_le_nat_alt)
  next
    case False
    then show "unat (if ae \<ge> PMM_PHYSICAL_LIMIT then PMM_PAGE_COUNT
        else ucast (drop_bit 12 ae)) = (unat e + 4095) div 4096"
      by (simp add: unat_page_of [OF bounds(2)] ae)
  qed
  have "(first, stop) = (if b \<ge> e then (0, 0) else if S \<ge> T then (0, 0) else (S, T))"
    unfolding assms(3) [symmetric] outward_page_span_def Let_def S_def T_def ae_def ..
  with sp ep have "(first, stop) = (0, 0) \<and> (e \<le> b \<or> (unat e + 4095) div 4096 \<le> unat b div 4096) \<or>
      b < e \<and> unat first = unat b div 4096 \<and> unat stop = (unat e + 4095) div 4096"
    by (auto simp: word_le_nat_alt word_less_nat_alt split: if_splits)
  then show "first \<le> stop" and "stop \<le> PMM_PAGE_COUNT"
    and "first \<le> p \<and> p < stop \<longleftrightarrow> b < e \<and> unat b < unat p * 4096 + 4096 \<and> unat p * 4096 < unat e"
    using assms(1,2) by (auto simp: word_le_nat_alt word_less_nat_alt)
qed

section \<open>What the operations do\<close>

subsection \<open>Reset and regions\<close>

lemma pmm_reset_clears:
  assumes "bitmaps_sized s"
  shows "\<exists>s'. pmm_reset s = mark_page_reserved 0 s' \<and> bitmaps_sized s' \<and>
    (\<forall>k < PMM_BITMAP_WORDS. managed_pages s' ! k = 0 \<and> allocated_pages s' ! k = 0) \<and>
    total_pages s' = 0 \<and> free_pages s' = 0 \<and> \<not> ownership_frozen s'"
proof -
  let ?body = "\<lambda>word s. s\<lparr>managed_pages := (managed_pages s)[unat word := 0],
                        allocated_pages := (allocated_pages s)[unat word := 0]\<rparr>"
  let ?P = "\<lambda>(n::u32) t. bitmaps_sized t \<and>
    (\<forall>k < unat n. managed_pages t ! k = 0 \<and> allocated_pages t ! k = 0)"
  have "?P 32768 (for_u32 0 32768 ?body s)"
  proof (rule for_u32_invariant [where P = ?P])
    show "?P 0 s" using assms by simp
    show "?P (j + 1) (?body j t)" if "j < 32768" "?P j t" for j t
      using that unat_succ_less [OF that(1)]
      by (auto simp: nth_list_update less_Suc_eq word_less_nat_alt)
  qed simp
  then show ?thesis
    by (intro exI [of _ "(for_u32 0 32768 ?body s)
          \<lparr>total_pages := 0, free_pages := 0, ownership_frozen := False\<rparr>"])
      (simp add: pmm_reset_def Let_def)
qed

lemma pmm_reset_spec:
  assumes "bitmaps_sized s"
  shows "pmm_wf (pmm_reset s)" and "\<not> ownership_frozen (pmm_reset s)"
    and "page_state (pmm_reset s) p = (if p = 0 then Page_Reserved else Page_Unknown)"
proof -
  obtain s' where s': "pmm_reset s = mark_page_reserved 0 s'" "bitmaps_sized s'"
    "\<forall>k < PMM_BITMAP_WORDS. managed_pages s' ! k = 0 \<and> allocated_pages s' ! k = 0"
    "total_pages s' = 0" "free_pages s' = 0" "\<not> ownership_frozen s'"
    using pmm_reset_clears [OF assms] by blast
  have un: "page_state s' q = Page_Unknown" for q
    using s'(3) page_word_less [of q]
    by (simp add: page_state_def page_is_managed_bit page_is_allocated_bit)
  then have st: "page_state (pmm_reset s) = (page_state s')(0 := Page_Reserved)"
    using mark_page_reserved_state [OF s'(2), of 0] by (simp add: s'(1))
  then show "page_state (pmm_reset s) p = (if p = 0 then Page_Reserved else Page_Unknown)"
    by (simp add: un)
  show "\<not> ownership_frozen (pmm_reset s)"
    by (simp add: s' mark_page_reserved_fields)
  have "pages_in Page_Free (pmm_reset s) = {}" "pages_in Page_Allocated (pmm_reset s) = {}"
    by (auto simp: pages_in_def st un)
  with st show "pmm_wf (pmm_reset s)"
    by (simp add: pmm_wf_def s' mark_page_reserved_fields un)
qed

text \<open>
  A usable region gives the allocator exactly the unknown pages that lie wholly inside it
  (never page 0); a reserved region takes every free or unknown page it touches.
\<close>

definition region_ok :: "u64 \<Rightarrow> u64 \<Rightarrow> pmm \<Rightarrow> bool" where
  "region_ok base len s \<longleftrightarrow> \<not> ownership_frozen s \<and> unat base + unat len < 2 ^ 64"

definition page_inside :: "u64 \<Rightarrow> u64 \<Rightarrow> u32 \<Rightarrow> bool" where
  "page_inside base len p \<longleftrightarrow> p < PMM_PAGE_COUNT \<and>
     unat base \<le> unat p * 4096 \<and> unat p * 4096 + 4096 \<le> unat base + unat len"

definition page_touches :: "u64 \<Rightarrow> u64 \<Rightarrow> u32 \<Rightarrow> bool" where
  "page_touches base len p \<longleftrightarrow> p < PMM_PAGE_COUNT \<and> len \<noteq> 0 \<and>
     unat base < unat p * 4096 + 4096 \<and> unat p * 4096 < unat base + unat len"

lemma pmm_add_usable_region_spec:
  assumes wf: "pmm_wf s" and r: "pmm_add_usable_region base len s = (ok, s')"
  shows "ok = region_ok base len s" and "pmm_wf s'"
    and "ownership_frozen s' = ownership_frozen s"
    and "page_state s' p = (if ok \<and> p \<noteq> 0 \<and> page_inside base len p \<and> page_state s p = Page_Unknown
       then Page_Free else page_state s p)"
proof -
  consider "ownership_frozen s" | "\<not> ownership_frozen s" "clip_to_physical base len = None"
    | b e where "\<not> ownership_frozen s" "clip_to_physical base len = Some (b, e)"
    by (metis option.exhaust prod.exhaust)
  then have "ok = region_ok base len s \<and> pmm_wf s' \<and> ownership_frozen s' = ownership_frozen s \<and>
    page_state s' p = (if ok \<and> p \<noteq> 0 \<and> page_inside base len p \<and> page_state s p = Page_Unknown
       then Page_Free else page_state s p)"
  proof cases
    case 1
    with r wf show ?thesis by (auto simp: pmm_add_usable_region_def region_ok_def)
  next
    case 2
    with r wf clip_to_physical_None [of base len] show ?thesis
      by (auto simp: pmm_add_usable_region_def region_ok_def)
  next
    case (3 b e)
    obtain first stop where sp: "inward_page_span b e = (first, stop)" by fastforce
    note clip = clip_to_physical_Some [OF 3(2)]
    note span = inward_page_span_iff [OF clip(1,2) sp]
    have s': "ok" "s' = for_u32 first stop mark_page_usable s"
      using r 3 by (simp_all add: pmm_add_usable_region_def sp)
    have "region_ok base len s"
      using 3 clip_to_physical_None [of base len] by (simp add: region_ok_def not_le [symmetric])
    moreover have "first \<le> p \<and> p < stop \<longleftrightarrow> p \<noteq> 0 \<and> page_inside base len p"
      unfolding span(3) page_inside_def using clip(3) unat_less_width(3) [of p]
      by (auto simp: word_less_nat_alt)
    ultimately show ?thesis
      using mark_range_usable [OF wf span(1,2)] s' by auto
  qed
  then show "ok = region_ok base len s" and "pmm_wf s'"
    and "ownership_frozen s' = ownership_frozen s"
    and "page_state s' p = (if ok \<and> p \<noteq> 0 \<and> page_inside base len p \<and> page_state s p = Page_Unknown
       then Page_Free else page_state s p)"
    by simp_all
qed

lemma pmm_reserve_region_spec:
  assumes wf: "pmm_wf s" and r: "pmm_reserve_region base len s = (ok, s')"
  shows "ok = region_ok base len s" and "pmm_wf s'"
    and "ownership_frozen s' = ownership_frozen s"
    and "page_state s' p = (if ok \<and> page_touches base len p \<and> page_state s p \<in> {Page_Unknown, Page_Free}
       then Page_Reserved else page_state s p)"
proof -
  consider "ownership_frozen s" | "\<not> ownership_frozen s" "clip_to_physical base len = None"
    | b e where "\<not> ownership_frozen s" "clip_to_physical base len = Some (b, e)"
    by (metis option.exhaust prod.exhaust)
  then have "ok = region_ok base len s \<and> pmm_wf s' \<and> ownership_frozen s' = ownership_frozen s \<and>
    page_state s' p = (if ok \<and> page_touches base len p \<and> page_state s p \<in> {Page_Unknown, Page_Free}
       then Page_Reserved else page_state s p)"
  proof cases
    case 1
    with r wf show ?thesis by (auto simp: pmm_reserve_region_def region_ok_def)
  next
    case 2
    with r wf clip_to_physical_None [of base len] show ?thesis
      by (auto simp: pmm_reserve_region_def region_ok_def)
  next
    case (3 b e)
    obtain first stop where sp: "outward_page_span b e = (first, stop)" by fastforce
    note clip = clip_to_physical_Some [OF 3(2)]
    note span = outward_page_span_iff [OF clip(1,2) sp]
    have s': "ok" "s' = for_u32 first stop mark_page_reserved s"
      using r 3 by (simp_all add: pmm_reserve_region_def sp)
    have "region_ok base len s"
      using 3 clip_to_physical_None [of base len] by (simp add: region_ok_def not_le [symmetric])
    moreover have "first \<le> p \<and> p < stop \<longleftrightarrow> page_touches base len p"
      unfolding span(3) page_touches_def using clip(3) unat_less_width(3) [of p]
      by (cases "len = 0") (auto simp: word_less_nat_alt dest: unat_gt_0 [THEN iffD2])
    ultimately show ?thesis
      using mark_range_reserved [OF wf span(1,2)] s' by auto
  qed
  then show "ok = region_ok base len s" and "pmm_wf s'"
    and "ownership_frozen s' = ownership_frozen s"
    and "page_state s' p = (if ok \<and> page_touches base len p \<and> page_state s p \<in> {Page_Unknown, Page_Free}
       then Page_Reserved else page_state s p)"
    by simp_all
qed

subsection \<open>Allocation\<close>

lemma ctz_from_spec:
  assumes "i \<le> j" and "j < 32" and "bit w j"
  shows "i \<le> ctz_from i w \<and> ctz_from i w \<le> j \<and> bit w (ctz_from i w) \<and>
    (\<forall>k. i \<le> k \<and> k < ctz_from i w \<longrightarrow> \<not> bit w k)"
  using assms
proof (induction i w rule: ctz_from.induct)
  case (1 i w)
  show ?case
  proof (cases "bit w i")
    case True
    then have "ctz_from i w = i" by (subst ctz_from.simps) simp
    with 1(2) True show ?thesis by auto
  next
    case False
    with 1(2,4) have "Suc i \<le> j" by (cases "i = j") auto
    with 1(1,3,4) False have IH: "Suc i \<le> ctz_from (Suc i) w \<and> ctz_from (Suc i) w \<le> j \<and>
      bit w (ctz_from (Suc i) w) \<and> (\<forall>k. Suc i \<le> k \<and> k < ctz_from (Suc i) w \<longrightarrow> \<not> bit w k)"
      by simp
    have "ctz_from i w = ctz_from (Suc i) w"
      using False 1(3) \<open>Suc i \<le> j\<close> by (subst ctz_from.simps) simp
    moreover have "\<not> bit w k" if "i \<le> k" "k < ctz_from (Suc i) w" for k
      using that IH False by (cases "k = i") auto
    ultimately show ?thesis using IH by auto
  qed
qed

lemma free_mask_bit:
  assumes "w < PMM_BITMAP_WORDS" and "k < 32"
  shows "bit (managed_pages s ! w AND NOT (allocated_pages s ! w)) k \<longleftrightarrow>
    page_state s (word_of_nat (w * 32 + k)) = Page_Free"
proof -
  have "unat (word_of_nat (w * 32 + k) :: u32) = w * 32 + k"
    using assms by (intro unat_word_of_nat_small) simp
  then show ?thesis
    using assms by (simp add: page_state_def page_is_managed_bit page_is_allocated_bit
        word_less_nat_alt bit_simps)
qed

lemma alloc_scan_spec:
  assumes "bitmaps_sized s" and "\<forall>q. unat q < w * 32 \<longrightarrow> page_state s q \<noteq> Page_Free"
  shows "(\<forall>q. page_state s q \<noteq> Page_Free) \<and> alloc_scan w s = (0, s) \<or>
    (\<exists>p. page_state s p = Page_Free \<and> (\<forall>q<p. page_state s q \<noteq> Page_Free) \<and>
      alloc_scan w s = (push_bit 12 p, (set_allocated p True s)\<lparr>free_pages := free_pages s - 1\<rparr>))"
  using assms
proof (induction w s rule: alloc_scan.induct)
  case (1 w s)
  let ?m = "managed_pages s ! w AND NOT (allocated_pages s ! w)"
  consider "\<not> w < PMM_BITMAP_WORDS" | "w < PMM_BITMAP_WORDS" "?m = 0" | "w < PMM_BITMAP_WORDS" "?m \<noteq> 0"
    by blast
  then show ?case
  proof cases
    case 1
    have "page_state s q \<noteq> Page_Free" for q
    proof (cases "q < PMM_PAGE_COUNT")
      case True
      then show ?thesis using 1 \<open>\<forall>q. unat q < w * 32 \<longrightarrow> page_state s q \<noteq> Page_Free\<close>
        by (simp add: word_less_nat_alt)
    qed simp
    with 1 show ?thesis by (simp add: alloc_scan.simps [of w s])
  next
    case 2
    have "page_state s q \<noteq> Page_Free" if "unat q < Suc w * 32" for q
    proof (cases "unat q < w * 32")
      case False
      then have "word_of_nat (w * 32 + (unat q - w * 32)) = q" by simp
      moreover have "unat q - w * 32 < 32" using that False by simp
      ultimately show ?thesis using free_mask_bit [OF 2(1), of "unat q - w * 32" s] 2(2) by simp
    qed (use 1 in blast)
    with 1 2 show ?thesis by (simp add: alloc_scan.simps [of w s])
  next
    case 3
    obtain j where j: "bit ?m j" using 3(2) by (auto simp: bit_eq_iff)
    then have j32: "j < 32" using bit_imp_le_length [OF j] by simp
    let ?c = "ctz_from 0 ?m"
    note ctz = ctz_from_spec [OF le0 j32 j]
    then have c32: "?c < 32" using j32 by simp
    define p :: u32 where "p = word_of_nat (w * 32 + ?c)"
    have up: "unat p = w * 32 + ?c"
      unfolding p_def using 3 c32 by (intro unat_word_of_nat_small) simp
    have "page_state s p = Page_Free"
      using ctz free_mask_bit [OF 3(1) c32] p_def by simp
    moreover have "page_state s q \<noteq> Page_Free" if "q < p" for q
    proof (cases "unat q < w * 32")
      case False
      let ?k = "unat q - w * 32"
      have "?k < ?c" using that False up by (simp add: word_less_nat_alt)
      moreover have "word_of_nat (w * 32 + ?k) = q" using False by simp
      ultimately show ?thesis
        using ctz free_mask_bit [OF 3(1), of ?k s] c32 by simp
    qed (use 1 in blast)
    moreover have "word_of_nat w * 32 + builtin_ctz ?m = p"
      by (simp add: p_def builtin_ctz_def mult.commute)
    ultimately show ?thesis
      using 3 by (intro disjI2 exI [of _ p]) (simp add: alloc_scan.simps [of w s] Let_def)
  qed
qed

text \<open>The physical address of a page, as \<open>pmm_alloc_page\<close> computes it.\<close>

abbreviation page_address :: "u32 \<Rightarrow> u32" where
  "page_address p \<equiv> push_bit PMM_PAGE_SHIFT p"

lemma unat_page_address: "p < PMM_PAGE_COUNT \<Longrightarrow> unat (page_address p) = unat p * 4096"
  by (simp add: push_bit_eq_mult word_less_nat_alt unat_word_ariths)

lemma page_address_inverse: "p < PMM_PAGE_COUNT \<Longrightarrow> drop_bit PMM_PAGE_SHIFT (page_address p) = p"
  by (simp add: word_unat_eq_iff unat_drop_bit unat_page_address)

lemma page_address_aligned: "page_address p AND PMM_PAGE_MASK = 0"
  by (rule bit_word_eqI) (auto simp: bit_simps mask_numerals)

lemma page_state_bound: "page_state s p \<noteq> Page_Unknown \<Longrightarrow> p < PMM_PAGE_COUNT"
  by (cases "p < PMM_PAGE_COUNT") simp_all

lemma set_allocated_wf:
  assumes wf: "pmm_wf s" and p: "page_state s p = Page_Free"
  shows "pmm_wf ((set_allocated p True s)\<lparr>free_pages := free_pages s - 1\<rparr>)" (is "pmm_wf ?t")
proof -
  have pc: "p < PMM_PAGE_COUNT" using p page_state_bound [of s p] by simp
  have st: "page_state ?t = (page_state s)(p := Page_Allocated)"
    using pmm_wfD(1) [OF wf] pc p by (simp add: set_allocated_state page_state_cases)
  have mem: "p \<in> pages_in Page_Free s" "p \<notin> pages_in Page_Allocated s"
    using p by (auto simp: pages_in_def)
  then have "card (pages_in Page_Free s - {p}) = card (pages_in Page_Free s) - 1"
    by simp
  moreover have "p \<noteq> 0" using p pmm_wfD(2) [OF wf] by auto
  ultimately show ?thesis
    using st mem pmm_wfD [OF wf] pages_in_nonempty [OF p] pages_in_upd [OF st]
    by (simp add: pmm_wf_def unat_dec)
qed

lemma clear_allocated_wf:
  assumes wf: "pmm_wf s" and p: "page_state s p = Page_Allocated"
  shows "pmm_wf ((set_allocated p False s)\<lparr>free_pages := free_pages s + 1\<rparr>)" (is "pmm_wf ?t")
proof -
  have pc: "p < PMM_PAGE_COUNT" using p page_state_bound [of s p] by simp
  have st: "page_state ?t = (page_state s)(p := Page_Free)"
    using pmm_wfD(1) [OF wf] pc p by (simp add: set_allocated_state page_state_cases)
  have mem: "p \<notin> pages_in Page_Free s" "p \<in> pages_in Page_Allocated s"
    using p by (auto simp: pages_in_def)
  then have "card (pages_in Page_Allocated s - {p}) = card (pages_in Page_Allocated s) - 1"
    by simp
  moreover have "p \<noteq> 0" using p pmm_wfD(2) [OF wf] by auto
  ultimately show ?thesis
    using st mem pmm_wfD [OF wf] pages_in_nonempty [OF p] pages_in_upd [OF st]
    by (simp add: pmm_wf_def unat_inc)
qed

lemma pmm_wf_freeze: "pmm_wf (s\<lparr>ownership_frozen := b\<rparr>) = pmm_wf s"
  by (simp add: pmm_wf_def pages_in_def)

lemma pmm_alloc_page_cases:
  assumes wf: "pmm_wf s" and r: "pmm_alloc_page s = (a, s')"
  shows "pmm_wf s' \<and> ownership_frozen s' \<and>
    ((\<forall>q. page_state s q \<noteq> Page_Free) \<and> a = 0 \<and> page_state s' = page_state s \<or>
     (\<exists>p. page_state s p = Page_Free \<and> (\<forall>q<p. page_state s q \<noteq> Page_Free) \<and> a = page_address p \<and>
       page_state s' = (page_state s)(p := Page_Allocated)))"
proof (cases "free_pages s = 0")
  case True
  then have "card (pages_in Page_Free s) = 0" using pmm_wfD(3) [OF wf] by simp
  then have "\<forall>q. page_state s q \<noteq> Page_Free" by (auto simp: pages_in_def)
  with True r wf show ?thesis by (auto simp: pmm_alloc_page_def Let_def pmm_wf_freeze)
next
  case False
  let ?f = "s\<lparr>ownership_frozen := True\<rparr>"
  have wf': "pmm_wf ?f" using wf by (simp add: pmm_wf_freeze)
  have scan: "alloc_scan 0 ?f = (a, s')"
    using r False by (simp add: pmm_alloc_page_def Let_def)
  consider "\<forall>q. page_state s q \<noteq> Page_Free" "a = 0" "s' = ?f"
    | p where "page_state s p = Page_Free" "\<forall>q<p. page_state s q \<noteq> Page_Free" "a = page_address p"
      "s' = (set_allocated p True ?f)\<lparr>free_pages := free_pages ?f - 1\<rparr>"
    using alloc_scan_spec [of ?f 0] pmm_wfD(1) [OF wf'] scan by auto
  then show ?thesis
  proof cases
    case 1
    with wf' show ?thesis by simp
  next
    case (2 p)
    then have "page_state ?f p = Page_Free" by simp
    moreover from this have "p < PMM_PAGE_COUNT" using page_state_bound [of s p] by simp
    ultimately show ?thesis
      using 2 set_allocated_wf [OF wf'] pmm_wfD(1) [OF wf']
      by (auto simp: set_allocated_state page_state_cases)
  qed
qed

lemma address_of_page:
  assumes "a AND PMM_PAGE_MASK = 0"
  shows "drop_bit PMM_PAGE_SHIFT a < PMM_PAGE_COUNT" and "page_address (drop_bit PMM_PAGE_SHIFT a) = a"
proof -
  show 1: "drop_bit PMM_PAGE_SHIFT a < PMM_PAGE_COUNT"
    using unat_less_width(3) [of a] by (simp add: word_less_nat_alt unat_drop_bit)
  have "unat a mod 4096 = 0"
    using unat_and_mask [of a 12] assms by (simp add: mask_numerals)
  then have "unat a div 4096 * 4096 = unat a"
    using div_mult_mod_eq [of "unat a" 4096] by simp
  then show "page_address (drop_bit PMM_PAGE_SHIFT a) = a"
    by (simp only: word_unat_eq_iff unat_page_address [OF 1] unat_drop_bit) simp
qed

lemma pmm_free_page_cases:
  assumes wf: "pmm_wf s" and r: "pmm_free_page a s = (ok, s')"
  shows "ok = (\<exists>p. a = page_address p \<and> page_state s p = Page_Allocated) \<and> pmm_wf s' \<and>
    ownership_frozen s' = ownership_frozen s \<and>
    (if ok then page_state s' = (page_state s)(drop_bit PMM_PAGE_SHIFT a := Page_Free) else s' = s)"
proof (cases "\<exists>p. a = page_address p \<and> page_state s p = Page_Allocated")
  case True
  then obtain p where p: "a = page_address p" "page_state s p = Page_Allocated" by blast
  have pc: "p < PMM_PAGE_COUNT" using p(2) page_state_bound [of s p] by simp
  have "p \<noteq> 0" using p(2) pmm_wfD(2) [OF wf] by auto
  then have "a \<noteq> 0" using unat_page_address [OF pc] p(1) by (metis mult_eq_0_iff unat_eq_zero unat_0 zero_neq_numeral)
  moreover have "a \<le> push_bit PMM_PAGE_SHIFT (PMM_PAGE_COUNT - 1)"
    using unat_page_address [OF pc] pc p(1) by (simp add: word_le_nat_alt word_less_nat_alt)
  ultimately have r': "ok" "s' = (set_allocated p False s)\<lparr>free_pages := free_pages s + 1\<rparr>"
    using r page_address_aligned [of p] p(2) pc
    by (auto simp: pmm_free_page_def Let_def p(1) page_address_inverse page_state_cases not_less [symmetric]
        simp del: push_bit_numeral)
  with True p pc clear_allocated_wf [OF wf p(2)] pmm_wfD(1) [OF wf] show ?thesis
    by (auto simp: set_allocated_state page_state_cases page_address_inverse)
next
  case False
  then have "\<not> (page_is_managed s (drop_bit PMM_PAGE_SHIFT a) \<and> page_is_allocated s (drop_bit PMM_PAGE_SHIFT a))"
    if "a AND PMM_PAGE_MASK = 0"
    using address_of_page [OF that] by (auto simp: page_state_cases)
  with r have "(ok, s') = (False, s)" by (auto simp: pmm_free_page_def Let_def split: if_splits)
  with False wf show ?thesis by auto
qed

subsection \<open>The page allocator interface\<close>

definition pmm_avail :: "pmm \<Rightarrow> u32 set" where
  "pmm_avail s = {a. a AND PMM_PAGE_MASK = 0 \<and> page_state s (drop_bit PMM_PAGE_SHIFT a) = Page_Free}"

definition pmm_owned :: "pmm \<Rightarrow> u32 set" where
  "pmm_owned s = {a. a AND PMM_PAGE_MASK = 0 \<and> page_state s (drop_bit PMM_PAGE_SHIFT a) = Page_Allocated}"

lemma page_of_address_iff:
  assumes "a AND PMM_PAGE_MASK = 0" and "p < PMM_PAGE_COUNT"
  shows "drop_bit PMM_PAGE_SHIFT a = p \<longleftrightarrow> a = page_address p"
  using address_of_page(2) [OF assms(1)] page_address_inverse [OF assms(2)] by metis

lemma pmm_sets_move:
  assumes "page_state s' = (page_state s)(p := st)" and "p < PMM_PAGE_COUNT"
  shows "pmm_avail s' = (if st = Page_Free then insert (page_address p) (pmm_avail s)
           else pmm_avail s - {page_address p})"
    and "pmm_owned s' = (if st = Page_Allocated then insert (page_address p) (pmm_owned s)
           else pmm_owned s - {page_address p})"
  using page_of_address_iff [OF _ assms(2)] page_address_aligned [of p]
  by (auto simp: pmm_avail_def pmm_owned_def assms(1))

lemma in_pmm_sets:
  assumes "p < PMM_PAGE_COUNT"
  shows "page_address p \<in> pmm_avail s \<longleftrightarrow> page_state s p = Page_Free"
    and "page_address p \<in> pmm_owned s \<longleftrightarrow> page_state s p = Page_Allocated"
  using page_address_aligned [of p] page_address_inverse [OF assms]
  by (simp_all add: pmm_avail_def pmm_owned_def)

lemma pmm_sets_cong:
  "page_state s' = page_state s \<Longrightarrow> pmm_avail s' = pmm_avail s \<and> pmm_owned s' = pmm_owned s"
  by (simp add: pmm_avail_def pmm_owned_def)

lemma page_address_nonzero: "p < PMM_PAGE_COUNT \<Longrightarrow> page_address p = 0 \<longleftrightarrow> p = 0"
  using page_of_address_iff [of 0 p] by auto

interpretation pmm_pages: page_allocator pmm_wf pmm_avail pmm_owned pmm_alloc_page pmm_free_page
proof
  fix s a s' ok
  assume wf: "pmm_wf s"
  show "0 \<notin> pmm_avail s \<union> pmm_owned s"
    using pmm_wfD(2) [OF wf] by (simp add: pmm_avail_def pmm_owned_def)
  show "pmm_avail s \<inter> pmm_owned s = {}"
    by (auto simp: pmm_avail_def pmm_owned_def)
  show "pmm_wf s'" if "pmm_alloc_page s = (a, s')"
    using pmm_alloc_page_cases [OF wf that] by simp
  show "pmm_wf s'" if "pmm_free_page a s = (ok, s')"
    using pmm_free_page_cases [OF wf that] by simp
  have free_page: "p < PMM_PAGE_COUNT \<and> page_address p \<noteq> 0" if "page_state s p = Page_Free" for p
    using that pmm_wfD(2) [OF wf] page_state_bound [of s p] page_address_nonzero [of p] by auto
  show "pmm_avail s = {} \<and> pmm_avail s' = {} \<and> pmm_owned s' = pmm_owned s"
    if r: "pmm_alloc_page s = (0, s')"
  proof -
    have "(\<forall>q. page_state s q \<noteq> Page_Free) \<and> page_state s' = page_state s"
      using pmm_alloc_page_cases [OF wf r] free_page by metis
    with pmm_sets_cong [of s' s] show ?thesis by (simp add: pmm_avail_def)
  qed
  show "a \<in> pmm_avail s \<and> pmm_avail s' = pmm_avail s - {a} \<and> pmm_owned s' = insert a (pmm_owned s)"
    if r: "pmm_alloc_page s = (a, s')" and "a \<noteq> 0"
  proof -
    obtain p where "page_state s p = Page_Free" "a = page_address p"
      "page_state s' = (page_state s)(p := Page_Allocated)"
      using pmm_alloc_page_cases [OF wf r] \<open>a \<noteq> 0\<close> by blast
    with free_page [of p] pmm_sets_move [of s' s p] in_pmm_sets(1) [of p s] show ?thesis by simp
  qed
  show "a \<in> pmm_owned s \<and> pmm_avail s' = insert a (pmm_avail s) \<and> pmm_owned s' = pmm_owned s - {a}"
    if r: "pmm_free_page a s = (True, s')"
  proof -
    obtain p where p: "a = page_address p" "page_state s p = Page_Allocated"
      using pmm_free_page_cases [OF wf r] by auto
    moreover from p(2) have "p < PMM_PAGE_COUNT" using page_state_bound [of s p] by simp
    ultimately show ?thesis
      using pmm_free_page_cases [OF wf r] pmm_sets_move [of s' s p] in_pmm_sets(2) [of p s]
      by (simp add: page_address_inverse)
  qed
  show "a \<notin> pmm_owned s \<and> s' = s" if r: "pmm_free_page a s = (False, s')"
  proof -
    have "\<not> (\<exists>p. a = page_address p \<and> page_state s p = Page_Allocated) \<and> s' = s"
      using pmm_free_page_cases [OF wf r] by simp
    then show ?thesis using address_of_page(2) [of a] by (auto simp: pmm_owned_def)
  qed
qed

subsection \<open>Runs of the allocator\<close>

text \<open>One call of the interface, in any order the callers choose.\<close>

inductive pmm_step :: "pmm \<Rightarrow> pmm \<Rightarrow> bool" where
  step_add: "pmm_add_usable_region base len s = (ok, s') \<Longrightarrow> pmm_step s s'"
| step_reserve: "pmm_reserve_region base len s = (ok, s') \<Longrightarrow> pmm_step s s'"
| step_alloc: "pmm_alloc_page s = (a, s') \<Longrightarrow> pmm_step s s'"
| step_free: "pmm_free_page a s = (ok, s') \<Longrightarrow> pmm_step s s'"

inductive pmm_run :: "pmm \<Rightarrow> pmm \<Rightarrow> bool" where
  run_refl: "pmm_run s s"
| run_step: "pmm_run s t \<Longrightarrow> pmm_step t u \<Longrightarrow> pmm_run s u"

lemma pmm_step_wf:
  assumes "pmm_step s s'" and wf: "pmm_wf s"
  shows "pmm_wf s'"
  using assms(1)
proof cases
  case step_add
  then show ?thesis by (rule pmm_add_usable_region_spec(2) [OF wf])
next
  case step_reserve
  then show ?thesis by (rule pmm_reserve_region_spec(2) [OF wf])
next
  case step_alloc
  then show ?thesis by (rule pmm_pages.alloc_wf [OF wf])
next
  case step_free
  then show ?thesis by (rule pmm_pages.release_wf [OF wf])
qed

lemma pmm_step_reserved:
  assumes "pmm_step s s'" and wf: "pmm_wf s" and r: "page_state s p = Page_Reserved"
  shows "page_state s' p = Page_Reserved"
  using assms(1)
proof cases
  case (step_add base len ok)
  then show ?thesis using pmm_add_usable_region_spec(4) [OF wf] r by simp
next
  case (step_reserve base len ok)
  then show ?thesis using pmm_reserve_region_spec(4) [OF wf] r by simp
next
  case (step_alloc a)
  from pmm_alloc_page_cases [OF wf step_alloc] consider "page_state s' = page_state s"
    | q where "page_state s q = Page_Free" "page_state s' = (page_state s)(q := Page_Allocated)"
    by blast
  then show ?thesis by cases (use r in auto)
next
  case (step_free a ok)
  note c = pmm_free_page_cases [OF wf step_free]
  show ?thesis
  proof (cases ok)
    case True
    then obtain q where "a = page_address q" "page_state s q = Page_Allocated" using c by auto
    then have "drop_bit PMM_PAGE_SHIFT a \<noteq> p"
      using r page_state_bound [of s q] page_address_inverse [of q] by auto
    with True c r show ?thesis by simp
  qed (use c r in simp)
qed

lemma pmm_run_wf_reserved:
  "pmm_run s s' \<Longrightarrow> pmm_wf s \<Longrightarrow> pmm_wf s' \<and> (page_state s p = Page_Reserved \<longrightarrow> page_state s' p = Page_Reserved)"
  by (induction rule: pmm_run.induct) (auto dest: pmm_step_wf pmm_step_reserved)

section \<open>Properties\<close>

text \<open>The module's static storage before any call: every bitmap word and counter is zero.\<close>

definition pmm_static :: pmm where
  "pmm_static = \<lparr>managed_pages = replicate PMM_BITMAP_WORDS 0, allocated_pages = replicate PMM_BITMAP_WORDS 0,
     total_pages = 0, free_pages = 0, ownership_frozen = False\<rparr>"

lemma pmm_static_reset:
  "pmm_wf (pmm_reset pmm_static)" "\<not> ownership_frozen (pmm_reset pmm_static)"
  "page_state (pmm_reset pmm_static) p = (if p = 0 then Page_Reserved else Page_Unknown)"
  by (rule pmm_reset_spec, simp add: pmm_static_def)+

text \<open>An allocator that owns the three pages 0x101 to 0x103, used by the examples below.\<close>

definition pmm_example :: pmm where
  "pmm_example = snd (pmm_add_usable_region 0x100800 0x4000 (pmm_reset pmm_static))"

lemma pmm_example_wf: "pmm_wf pmm_example"
  using pmm_add_usable_region_spec(2) [OF pmm_static_reset(1), of "0x100800" "0x4000"]
  unfolding pmm_example_def by (metis prod.collapse)

lemma pmm_example_state:
  "page_state pmm_example p =
     (if p = 0 then Page_Reserved else if 0x101 \<le> p \<and> p \<le> 0x103 then Page_Free else Page_Unknown)"
proof -
  have "page_state pmm_example p =
      (if p \<noteq> 0 \<and> page_inside 0x100800 0x4000 p then Page_Free else page_state (pmm_reset pmm_static) p)"
    using pmm_add_usable_region_spec(1) [OF pmm_static_reset(1) prod.collapse [symmetric], where base = "0x100800" and len = "0x4000"]
      pmm_add_usable_region_spec(4) [OF pmm_static_reset(1) prod.collapse [symmetric], where base = "0x100800" and len = "0x4000" and p = p]
    by (simp add: pmm_example_def pmm_static_reset region_ok_def)
  moreover have "page_inside 0x100800 0x4000 p \<longleftrightarrow> 0x101 \<le> p \<and> p \<le> 0x103"
    by (auto simp: page_inside_def word_le_nat_alt word_less_nat_alt)
  ultimately show ?thesis by (simp add: pmm_static_reset)
qed

text \<open>
  (C14) A usable region is accepted exactly when ownership is not frozen and its end does not
  overflow 64 bits; then precisely the unknown pages lying wholly inside it become free, page 0
  excepted, and no other page changes.
\<close>

theorem pmm_add_usable_region_gives:
  assumes "pmm_wf s"
  shows "fst (pmm_add_usable_region base len s) = region_ok base len s \<and>
    page_state (snd (pmm_add_usable_region base len s)) p =
      (if region_ok base len s \<and> p \<noteq> 0 \<and> page_inside base len p \<and> page_state s p = Page_Unknown
       then Page_Free else page_state s p)"
  using pmm_add_usable_region_spec [OF assms, of base len] by (cases "pmm_add_usable_region base len s") simp

theorem pmm_add_usable_region_gives_witness:
  "page_state (snd (pmm_add_usable_region 0x100800 0x4000 (pmm_reset pmm_static))) 0x100 = Page_Unknown \<and>
   page_state (snd (pmm_add_usable_region 0x100800 0x4000 (pmm_reset pmm_static))) 0x101 = Page_Free"
  using pmm_add_usable_region_gives [OF pmm_static_reset(1), of "0x100800" "0x4000" "0x100"]
    pmm_add_usable_region_gives [OF pmm_static_reset(1), of "0x100800" "0x4000" "0x101"]
  by (simp add: pmm_static_reset region_ok_def page_inside_def)

text \<open>
  (C15) A reserved region is accepted under the same condition; then every page it touches
  that is unknown or free becomes reserved, and no other page changes.
\<close>

theorem pmm_reserve_region_takes:
  assumes "pmm_wf s"
  shows "fst (pmm_reserve_region base len s) = region_ok base len s \<and>
    page_state (snd (pmm_reserve_region base len s)) p =
      (if region_ok base len s \<and> page_touches base len p \<and> page_state s p \<in> {Page_Unknown, Page_Free}
       then Page_Reserved else page_state s p)"
  using pmm_reserve_region_spec [OF assms, of base len] by (cases "pmm_reserve_region base len s") simp

theorem pmm_reserve_region_takes_witness:
  "page_state (snd (pmm_reserve_region 0x100800 0x800 (pmm_reset pmm_static))) 0x100 = Page_Reserved \<and>
   page_state (snd (pmm_reserve_region 0x100800 0x800 (pmm_reset pmm_static))) 0x101 = Page_Unknown"
  using pmm_reserve_region_takes [OF pmm_static_reset(1), of "0x100800" "0x800" "0x100"]
    pmm_reserve_region_takes [OF pmm_static_reset(1), of "0x100800" "0x800" "0x101"]
  by (simp add: pmm_static_reset region_ok_def page_touches_def)

text \<open>
  (C16) \<open>pmm_alloc_page\<close> freezes ownership and returns 0 exactly when no page is free; otherwise
  it returns the non-null, page-aligned address of the lowest free page, which becomes
  allocated, and changes no other page.
\<close>

theorem pmm_alloc_page_lowest:
  assumes "pmm_wf s" and "pmm_alloc_page s = (a, s')"
  shows "ownership_frozen s' \<and> a AND PMM_PAGE_MASK = 0 \<and>
    (if \<exists>p. page_state s p = Page_Free
     then a \<noteq> 0 \<and> a = page_address (LEAST p. page_state s p = Page_Free) \<and>
       page_state s' = (page_state s)(drop_bit PMM_PAGE_SHIFT a := Page_Allocated)
     else a = 0 \<and> page_state s' = page_state s)"
proof -
  from pmm_alloc_page_cases [OF assms] consider
      "ownership_frozen s'" "\<forall>q. page_state s q \<noteq> Page_Free" "a = 0" "page_state s' = page_state s"
    | p where "ownership_frozen s'" "page_state s p = Page_Free" "\<forall>q<p. page_state s q \<noteq> Page_Free"
      "a = page_address p" "page_state s' = (page_state s)(p := Page_Allocated)"
    by blast
  then show ?thesis
  proof cases
    case 1
    then show ?thesis by simp
  next
    case (2 p)
    have "(LEAST p. page_state s p = Page_Free) = p"
      using 2(2,3) by (intro Least_equality) (auto simp: not_less [symmetric])
    moreover have p: "p < PMM_PAGE_COUNT" "p \<noteq> 0"
      using 2(2) page_state_bound [of s p] pmm_wfD(2) [OF assms(1)] by auto
    ultimately show ?thesis
      using 2 page_address_aligned [of p] page_address_nonzero [OF p(1)]
      by (auto simp: page_address_inverse simp del: push_bit_numeral)
  qed
qed

theorem pmm_alloc_page_lowest_witness:
  "fst (pmm_alloc_page pmm_example) = 0x101000 \<and> ownership_frozen (snd (pmm_alloc_page pmm_example))"
proof -
  have least: "(LEAST p. page_state pmm_example p = Page_Free) = 0x101"
    by (intro Least_equality) (auto simp: pmm_example_state split: if_splits)
  have "\<exists>p. page_state pmm_example p = Page_Free"
    by (rule exI [of _ "0x101"]) (simp add: pmm_example_state)
  with pmm_alloc_page_lowest [OF pmm_example_wf prod.collapse [symmetric]] least
  show ?thesis by simp
qed

text \<open>
  (C17) \<open>pmm_free_page\<close> succeeds exactly on the address of an allocated page, which becomes free;
  any other address (null, unaligned, reserved, unknown or already free) is refused and the
  state is untouched.
\<close>

theorem pmm_free_page_exact:
  assumes "pmm_wf s" and "pmm_free_page a s = (ok, s')"
  shows "ok = (\<exists>p. a = page_address p \<and> page_state s p = Page_Allocated) \<and>
    (if ok then page_state s' = (page_state s)(drop_bit PMM_PAGE_SHIFT a := Page_Free) else s' = s)"
  using pmm_free_page_cases [OF assms] by simp

theorem pmm_free_page_exact_witness:
  "pmm_free_page 0x101000 pmm_example = (False, pmm_example) \<and>
   fst (pmm_free_page (fst (pmm_alloc_page pmm_example)) (snd (pmm_alloc_page pmm_example)))"
proof -
  let ?r = "pmm_free_page 0x101000 pmm_example"
  have "\<nexists>p. 0x101000 = page_address p \<and> page_state pmm_example p = Page_Allocated"
    by (auto simp: pmm_example_state split: if_splits)
  then have 1: "?r = (False, pmm_example)"
    using pmm_free_page_exact [OF pmm_example_wf, of "0x101000" "fst ?r" "snd ?r"]
    by (auto simp: prod_eq_iff split: if_splits)
  obtain a s where as: "pmm_alloc_page pmm_example = (a, s)" by fastforce
  have "page_state pmm_example 0x101 = Page_Free" by (simp add: pmm_example_state)
  then obtain p where p: "a = page_address p" "page_state s p = Page_Allocated" "pmm_wf s"
    using pmm_alloc_page_cases [OF pmm_example_wf as] by auto
  have "fst (pmm_free_page a s)"
    using pmm_free_page_exact [OF p(3) prod.collapse [symmetric], where a = a] p(1,2) by auto
  with 1 as show ?thesis by simp
qed

text \<open>
  (C13) In every state reachable from a reset by any sequence of calls the two counters the
  module reports are the numbers of free and of managed pages of the bitmaps, and page 0 is
  reserved.
\<close>

theorem pmm_counters_exact:
  assumes "bitmaps_sized s0" and "pmm_run (pmm_reset s0) s"
  shows "unat (pmm_free_page_count s) = card (pages_in Page_Free s) \<and>
    unat (pmm_total_page_count s) = card (pages_in Page_Free s) + card (pages_in Page_Allocated s) \<and>
    page_state s 0 = Page_Reserved"
proof -
  have "pmm_wf s"
    using pmm_run_wf_reserved [OF assms(2) pmm_reset_spec(1) [OF assms(1)]] by simp
  then show ?thesis
    by (simp add: pmm_free_page_count_def pmm_total_page_count_def pmm_wfD)
qed

theorem pmm_counters_exact_witness:
  "unat (pmm_free_page_count pmm_example) = 3"
proof -
  have "bitmaps_sized pmm_static" by (simp add: pmm_static_def)
  moreover have "pmm_run (pmm_reset pmm_static) pmm_example"
    unfolding pmm_example_def by (rule run_step [OF run_refl step_add [OF prod.collapse [symmetric]]])
  ultimately have "unat (pmm_free_page_count pmm_example) = card (pages_in Page_Free pmm_example)"
    using pmm_counters_exact by blast
  moreover have "pages_in Page_Free pmm_example = {0x101, 0x102, 0x103}"
  proof -
    have "0x101 \<le> p \<and> p \<le> 0x103 \<longleftrightarrow> p = 0x101 \<or> p = 0x102 \<or> p = (0x103 :: u32)" for p
      by (auto simp: word_le_nat_alt word_unat_eq_iff)
    then show ?thesis by (auto simp: pages_in_def pmm_example_state)
  qed
  ultimately show ?thesis by simp
qed

text \<open>
  (C12) Reserved wins: once a page is reserved, no later sequence of calls changes that, no
  allocation returns it and no free of it succeeds.
\<close>

theorem pmm_reserved_forever:
  assumes "pmm_wf s" and "pmm_run s s'" and "page_state s p = Page_Reserved"
  shows "page_state s' p = Page_Reserved \<and> fst (pmm_free_page (page_address p) s') = False \<and>
    (fst (pmm_alloc_page s') = page_address p \<longrightarrow> p = 0)"
proof -
  have r: "page_state s' p = Page_Reserved" and wf: "pmm_wf s'"
    using pmm_run_wf_reserved [OF assms(2,1)] assms(3) by auto
  have p: "p < PMM_PAGE_COUNT" using r page_state_bound [of s' p] by simp
  have "fst (pmm_free_page (page_address p) s') = False"
    using pmm_pages.release_ok [OF wf, of "page_address p"] in_pmm_sets(2) [OF p] r
    by (cases "pmm_free_page (page_address p) s'") auto
  moreover have "p = 0" if "fst (pmm_alloc_page s') = page_address p"
    using pmm_pages.alloc_gives [OF wf, of "page_address p" "snd (pmm_alloc_page s')"] that
      in_pmm_sets(1) [OF p, of s'] page_address_nonzero [OF p] r by (auto simp: prod_eq_iff)
  ultimately show ?thesis using r by blast
qed

theorem pmm_reserved_forever_witness:
  "fst (pmm_alloc_page (snd (pmm_reserve_region 0x101000 0x10 pmm_example))) \<noteq> 0x101000"
proof -
  let ?s = "snd (pmm_reserve_region 0x101000 0x10 pmm_example)"
  have wf: "pmm_wf ?s"
    by (rule pmm_reserve_region_spec(2) [OF pmm_example_wf prod.collapse [symmetric]])
  have "\<not> ownership_frozen pmm_example"
    unfolding pmm_example_def
    using pmm_add_usable_region_spec(3) [OF pmm_static_reset(1) prod.collapse [symmetric]]
    by (simp add: pmm_static_reset)
  then have "page_state ?s 0x101 = Page_Reserved"
    using pmm_reserve_region_spec(1) [OF pmm_example_wf prod.collapse [symmetric], where base = "0x101000" and len = "0x10"]
      pmm_reserve_region_spec(4) [OF pmm_example_wf prod.collapse [symmetric], where base = "0x101000" and len = "0x10" and p = "0x101"]
    by (simp add: pmm_example_state region_ok_def page_touches_def)
  from pmm_reserved_forever [OF wf run_refl this] show ?thesis by simp
qed

text \<open>
  (C1) Any client run of allocations and frees that starts with nothing allocated holds, at
  every point, distinct addresses of the pages that were free at its start: no page is handed
  out twice and none appears from outside the pool.
\<close>

theorem pmm_client_ledger_distinct:
  assumes "pmm_wf s" and "pages_in Page_Allocated s = {}"
    and "client_run pmm_alloc_page pmm_free_page ops s [] = (ledger, s')"
  shows "distinct ledger \<and> set ledger \<subseteq> pmm_avail s"
proof (rule pmm_pages.client_run_pool [OF assms(1) _ assms(3)])
  show "pmm_owned s = {}" using assms(2) by (auto simp: pmm_owned_def pages_in_def)
qed

theorem pmm_client_ledger_distinct_witness:
  "distinct (fst (client_run pmm_alloc_page pmm_free_page [None, Some 0x101000, None, None] pmm_example []))"
proof -
  have "pages_in Page_Allocated pmm_example = {}"
    by (auto simp: pages_in_def pmm_example_state split: if_splits)
  from pmm_client_ledger_distinct [OF pmm_example_wf this prod.collapse [symmetric]]
  show ?thesis by blast
qed

end
