(* ===== verification/Vmm.thy ===== *)
theory Vmm
  imports Kernel_Prelude
begin

text \<open>
  The virtual memory manager, \<open>kernel/mm/vmm.c\<close>, with the processor state it drives through
  \<open>kernel/arch/x86/paging.c\<close>: the registers \<open>CR3\<close> and \<open>CR0\<close> and a translation cache. The addresses
  the linker gives to the page directory and to the pool of page tables are the arguments
  \<open>dir\<close> and \<open>tabs\<close>.
\<close>

section \<open>State\<close>

abbreviation VMM_PAGE_SIZE :: nat where "VMM_PAGE_SIZE \<equiv> 4096"
abbreviation PAGE_DIRECTORY_ENTRIES :: nat where "PAGE_DIRECTORY_ENTRIES \<equiv> 1024"
abbreviation PAGE_TABLE_ENTRIES :: nat where "PAGE_TABLE_ENTRIES \<equiv> 1024"
abbreviation PAGE_TABLE_COUNT :: nat where "PAGE_TABLE_COUNT \<equiv> 64"
abbreviation IDENTITY_TABLE_COUNT :: nat where "IDENTITY_TABLE_COUNT \<equiv> 32"
abbreviation PAGE_PRESENT :: u32 where "PAGE_PRESENT \<equiv> 1"
abbreviation PAGE_WRITABLE :: u32 where "PAGE_WRITABLE \<equiv> 2"
abbreviation PAGE_USER :: u32 where "PAGE_USER \<equiv> 4"
abbreviation PAGE_ADDRESS_MASK :: u32 where "PAGE_ADDRESS_MASK \<equiv> 0xFFFFF000"
abbreviation PAGE_OFFSET_MASK :: u32 where "PAGE_OFFSET_MASK \<equiv> 0xFFF"
abbreviation VMM_WRITABLE :: u32 where "VMM_WRITABLE \<equiv> 1"
abbreviation VMM_USER :: u32 where "VMM_USER \<equiv> 2"
abbreviation VMM_ALLOWED_FLAGS :: u32 where "VMM_ALLOWED_FLAGS \<equiv> 3"
abbreviation TABLE_INDEX_NONE :: u16 where "TABLE_INDEX_NONE \<equiv> 0xFFFF"
abbreviation VMM_DYNAMIC_START :: u32 where "VMM_DYNAMIC_START \<equiv> 0x40000000"
abbreviation VMM_DYNAMIC_END :: u32 where "VMM_DYNAMIC_END \<equiv> 0xF0000000"

text \<open>A cached translation of a page: its frame and whether it is writable and user-accessible.\<close>

type_synonym translation = "u32 \<times> bool \<times> bool"

record vmm =
  page_directory :: "u32 list"
  page_tables :: "u32 list list"
  directory_table_indices :: "u16 list"
  table_in_use :: "bool list"
  enabled :: bool
  cr3 :: u32
  cr0 :: u32
  tlb :: "nat \<Rightarrow> translation option"

section \<open>The processor\<close>

text \<open>Loading \<open>CR3\<close> empties the translation cache, \<open>invlpg\<close> drops one page from it.\<close>

definition paging_load_directory :: "u32 \<Rightarrow> vmm \<Rightarrow> vmm" where
  "paging_load_directory directory_address v = v\<lparr>cr3 := directory_address, tlb := Map.empty\<rparr>"

abbreviation CR0_WRITE_PROTECT :: u32 where "CR0_WRITE_PROTECT \<equiv> 0x10000"
abbreviation CR0_PAGING :: u32 where "CR0_PAGING \<equiv> 0x80000000"

definition paging_enable :: "vmm \<Rightarrow> vmm" where
  "paging_enable v = v\<lparr>cr0 := cr0 v OR (CR0_WRITE_PROTECT OR CR0_PAGING)\<rparr>"

definition paging_invalidate :: "u32 \<Rightarrow> vmm \<Rightarrow> vmm" where
  "paging_invalidate virtual_address v = v\<lparr>tlb := (tlb v)(unat virtual_address div VMM_PAGE_SIZE := None)\<rparr>"

section \<open>Operations\<close>

definition table_address :: "u32 \<Rightarrow> nat \<Rightarrow> u32" where
  "table_address tabs table_index = tabs + of_nat (table_index * VMM_PAGE_SIZE)"

definition clear_table :: "nat \<Rightarrow> vmm \<Rightarrow> vmm" where
  "clear_table table_index v = v\<lparr>page_tables := (page_tables v)[table_index :=
     fold (\<lambda>entry row. row[entry := 0]) [0..<PAGE_TABLE_ENTRIES] (page_tables v ! table_index)]\<rparr>"

definition dynamic_address_is_valid :: "u32 \<Rightarrow> bool" where
  "dynamic_address_is_valid virtual_address \<longleftrightarrow> virtual_address \<ge> VMM_DYNAMIC_START \<and>
     virtual_address < VMM_DYNAMIC_END \<and> virtual_address AND PAGE_OFFSET_MASK = 0"

definition make_page_flags :: "u32 \<Rightarrow> u32" where
  "make_page_flags flags =
     (let hardware_flags = PAGE_PRESENT;
          hardware_flags = (if flags AND VMM_WRITABLE \<noteq> 0 then hardware_flags OR PAGE_WRITABLE else hardware_flags);
          hardware_flags = (if flags AND VMM_USER \<noteq> 0 then hardware_flags OR PAGE_USER else hardware_flags)
      in hardware_flags)"

definition allocate_dynamic_table :: "vmm \<Rightarrow> u16 \<times> vmm" where
  "allocate_dynamic_table v =
     (case find (\<lambda>index. \<not> table_in_use v ! index) [IDENTITY_TABLE_COUNT..<PAGE_TABLE_COUNT] of
        Some index \<Rightarrow> (of_nat index, clear_table index (v\<lparr>table_in_use := (table_in_use v)[index := True]\<rparr>))
      | None \<Rightarrow> (TABLE_INDEX_NONE, v))"

definition table_is_empty :: "nat \<Rightarrow> vmm \<Rightarrow> bool" where
  "table_is_empty table_index v \<longleftrightarrow>
     list_all (\<lambda>entry. page_tables v ! table_index ! entry AND PAGE_PRESENT = 0) [0..<PAGE_TABLE_ENTRIES]"

text \<open>The loops of \<open>vmm_init\<close>, each on the array it fills.\<close>

definition identity_entry :: "nat \<Rightarrow> nat \<Rightarrow> u32" where
  "identity_entry table_index entry_index =
     (of_nat table_index * of_nat PAGE_TABLE_ENTRIES + of_nat entry_index) * of_nat VMM_PAGE_SIZE"

definition identity_row :: "nat \<Rightarrow> u32 list \<Rightarrow> u32 list" where
  "identity_row table_index = fold (\<lambda>entry_index row.
     let physical_address = identity_entry table_index entry_index in
     if physical_address \<noteq> 0 then row[entry_index := physical_address OR PAGE_PRESENT OR PAGE_WRITABLE] else row)
     [0..<PAGE_TABLE_ENTRIES]"

definition vmm_init :: "u32 \<Rightarrow> u32 \<Rightarrow> vmm \<Rightarrow> bool \<times> vmm" where
  "vmm_init dir tabs v =
     (if enabled v then (True, v)
      else
        let v = v\<lparr>page_directory := fold (\<lambda>i a. a[i := 0]) [0..<PAGE_DIRECTORY_ENTRIES] (page_directory v),
                  directory_table_indices := fold (\<lambda>i a. a[i := TABLE_INDEX_NONE]) [0..<PAGE_DIRECTORY_ENTRIES]
                    (directory_table_indices v)\<rparr>;
            v = v\<lparr>table_in_use := fold (\<lambda>i a. a[i := i < IDENTITY_TABLE_COUNT]) [0..<PAGE_TABLE_COUNT] (table_in_use v)\<rparr>;
            v = fold clear_table [0..<PAGE_TABLE_COUNT] v;
            v = v\<lparr>directory_table_indices := fold (\<lambda>t a. a[t := of_nat t]) [0..<IDENTITY_TABLE_COUNT] (directory_table_indices v),
                  page_directory := fold (\<lambda>t a. a[t := (table_address tabs t AND PAGE_ADDRESS_MASK) OR PAGE_PRESENT OR PAGE_WRITABLE])
                    [0..<IDENTITY_TABLE_COUNT] (page_directory v),
                  page_tables := fold (\<lambda>t a. a[t := identity_row t (a ! t)]) [0..<IDENTITY_TABLE_COUNT] (page_tables v)\<rparr>;
            v = paging_load_directory dir v;
            v = paging_enable v
        in (True, v\<lparr>enabled := True\<rparr>))"

definition vmm_map_page :: "u32 \<Rightarrow> u32 \<Rightarrow> u32 \<Rightarrow> u32 \<Rightarrow> vmm \<Rightarrow> bool \<times> vmm" where
  "vmm_map_page tabs virtual_address physical_address flags v =
     (let directory_index = unat (drop_bit 22 virtual_address);
          entry_index = unat (drop_bit 12 virtual_address AND 0x3FF) in
      if \<not> enabled v \<or> \<not> dynamic_address_is_valid virtual_address \<or>
         physical_address AND PAGE_OFFSET_MASK \<noteq> 0 \<or> flags AND NOT VMM_ALLOWED_FLAGS \<noteq> 0
      then (False, v)
      else
        let found = directory_table_indices v ! directory_index;
            (table_index, v1) =
              (if found = TABLE_INDEX_NONE then
                 (let (fresh, v) = allocate_dynamic_table v in
                  if fresh = TABLE_INDEX_NONE then (fresh, v)
                  else (fresh, v\<lparr>directory_table_indices := (directory_table_indices v)[directory_index := fresh],
                     page_directory := (page_directory v)[directory_index :=
                       (table_address tabs (unat fresh) AND PAGE_ADDRESS_MASK) OR PAGE_PRESENT OR PAGE_WRITABLE]\<rparr>))
               else (found, v)) in
        if table_index = TABLE_INDEX_NONE then (False, v1)
        else if page_tables v1 ! unat table_index ! entry_index AND PAGE_PRESENT \<noteq> 0 then (False, v1)
        else
          let hardware_flags = make_page_flags flags;
              v2 = (if hardware_flags AND PAGE_USER \<noteq> 0
                then v1\<lparr>page_directory := (page_directory v1)[directory_index := page_directory v1 ! directory_index OR PAGE_USER]\<rparr>
                else v1);
              v3 = v2\<lparr>page_tables := (page_tables v2)[unat table_index := (page_tables v2 ! unat table_index)
                [entry_index := (physical_address AND PAGE_ADDRESS_MASK) OR hardware_flags]]\<rparr>
          in (True, paging_invalidate virtual_address v3))"

text \<open>The result is the address stored through the pointer, \<open>None\<close> when the call returns false;
  \<open>out\<close> is whether the pointer is non-null.\<close>

definition vmm_unmap_page :: "u32 \<Rightarrow> bool \<Rightarrow> vmm \<Rightarrow> u32 option \<times> vmm" where
  "vmm_unmap_page virtual_address out v =
     (let directory_index = unat (drop_bit 22 virtual_address);
          entry_index = unat (drop_bit 12 virtual_address AND 0x3FF) in
      if \<not> enabled v \<or> \<not> out \<or> \<not> dynamic_address_is_valid virtual_address then (None, v)
      else
        let table_index = directory_table_indices v ! directory_index in
        if table_index = TABLE_INDEX_NONE then (None, v)
        else
          let entry = page_tables v ! unat table_index ! entry_index in
          if entry AND PAGE_PRESENT = 0 then (None, v)
          else
            let unmapped_address = entry AND PAGE_ADDRESS_MASK;
                v1 = v\<lparr>page_tables := (page_tables v)[unat table_index := (page_tables v ! unat table_index)[entry_index := 0]]\<rparr>;
                v2 = paging_invalidate virtual_address v1;
                v3 = (if table_index \<ge> of_nat IDENTITY_TABLE_COUNT \<and> table_is_empty (unat table_index) v2
                  then v2\<lparr>page_directory := (page_directory v2)[directory_index := 0],
                     directory_table_indices := (directory_table_indices v2)[directory_index := TABLE_INDEX_NONE],
                     table_in_use := (table_in_use v2)[unat table_index := False]\<rparr>
                  else v2)
            in (Some unmapped_address, v3))"

definition vmm_translate :: "u32 \<Rightarrow> bool \<Rightarrow> vmm \<Rightarrow> u32 option" where
  "vmm_translate virtual_address out v =
     (let directory_index = unat (drop_bit 22 virtual_address);
          entry_index = unat (drop_bit 12 virtual_address AND 0x3FF);
          offset = virtual_address AND PAGE_OFFSET_MASK in
      if \<not> enabled v \<or> \<not> out then None
      else if page_directory v ! directory_index AND PAGE_PRESENT = 0 then None
      else
        let table_index = directory_table_indices v ! directory_index in
        if table_index = TABLE_INDEX_NONE then None
        else
          let entry = page_tables v ! unat table_index ! entry_index in
          if entry AND PAGE_PRESENT = 0 then None
          else Some ((entry AND PAGE_ADDRESS_MASK) + offset))"

definition vmm_is_enabled :: "vmm \<Rightarrow> bool" where
  "vmm_is_enabled v = enabled v"

section \<open>What the hardware sees\<close>

text \<open>
  The page walk of the processor: it follows the physical addresses in \<open>CR3\<close> and in the directory
  entry, knowing nothing of the indices the kernel keeps. A frame outside the pool is not
  backed by a table.
\<close>

definition mmu_walk :: "u32 \<Rightarrow> u32 \<Rightarrow> vmm \<Rightarrow> u32 \<Rightarrow> translation option" where
  "mmu_walk dir tabs v va =
     (if cr3 v \<noteq> dir then None
      else
        let pde = page_directory v ! (unat va div 4194304) in
        if \<not> bit pde 0 then None
        else
          let table = pde AND PAGE_ADDRESS_MASK; t = (unat table - unat tabs) div VMM_PAGE_SIZE in
          if table < tabs \<or> t \<ge> PAGE_TABLE_COUNT then None
          else
            let pte = page_tables v ! t ! (unat va div VMM_PAGE_SIZE mod PAGE_TABLE_ENTRIES) in
            if \<not> bit pte 0 then None
            else Some (pte AND PAGE_ADDRESS_MASK, bit pde 1 \<and> bit pte 1, bit pde 2 \<and> bit pte 2))"

section \<open>Entries and indices\<close>

abbreviation page_of :: "u32 \<Rightarrow> nat" where "page_of va \<equiv> unat va div VMM_PAGE_SIZE"

lemma address_mask: "PAGE_ADDRESS_MASK = NOT (mask 12)" "PAGE_OFFSET_MASK = mask 12"
  by (simp_all add: mask_eq_exp_minus_1)

lemma present_bit: "e AND PAGE_PRESENT = 0 \<longleftrightarrow> \<not> bit e 0"
  using and_exp_eq_0_iff_not_bit [of e 0] by simp

lemma user_bit: "e AND PAGE_USER = 0 \<longleftrightarrow> \<not> bit e 2"
  using and_exp_eq_0_iff_not_bit [of e 2] by simp

lemma flag_bit: "f AND VMM_USER = 0 \<longleftrightarrow> \<not> bit f 1"
  using and_exp_eq_0_iff_not_bit [of f 1] by simp

lemma directory_index: "unat (drop_bit 22 va) = page_of va div PAGE_TABLE_ENTRIES"
  by (simp add: word_nat flip: div_mult2_eq)

lemma entry_index: "unat (drop_bit 12 va AND 0x3FF) = page_of va mod PAGE_TABLE_ENTRIES"
  by (simp add: word_nat mask_numerals)

lemma page_of_less: "page_of va < 1048576"
  using unat_less_width(3) [of va] by (simp add: less_mult_imp_div_less)

lemma index_less: "page_of va div PAGE_TABLE_ENTRIES < PAGE_DIRECTORY_ENTRIES" "page_of va mod PAGE_TABLE_ENTRIES < PAGE_TABLE_ENTRIES"
  using page_of_less [of va] by (simp_all add: less_mult_imp_div_less)

lemma aligned_iff: "a AND PAGE_OFFSET_MASK = 0 \<longleftrightarrow> unat a mod VMM_PAGE_SIZE = 0"
  using unat_and_mask [of a 12] unfolding address_mask by (simp add: unat_eq_zero [symmetric])

text \<open>The entry of a page frame with flags in the low bits.\<close>

lemma bit_low_mask: "(f :: u32) < 4096 \<Longrightarrow> bit f n \<Longrightarrow> n < 12"
proof -
  assume "f < 4096" and b: "bit f n"
  then have "unat f < 2 ^ 12" by (simp add: word_less_nat_alt)
  moreover have "bit (unat f) n" using b by (simp add: bit_unsigned_iff possible_bit_def)
  then have "2 ^ n \<le> unat f" by (metis bit_iff_odd div_less even_zero not_less)
  ultimately have "(2 :: nat) ^ n < 2 ^ 12" by linarith
  then show "n < 12" by (simp only: power_strict_increasing_iff)
qed

lemma entry_bits:
  assumes "(f :: u32) < 4096"
  shows "bit ((a AND PAGE_ADDRESS_MASK) OR f) n \<longleftrightarrow> (if n < 12 then bit f n else bit a n \<and> n < 32)"
  unfolding address_mask using bit_low_mask [OF assms, of n]
  by (auto simp: bit_simps dest: bit_imp_le_length)

lemma entry_frame:
  assumes "(f :: u32) < 4096" and "a AND PAGE_OFFSET_MASK = 0"
  shows "((a AND PAGE_ADDRESS_MASK) OR f) AND PAGE_ADDRESS_MASK = a"
proof -
  have "\<not> bit a n" if "n < 12" for n
    using assms(2) that unfolding address_mask by (metis bit_0_eq bit_and_iff bit_mask_iff bot_apply bot_bool_def possible_bit_word bit_imp_le_length)
  then show ?thesis
    unfolding bit_eq_iff using bit_low_mask [OF assms(1)] by (auto simp: address_mask bit_simps dest: bit_imp_le_length)
qed

lemma mask_aligned: "a AND PAGE_OFFSET_MASK = 0 \<Longrightarrow> a AND PAGE_ADDRESS_MASK = a"
  using entry_frame [of 0 a] by (simp add: and.assoc)

lemma page_flags: "make_page_flags f < 4096" "bit (make_page_flags f) 0" "bit (make_page_flags f) 1 = bit f 0"
  "bit (make_page_flags f) 2 = bit f 1"
  by (auto simp: make_page_flags_def present_bit flag_bit)

section \<open>Invariant\<close>

definition has_table :: "vmm \<Rightarrow> nat \<Rightarrow> bool" where
  "has_table v d \<longleftrightarrow> directory_table_indices v ! d \<noteq> TABLE_INDEX_NONE"

definition tab :: "vmm \<Rightarrow> nat \<Rightarrow> nat" where
  "tab v d = unat (directory_table_indices v ! d)"

text \<open>The entry of page \<open>p\<close> as the kernel finds it, 0 when its directory entry has no table.\<close>

definition pte_at :: "vmm \<Rightarrow> nat \<Rightarrow> u32" where
  "pte_at v p = (if has_table v (p div PAGE_TABLE_ENTRIES)
     then page_tables v ! tab v (p div PAGE_TABLE_ENTRIES) ! (p mod PAGE_TABLE_ENTRIES) else 0)"

definition identity_pte :: "nat \<Rightarrow> u32" where
  "identity_pte p = (if p = 0 then 0 else of_nat (p * VMM_PAGE_SIZE) OR 3)"

definition vmm_shape :: "vmm \<Rightarrow> bool" where
  "vmm_shape v \<longleftrightarrow> length (page_directory v) = PAGE_DIRECTORY_ENTRIES \<and> length (page_tables v) = PAGE_TABLE_COUNT \<and>
     (\<forall>row \<in> set (page_tables v). length row = PAGE_TABLE_ENTRIES) \<and>
     length (directory_table_indices v) = PAGE_DIRECTORY_ENTRIES \<and> length (table_in_use v) = PAGE_TABLE_COUNT"

definition pte_ok :: "u32 \<Rightarrow> u32 \<Rightarrow> bool" where
  "pte_ok pde e \<longleftrightarrow> (e = 0 \<or> bit e 0) \<and> (bit e 2 \<longrightarrow> bit pde 2)"

text \<open>A directory entry with a table points to it and owns it alone.\<close>

definition slot_ok :: "u32 \<Rightarrow> vmm \<Rightarrow> nat \<Rightarrow> bool" where
  "slot_ok tabs v d \<longleftrightarrow>
     (if has_table v d then tab v d < PAGE_TABLE_COUNT \<and> table_in_use v ! tab v d \<and>
        page_directory v ! d AND PAGE_ADDRESS_MASK = table_address tabs (tab v d) \<and>
        bit (page_directory v ! d) 0 \<and> bit (page_directory v ! d) 1 \<and>
        (\<forall>e < PAGE_TABLE_ENTRIES. pte_ok (page_directory v ! d) (page_tables v ! tab v d ! e)) \<and>
        (IDENTITY_TABLE_COUNT \<le> d \<longrightarrow> 256 \<le> d \<and> d < 960 \<and> IDENTITY_TABLE_COUNT \<le> tab v d)
      else page_directory v ! d = 0)"

definition vmm_inv :: "u32 \<Rightarrow> vmm \<Rightarrow> bool" where
  "vmm_inv tabs v \<longleftrightarrow> vmm_shape v \<and> (\<forall>d < PAGE_DIRECTORY_ENTRIES. slot_ok tabs v d) \<and>
     (\<forall>c < PAGE_DIRECTORY_ENTRIES. \<forall>d < PAGE_DIRECTORY_ENTRIES. has_table v c \<and> tab v c = tab v d \<longrightarrow> c = d) \<and>
     (\<forall>d < IDENTITY_TABLE_COUNT. directory_table_indices v ! d = of_nat d) \<and>
     (\<forall>p < 32768. pte_at v p = identity_pte p) \<and>
     (\<forall>t < PAGE_TABLE_COUNT. IDENTITY_TABLE_COUNT \<le> t \<and> table_in_use v ! t \<longrightarrow>
        (\<exists>d < PAGE_DIRECTORY_ENTRIES. has_table v d \<and> tab v d = t))"

text \<open>No dynamic table is kept empty.\<close>

definition tables_used :: "vmm \<Rightarrow> bool" where
  "tables_used v \<longleftrightarrow> (\<forall>d < PAGE_DIRECTORY_ENTRIES. IDENTITY_TABLE_COUNT \<le> d \<and> has_table v d \<longrightarrow>
     (\<exists>e < PAGE_TABLE_ENTRIES. bit (page_tables v ! tab v d ! e) 0))"

definition vmm_wf :: "u32 \<Rightarrow> u32 \<Rightarrow> vmm \<Rightarrow> bool" where
  "vmm_wf dir tabs v \<longleftrightarrow> vmm_inv tabs v \<and> tables_used v \<and> enabled v \<and> cr3 v = dir \<and> bit (cr0 v) 31 \<and> bit (cr0 v) 16"

text \<open>Where the linker puts the tables: page-aligned and inside the address space.\<close>

definition tables_placed :: "u32 \<Rightarrow> bool" where
  "tables_placed tabs \<longleftrightarrow> unat tabs mod VMM_PAGE_SIZE = 0 \<and> unat tabs + PAGE_TABLE_COUNT * VMM_PAGE_SIZE \<le> 4294967296"

lemma table_address_nat:
  assumes "tables_placed tabs" and "t < PAGE_TABLE_COUNT"
  shows "unat (table_address tabs t) = unat tabs + t * VMM_PAGE_SIZE \<and> table_address tabs t AND PAGE_OFFSET_MASK = 0"
proof -
  define k where "k = t * VMM_PAGE_SIZE"
  have kl: "unat tabs + k < 2 ^ 32" "k mod VMM_PAGE_SIZE = 0"
    using assms by (auto simp: k_def tables_placed_def)
  then have k: "unat (word_of_nat k :: u32) = k" "unat tabs + k < 2 ^ 32" "k mod VMM_PAGE_SIZE = 0"
    by (auto intro!: unat_word_of_nat_small)
  then have "unat (table_address tabs t) = unat tabs + k"
    by (simp add: table_address_def unat_add_no_wrap flip: k_def)
  with k(3) assms(1) show ?thesis
    unfolding aligned_iff k_def [symmetric] tables_placed_def by (metis mod_add_eq add_0 mod_0)
qed

lemma page_split: "d < PAGE_DIRECTORY_ENTRIES \<Longrightarrow> e < PAGE_TABLE_ENTRIES \<Longrightarrow>
    (d * PAGE_TABLE_ENTRIES + e) div PAGE_TABLE_ENTRIES = d \<and> (d * PAGE_TABLE_ENTRIES + e) mod PAGE_TABLE_ENTRIES = e"
  by simp

lemma vmm_invD:
  assumes "vmm_inv tabs v" and "d < PAGE_DIRECTORY_ENTRIES"
  shows "has_table v d \<Longrightarrow> tab v d < PAGE_TABLE_COUNT" "has_table v d \<Longrightarrow> table_in_use v ! tab v d"
    and "has_table v d \<Longrightarrow> page_directory v ! d AND PAGE_ADDRESS_MASK = table_address tabs (tab v d)"
    and "bit (page_directory v ! d) 0 \<longleftrightarrow> has_table v d" and "has_table v d \<Longrightarrow> bit (page_directory v ! d) 1"
    and "has_table v d \<Longrightarrow> e < PAGE_TABLE_ENTRIES \<Longrightarrow> pte_ok (page_directory v ! d) (page_tables v ! tab v d ! e)"
    and "has_table v d \<Longrightarrow> IDENTITY_TABLE_COUNT \<le> d \<Longrightarrow> 256 \<le> d \<and> d < 960 \<and> IDENTITY_TABLE_COUNT \<le> tab v d"
    and "has_table v d \<Longrightarrow> c < PAGE_DIRECTORY_ENTRIES \<Longrightarrow> tab v c = tab v d \<Longrightarrow> c = d"
    and "has_table v d \<Longrightarrow> length (page_tables v ! tab v d) = PAGE_TABLE_ENTRIES"
    and "\<not> has_table v d \<Longrightarrow> page_directory v ! d = 0"
proof -
  have s: "slot_ok tabs v d" using assms by (simp add: vmm_inv_def)
  then show "has_table v d \<Longrightarrow> tab v d < PAGE_TABLE_COUNT" "has_table v d \<Longrightarrow> table_in_use v ! tab v d"
    "has_table v d \<Longrightarrow> page_directory v ! d AND PAGE_ADDRESS_MASK = table_address tabs (tab v d)"
    "bit (page_directory v ! d) 0 \<longleftrightarrow> has_table v d" "has_table v d \<Longrightarrow> bit (page_directory v ! d) 1"
    "has_table v d \<Longrightarrow> e < PAGE_TABLE_ENTRIES \<Longrightarrow> pte_ok (page_directory v ! d) (page_tables v ! tab v d ! e)"
    "has_table v d \<Longrightarrow> IDENTITY_TABLE_COUNT \<le> d \<Longrightarrow> 256 \<le> d \<and> d < 960 \<and> IDENTITY_TABLE_COUNT \<le> tab v d"
    "\<not> has_table v d \<Longrightarrow> page_directory v ! d = 0"
    by (auto simp: slot_ok_def split: if_splits)
  show "has_table v d \<Longrightarrow> c < PAGE_DIRECTORY_ENTRIES \<Longrightarrow> tab v c = tab v d \<Longrightarrow> c = d"
    using assms unfolding vmm_inv_def by metis
  show "has_table v d \<Longrightarrow> length (page_tables v ! tab v d) = PAGE_TABLE_ENTRIES"
    using s assms(1) by (auto simp: slot_ok_def vmm_inv_def vmm_shape_def)
qed

lemma identity_slot: "vmm_inv tabs v \<Longrightarrow> d < IDENTITY_TABLE_COUNT \<Longrightarrow> has_table v d \<and> tab v d = d"
  by (auto simp: vmm_inv_def has_table_def tab_def unat_word_of_nat_small word_unat_eq_iff)

lemma dynamic_tab: "vmm_inv tabs v \<Longrightarrow> d < PAGE_DIRECTORY_ENTRIES \<Longrightarrow> has_table v d \<Longrightarrow>
    IDENTITY_TABLE_COUNT \<le> d \<longleftrightarrow> IDENTITY_TABLE_COUNT \<le> tab v d"
  using vmm_invD(7) identity_slot by (metis not_le)

text \<open>Only these fields matter.\<close>

lemma vmm_inv_cong:
  "page_directory v' = page_directory v \<Longrightarrow> page_tables v' = page_tables v \<Longrightarrow>
   directory_table_indices v' = directory_table_indices v \<Longrightarrow> table_in_use v' = table_in_use v \<Longrightarrow>
   vmm_inv tabs v' = vmm_inv tabs v \<and> tables_used v' = tables_used v \<and> pte_at v' = pte_at v \<and>
   has_table v' = has_table v \<and> tab v' = tab v"
  by (simp add: vmm_inv_def vmm_shape_def slot_ok_def pte_at_def has_table_def tab_def tables_used_def fun_eq_iff)

subsection \<open>The elementary changes\<close>

lemma set_entry:
  assumes wf: "vmm_inv tabs v" and d: "d < PAGE_DIRECTORY_ENTRIES" "IDENTITY_TABLE_COUNT \<le> d" "has_table v d"
    and e: "e < PAGE_TABLE_ENTRIES" and x: "pte_ok (page_directory v ! d) x"
  defines "v' \<equiv> v\<lparr>page_tables := (page_tables v)[tab v d := (page_tables v ! tab v d)[e := x]]\<rparr>"
  shows "vmm_inv tabs v'" and "p < 1048576 \<Longrightarrow> pte_at v' p = (if p = d * PAGE_TABLE_ENTRIES + e then x else pte_at v p)"
proof -
  have same: "has_table v' = has_table v" "tab v' = tab v" by (simp_all add: v'_def has_table_def tab_def fun_eq_iff)
  note inv = vmm_invD [OF wf]
  have len: "length (page_tables v) = PAGE_TABLE_COUNT" using wf by (simp add: vmm_inv_def vmm_shape_def)
  have t: "tab v d < PAGE_TABLE_COUNT" "length (page_tables v ! tab v d) = PAGE_TABLE_ENTRIES" using inv(1,9) d by auto
  have row: "page_tables v' ! tab v c = (if c = d then (page_tables v ! tab v d)[e := x] else page_tables v ! tab v c)"
    if "c < PAGE_DIRECTORY_ENTRIES" for c
  proof (cases "tab v c = tab v d")
    case True
    then have "c = d" using inv(8) [OF d(1) d(3) that] by blast
    then show ?thesis using t len by (simp add: v'_def)
  qed (auto simp: v'_def)
  have pte: "pte_at v' p = (if p = d * PAGE_TABLE_ENTRIES + e then x else pte_at v p)" if "p < 1048576" for p
  proof -
    have c: "p div PAGE_TABLE_ENTRIES < PAGE_DIRECTORY_ENTRIES" using that by (simp add: less_mult_imp_div_less)
    have "p = p div PAGE_TABLE_ENTRIES * PAGE_TABLE_ENTRIES + p mod PAGE_TABLE_ENTRIES" by simp
    with c t e d row [OF c] page_split [OF d(1) e] show ?thesis
      by (cases "p div PAGE_TABLE_ENTRIES = d \<and> p mod PAGE_TABLE_ENTRIES = e") (auto simp: pte_at_def same nth_list_update)
  qed
  then show "p < 1048576 \<Longrightarrow> pte_at v' p = (if p = d * PAGE_TABLE_ENTRIES + e then x else pte_at v p)" .
  have shape: "vmm_shape v'"
    using wf t len by (auto simp: v'_def vmm_inv_def vmm_shape_def dest!: set_update_subset_insert [THEN subsetD])
  have slot: "slot_ok tabs v' c" if "c < PAGE_DIRECTORY_ENTRIES" for c
  proof -
    have "slot_ok tabs v c" using wf that by (simp add: vmm_inv_def)
    moreover have "page_directory v' = page_directory v" "table_in_use v' = table_in_use v" by (simp_all add: v'_def)
    ultimately show ?thesis
      using row [OF that] x t e by (auto simp: slot_ok_def same nth_list_update split: if_splits)
  qed
  have low: "pte_at v' p = identity_pte p" if "p < 32768" for p
    using pte [of p] that d(2) wf by (simp add: vmm_inv_def)
  show "vmm_inv tabs v'"
    using wf shape slot low unfolding vmm_inv_def same by (simp add: v'_def)
qed

text \<open>Setting the user bit of a directory entry.\<close>

lemma set_user:
  assumes wf: "vmm_inv tabs v" and d: "d < PAGE_DIRECTORY_ENTRIES" "has_table v d"
  defines "v' \<equiv> v\<lparr>page_directory := (page_directory v)[d := page_directory v ! d OR PAGE_USER]\<rparr>"
  shows "vmm_inv tabs v'" and "pte_at v' = pte_at v" and "has_table v' = has_table v" and "tab v' = tab v"
proof -
  show same: "has_table v' = has_table v" "tab v' = tab v" and pte: "pte_at v' = pte_at v"
    by (simp_all add: v'_def has_table_def tab_def pte_at_def fun_eq_iff)
  have len: "length (page_directory v) = PAGE_DIRECTORY_ENTRIES" using wf by (simp add: vmm_inv_def vmm_shape_def)
  have fields: "page_directory v' = (page_directory v)[d := page_directory v ! d OR PAGE_USER]"
    "page_tables v' = page_tables v" "table_in_use v' = table_in_use v" by (simp_all add: v'_def)
  have bits: "bit (x OR 4) n = (bit x n \<or> n = 2)" for x :: u32 and n
    using bit_set_iff [of x 2 n] by (auto simp: push_bit_eq_mult)
  have frame: "(x OR 4) AND PAGE_ADDRESS_MASK = x AND PAGE_ADDRESS_MASK" for x :: u32
    unfolding address_mask bit_eq_iff using bit_low_mask [of 4] by (auto simp: bit_simps)
  have "slot_ok tabs v' c" if "c < PAGE_DIRECTORY_ENTRIES" for c
  proof -
    have "slot_ok tabs v c" using wf that by (simp add: vmm_inv_def)
    then show ?thesis
      using d len that by (cases "c = d") (auto simp: slot_ok_def same pte_ok_def fields bits frame split: if_splits)
  qed
  then show "vmm_inv tabs v'"
    using wf unfolding vmm_inv_def same pte by (simp add: v'_def vmm_shape_def)
qed

text \<open>Giving a directory entry a fresh, blank table.\<close>

lemma attach_table:
  assumes wf: "vmm_inv tabs v" and tb: "tables_placed tabs"
    and d: "256 \<le> d" "d < 960" "\<not> has_table v d"
    and t: "IDENTITY_TABLE_COUNT \<le> t" "t < PAGE_TABLE_COUNT" "\<not> table_in_use v ! t"
  defines "v' \<equiv> (clear_table t (v\<lparr>table_in_use := (table_in_use v)[t := True]\<rparr>))
    \<lparr>directory_table_indices := (directory_table_indices v)[d := of_nat t],
     page_directory := (page_directory v)[d := (table_address tabs t AND PAGE_ADDRESS_MASK) OR PAGE_PRESENT OR PAGE_WRITABLE]\<rparr>"
  shows "vmm_inv tabs v'" and "p < 1048576 \<Longrightarrow> pte_at v' p = pte_at v p"
    and "has_table v' d" and "tab v' d = t" and "c < PAGE_DIRECTORY_ENTRIES \<Longrightarrow> c \<noteq> d \<Longrightarrow> has_table v' c = has_table v c \<and> tab v' c = tab v c \<and>
      (has_table v c \<longrightarrow> page_tables v' ! tab v c = page_tables v ! tab v c)"
proof -
  note inv = vmm_invD [OF wf]
  have len: "length (page_tables v) = PAGE_TABLE_COUNT" "length (page_directory v) = PAGE_DIRECTORY_ENTRIES"
    "length (directory_table_indices v) = PAGE_DIRECTORY_ENTRIES" "length (table_in_use v) = PAGE_TABLE_COUNT"
    and rows: "\<forall>row \<in> set (page_tables v). length row = PAGE_TABLE_ENTRIES"
    using wf by (simp_all add: vmm_inv_def vmm_shape_def)
  have ut: "unat (of_nat t :: u16) = t" "(of_nat t :: u16) \<noteq> TABLE_INDEX_NONE"
    using t by (auto simp: unat_word_of_nat_small word_unat_eq_iff)
  have blank: "fold (\<lambda>entry row. row[entry := 0]) [0..<PAGE_TABLE_ENTRIES] (page_tables v ! t) = replicate PAGE_TABLE_ENTRIES 0"
    using rows t len by (subst fold_fill_upt) (auto simp: map_replicate_const simp del: upt_rec_numeral)
  have pts: "page_tables v' = (page_tables v)[t := replicate PAGE_TABLE_ENTRIES 0]"
    by (simp add: v'_def clear_table_def blank del: upt_rec_numeral)
  have fields: "directory_table_indices v' = (directory_table_indices v)[d := of_nat t]"
    "table_in_use v' = (table_in_use v)[t := True]"
    "page_directory v' = (page_directory v)[d := (table_address tabs t AND PAGE_ADDRESS_MASK) OR 3]"
    by (simp_all add: v'_def clear_table_def or.assoc)
  show hd: "has_table v' d" "tab v' d = t"
    using d len ut by (simp_all add: has_table_def tab_def fields)
  have neq: "tab v c \<noteq> t" if "c < PAGE_DIRECTORY_ENTRIES" "has_table v c" for c
    using inv(2) [OF that] t(3) by auto
  show other: "has_table v' c = has_table v c \<and> tab v' c = tab v c \<and>
      (has_table v c \<longrightarrow> page_tables v' ! tab v c = page_tables v ! tab v c)" if "c < PAGE_DIRECTORY_ENTRIES" "c \<noteq> d" for c
    using that neq [of c] by (auto simp: has_table_def tab_def fields pts)
  have pte: "pte_at v' p = pte_at v p" if "p < 1048576" for p
  proof (cases "p div PAGE_TABLE_ENTRIES = d")
    case True
    then show ?thesis using hd d t len by (simp add: pte_at_def pts)
  next
    case False
    with other [of "p div PAGE_TABLE_ENTRIES"] that show ?thesis by (auto simp: pte_at_def less_mult_imp_div_less)
  qed
  then show "p < 1048576 \<Longrightarrow> pte_at v' p = pte_at v p" .
  have shape: "vmm_shape v'"
    using len rows by (auto simp: vmm_shape_def fields pts dest!: set_update_subset_insert [THEN subsetD])
  note ta = table_address_nat [OF tb t(2), THEN conjunct2]
  have pde: "((table_address tabs t AND PAGE_ADDRESS_MASK) OR 3) AND PAGE_ADDRESS_MASK = table_address tabs t"
    "bit ((table_address tabs t AND PAGE_ADDRESS_MASK) OR 3) 0" "bit ((table_address tabs t AND PAGE_ADDRESS_MASK) OR 3) 1"
    using entry_frame [of 3, OF _ ta] entry_bits [of 3 "table_address tabs t" 0] entry_bits [of 3 "table_address tabs t" 1]
    by (simp_all add: bit_numeral_rec)
  have slot: "slot_ok tabs v' c" if "c < PAGE_DIRECTORY_ENTRIES" for c
  proof (cases "c = d")
    case True
    with hd t d len pde show ?thesis by (simp add: slot_ok_def fields pts pte_ok_def)
  next
    case False
    have "slot_ok tabs v c" using wf that by (simp add: vmm_inv_def)
    with other [OF that False] False t len show ?thesis
      by (auto simp: slot_ok_def fields nth_list_update split: if_splits)
  qed
  have none: "tab v c \<noteq> t" if "\<not> has_table v c" for c
    using that t(2) by (auto simp: has_table_def tab_def)
  have inj: "c = c'" if "c < PAGE_DIRECTORY_ENTRIES" "c' < PAGE_DIRECTORY_ENTRIES" "has_table v' c" "tab v' c = tab v' c'" for c c'
    using that other [of c] other [of c'] hd neq [of c] neq [of c'] none [of c'] inv(8) [of c c']
    by (cases "c = d"; cases "c' = d") auto
  have owned: "\<exists>c < PAGE_DIRECTORY_ENTRIES. has_table v' c \<and> tab v' c = u"
    if u: "u < PAGE_TABLE_COUNT" "IDENTITY_TABLE_COUNT \<le> u" "table_in_use v' ! u" for u
  proof (cases "u = t")
    case True
    then show ?thesis using hd d by (intro exI [of _ d]) auto
  next
    case False
    then have "table_in_use v ! u" using u by (simp add: fields)
    then obtain c where "c < PAGE_DIRECTORY_ENTRIES" "has_table v c" "tab v c = u" using wf u unfolding vmm_inv_def by blast
    then show ?thesis using other [of c] d(3) by auto
  qed
  show "vmm_inv tabs v'"
    unfolding vmm_inv_def using shape slot inj owned pte wf d by (auto simp: fields vmm_inv_def)
qed

text \<open>Taking back a table with no entry left.\<close>

lemma detach_table:
  assumes wf: "vmm_inv tabs v" and d: "d < PAGE_DIRECTORY_ENTRIES" "IDENTITY_TABLE_COUNT \<le> d" "has_table v d"
    and blank: "\<And>e. e < PAGE_TABLE_ENTRIES \<Longrightarrow> page_tables v ! tab v d ! e = 0"
  defines "v' \<equiv> v\<lparr>page_directory := (page_directory v)[d := 0],
    directory_table_indices := (directory_table_indices v)[d := TABLE_INDEX_NONE],
    table_in_use := (table_in_use v)[tab v d := False]\<rparr>"
  shows "vmm_inv tabs v'" and "p < 1048576 \<Longrightarrow> pte_at v' p = pte_at v p" and "\<not> has_table v' d"
    and "c \<noteq> d \<Longrightarrow> has_table v' c = has_table v c \<and> tab v' c = tab v c"
proof -
  note inv = vmm_invD [OF wf]
  have shape: "vmm_shape v" using wf by (simp add: vmm_inv_def)
  then have len: "length (page_directory v) = PAGE_DIRECTORY_ENTRIES"
    "length (directory_table_indices v) = PAGE_DIRECTORY_ENTRIES" "length (table_in_use v) = PAGE_TABLE_COUNT"
    by (simp_all add: vmm_shape_def)
  show nd: "\<not> has_table v' d" using d len by (simp add: has_table_def v'_def)
  show other: "has_table v' c = has_table v c \<and> tab v' c = tab v c" if "c \<noteq> d" for c
    using that by (simp add: has_table_def tab_def v'_def)
  have pts: "page_tables v' = page_tables v" by (simp add: v'_def)
  have pte: "pte_at v' p = pte_at v p" if "p < 1048576" for p
  proof (cases "p div PAGE_TABLE_ENTRIES = d")
    case True
    then show ?thesis using nd blank [of "p mod PAGE_TABLE_ENTRIES"] by (simp add: pte_at_def)
  next
    case False
    with other [OF False] show ?thesis by (simp add: pte_at_def pts)
  qed
  then show "p < 1048576 \<Longrightarrow> pte_at v' p = pte_at v p" .
  have neq: "tab v c \<noteq> tab v d" if "c < PAGE_DIRECTORY_ENTRIES" "c \<noteq> d" for c
    using inv(8) [OF d(1,3) that(1)] that(2) by blast
  have slot: "slot_ok tabs v' c" if "c < PAGE_DIRECTORY_ENTRIES" for c
  proof (cases "c = d")
    case True
    with nd len d show ?thesis by (simp add: slot_ok_def) (simp add: v'_def)
  next
    case False
    have "slot_ok tabs v c" using wf that by (simp add: vmm_inv_def)
    with other [OF False] neq [OF that False] False show ?thesis
      by (auto simp: slot_ok_def pts) (auto simp: v'_def)
  qed
  have inj: "c = c'" if "c < PAGE_DIRECTORY_ENTRIES" "c' < PAGE_DIRECTORY_ENTRIES" "has_table v' c" "tab v' c = tab v' c'" for c c'
  proof -
    have "c \<noteq> d" using that nd by auto
    then have c: "has_table v c" "tab v' c = tab v c" using other that by auto
    have "c' \<noteq> d"
    proof
      assume "c' = d"
      then have "tab v' c' = 65535" using d len by (simp add: tab_def v'_def)
      then show False using inv(1) [OF that(1) c(1)] c that by simp
    qed
    then show ?thesis using inv(8) [OF that(1) c(1) that(2)] that c other [of c'] by simp
  qed
  have owned: "\<exists>c < PAGE_DIRECTORY_ENTRIES. has_table v' c \<and> tab v' c = u"
    if u: "u < PAGE_TABLE_COUNT" "IDENTITY_TABLE_COUNT \<le> u" "table_in_use v' ! u" for u
  proof -
    have "u \<noteq> tab v d" "table_in_use v ! u"
      using u len inv(1) [OF d(1,3)] by (auto simp: v'_def nth_list_update split: if_splits)
    then obtain c where "c < PAGE_DIRECTORY_ENTRIES" "has_table v c" "tab v c = u" using wf u unfolding vmm_inv_def by blast
    then show ?thesis using other [of c] \<open>u \<noteq> tab v d\<close> by auto
  qed
  have ident: "\<forall>c < IDENTITY_TABLE_COUNT. directory_table_indices v' ! c = of_nat c"
    using wf d(2) by (simp add: vmm_inv_def v'_def)
  have "vmm_shape v'" using shape by (simp add: vmm_shape_def v'_def)
  then show "vmm_inv tabs v'"
    unfolding vmm_inv_def using slot inj owned pte ident wf by (auto simp: vmm_inv_def)
qed

section \<open>The operations by page\<close>

lemma vmm_wf_inv: "vmm_wf dir tabs v \<Longrightarrow> vmm_inv tabs v"
  by (simp add: vmm_wf_def)

lemma translate_page:
  assumes wf: "vmm_wf dir tabs v"
  shows "vmm_translate va True v =
    (if bit (pte_at v (page_of va)) 0 then Some ((pte_at v (page_of va) AND PAGE_ADDRESS_MASK) + (va AND PAGE_OFFSET_MASK))
     else None)"
  using vmm_invD(4) [OF vmm_wf_inv [OF wf] index_less(1) [of va]] wf
  by (simp add: vmm_translate_def Let_def directory_index entry_index present_bit pte_at_def vmm_wf_def)
    (simp add: has_table_def tab_def)

lemma walk_page:
  assumes wf: "vmm_wf dir tabs v" and tb: "tables_placed tabs"
  shows "mmu_walk dir tabs v va =
    (let pte = pte_at v (page_of va) in
     if bit pte 0 then Some (pte AND PAGE_ADDRESS_MASK, bit pte 1, bit pte 2) else None)"
proof -
  let ?d = "page_of va div PAGE_TABLE_ENTRIES" and ?e = "page_of va mod PAGE_TABLE_ENTRIES"
  have d: "unat va div 4194304 = ?d" by (simp flip: div_mult2_eq)
  note inv = vmm_invD [OF vmm_wf_inv [OF wf] index_less(1) [of va]]
  show ?thesis
  proof (cases "has_table v ?d")
    case False
    with inv(4) wf show ?thesis unfolding mmu_walk_def d by (simp add: vmm_wf_def pte_at_def Let_def)
  next
    case True
    have t: "tab v ?d < PAGE_TABLE_COUNT" using inv(1) True by blast
    note ta = table_address_nat [OF tb t]
    have "(unat (table_address tabs (tab v ?d)) - unat tabs) div VMM_PAGE_SIZE = tab v ?d" using ta by simp
    moreover have "\<not> table_address tabs (tab v ?d) < tabs" using ta by (simp add: word_less_nat_alt)
    moreover have "pte_ok (page_directory v ! ?d) (page_tables v ! tab v ?d ! ?e)" using inv(6) [OF True index_less(2)] .
    ultimately show ?thesis
      using True t inv(3-5) wf unfolding mmu_walk_def d by (auto simp: vmm_wf_def pte_at_def Let_def pte_ok_def)
  qed
qed

lemma dynamic_page:
  assumes "dynamic_address_is_valid va"
  shows "256 \<le> page_of va div PAGE_TABLE_ENTRIES" "page_of va div PAGE_TABLE_ENTRIES < 960"
    "page_of va div PAGE_TABLE_ENTRIES * PAGE_TABLE_ENTRIES + page_of va mod PAGE_TABLE_ENTRIES = page_of va"
    "unat va = page_of va * VMM_PAGE_SIZE"
proof -
  have r: "unat va \<ge> 0x40000000" "unat va < 0xF0000000" "unat va mod VMM_PAGE_SIZE = 0"
    using assms unfolding dynamic_address_is_valid_def aligned_iff by (auto simp: word_less_nat_alt word_le_nat_alt)
  have q: "page_of va div PAGE_TABLE_ENTRIES = unat va div 4194304" by (simp flip: div_mult2_eq)
  show "256 \<le> page_of va div PAGE_TABLE_ENTRIES" using div_le_mono [OF r(1), of 4194304] by (simp only: q)
  show "page_of va div PAGE_TABLE_ENTRIES < 960" using r(2) by (simp only: q less_mult_imp_div_less)
  show "page_of va div PAGE_TABLE_ENTRIES * PAGE_TABLE_ENTRIES + page_of va mod PAGE_TABLE_ENTRIES = page_of va" by simp
  show "unat va = page_of va * VMM_PAGE_SIZE" using r(3) by (simp add: mod_eq_0_iff_dvd)
qed

text \<open>Whether a page could get a table.\<close>

definition table_available :: "vmm \<Rightarrow> nat \<Rightarrow> bool" where
  "table_available v p \<longleftrightarrow> has_table v (p div PAGE_TABLE_ENTRIES) \<or>
     (\<exists>t. IDENTITY_TABLE_COUNT \<le> t \<and> t < PAGE_TABLE_COUNT \<and> \<not> table_in_use v ! t)"

lemma allocate_cases:
  obtains "allocate_dynamic_table v = (TABLE_INDEX_NONE, v)"
      "\<forall>t. IDENTITY_TABLE_COUNT \<le> t \<and> t < PAGE_TABLE_COUNT \<longrightarrow> table_in_use v ! t"
    | t where "IDENTITY_TABLE_COUNT \<le> t" "t < PAGE_TABLE_COUNT" "\<not> table_in_use v ! t"
      "allocate_dynamic_table v = (of_nat t, clear_table t (v\<lparr>table_in_use := (table_in_use v)[t := True]\<rparr>))"
      "(of_nat t :: u16) \<noteq> TABLE_INDEX_NONE" "unat (of_nat t :: u16) = t"
proof (cases "find (\<lambda>index. \<not> table_in_use v ! index) [IDENTITY_TABLE_COUNT..<PAGE_TABLE_COUNT]")
  case None
  then have "allocate_dynamic_table v = (TABLE_INDEX_NONE, v)"
    by (simp add: allocate_dynamic_table_def del: upt_rec_numeral)
  moreover have "\<forall>t. IDENTITY_TABLE_COUNT \<le> t \<and> t < PAGE_TABLE_COUNT \<longrightarrow> table_in_use v ! t"
    using None by (auto simp: find_None_iff simp del: upt_rec_numeral)
  ultimately show ?thesis by (rule that(1))
next
  case (Some t)
  then have t: "IDENTITY_TABLE_COUNT \<le> t" "t < PAGE_TABLE_COUNT" "\<not> table_in_use v ! t"
    by (auto simp: find_Some_iff simp del: upt_rec_numeral)
  then have "unat (of_nat t :: u16) = t" by (simp add: unat_word_of_nat_small)
  moreover from this have "(of_nat t :: u16) \<noteq> TABLE_INDEX_NONE" using t by auto
  ultimately show ?thesis using Some t by (intro that(2)) (simp_all add: allocate_dynamic_table_def del: upt_rec_numeral)
qed

text \<open>The entry is written once the page has its table.\<close>

definition write_entry :: "u32 \<Rightarrow> u32 \<Rightarrow> u32 \<Rightarrow> vmm \<Rightarrow> vmm" where
  "write_entry va pa flags v =
     (let d = page_of va div PAGE_TABLE_ENTRIES;
          v2 = (if bit flags 1 then v\<lparr>page_directory := (page_directory v)[d := page_directory v ! d OR PAGE_USER]\<rparr> else v)
      in paging_invalidate va (v2\<lparr>page_tables := (page_tables v2)[tab v d := (page_tables v2 ! tab v d)
         [page_of va mod PAGE_TABLE_ENTRIES := (pa AND PAGE_ADDRESS_MASK) OR make_page_flags flags]]\<rparr>))"

lemma write_entry_spec:
  assumes wf: "vmm_inv tabs v" and h: "has_table v (page_of va div PAGE_TABLE_ENTRIES)" and dyn: "dynamic_address_is_valid va"
  shows "vmm_inv tabs (write_entry va pa flags v)"
    and "p < 1048576 \<Longrightarrow> pte_at (write_entry va pa flags v) p =
      (if p = page_of va then (pa AND PAGE_ADDRESS_MASK) OR make_page_flags flags else pte_at v p)"
    and "tlb (write_entry va pa flags v) = (tlb v)(page_of va := None)"
    and "has_table (write_entry va pa flags v) = has_table v" "tab (write_entry va pa flags v) = tab v"
    and "enabled (write_entry va pa flags v) = enabled v" "cr3 (write_entry va pa flags v) = cr3 v"
    "cr0 (write_entry va pa flags v) = cr0 v"
proof -
  let ?d = "page_of va div PAGE_TABLE_ENTRIES" and ?e = "page_of va mod PAGE_TABLE_ENTRIES"
  let ?x = "(pa AND PAGE_ADDRESS_MASK) OR make_page_flags flags"
  define v2 where "v2 = (if bit flags 1 then v\<lparr>page_directory := (page_directory v)[?d := page_directory v ! ?d OR PAGE_USER]\<rparr> else v)"
  note dp = dynamic_page [OF dyn]
  note su = set_user [OF wf index_less(1) h]
  have v2: "vmm_inv tabs v2" "pte_at v2 = pte_at v" "has_table v2 = has_table v" "tab v2 = tab v"
    using wf su by (simp_all add: v2_def)
  have len: "length (page_directory v) = PAGE_DIRECTORY_ENTRIES" using wf by (simp add: vmm_inv_def vmm_shape_def)
  have x: "pte_ok (page_directory v2 ! ?d) ?x"
    using page_flags entry_bits [OF page_flags(1), of pa flags 0] entry_bits [OF page_flags(1), of pa flags 2]
      index_less(1) [of va] len bit_set_iff [of "page_directory v ! ?d" 2 2]
    by (simp add: pte_ok_def v2_def push_bit_eq_mult)
  have w: "write_entry va pa flags v = paging_invalidate va
      (v2\<lparr>page_tables := (page_tables v2)[tab v2 ?d := (page_tables v2 ! tab v2 ?d)[?e := ?x]]\<rparr>)"
    by (simp only: write_entry_def v2_def [symmetric] Let_def v2(4))
  have d32: "IDENTITY_TABLE_COUNT \<le> ?d" using dp(1) by simp
  note se = set_entry [OF v2(1) index_less(1) d32 _ index_less(2) x, unfolded v2(2,3), OF h]
  note cong = vmm_inv_cong [of "write_entry va pa flags v"
      "v2\<lparr>page_tables := (page_tables v2)[tab v2 ?d := (page_tables v2 ! tab v2 ?d)[?e := ?x]]\<rparr>" tabs]
  show "vmm_inv tabs (write_entry va pa flags v)"
    using cong se(1) by (simp add: w paging_invalidate_def)
  show "p < 1048576 \<Longrightarrow> pte_at (write_entry va pa flags v) p = (if p = page_of va then ?x else pte_at v p)"
    using cong se(2) [of p] dp(3) by (simp add: w paging_invalidate_def)
  show "has_table (write_entry va pa flags v) = has_table v" "tab (write_entry va pa flags v) = tab v"
    using v2(3,4) by (simp_all add: w paging_invalidate_def has_table_def tab_def fun_eq_iff)
  show "tlb (write_entry va pa flags v) = (tlb v)(page_of va := None)" "enabled (write_entry va pa flags v) = enabled v"
    "cr3 (write_entry va pa flags v) = cr3 v" "cr0 (write_entry va pa flags v) = cr0 v"
    by (simp_all add: w paging_invalidate_def v2_def)
qed

definition map_args_ok :: "u32 \<Rightarrow> u32 \<Rightarrow> u32 \<Rightarrow> bool" where
  "map_args_ok va pa flags \<longleftrightarrow> dynamic_address_is_valid va \<and> pa AND PAGE_OFFSET_MASK = 0 \<and> flags AND NOT VMM_ALLOWED_FLAGS = 0"

lemma user_flag: "make_page_flags flags AND PAGE_USER = 0 \<longleftrightarrow> \<not> bit flags 1"
  by (simp add: user_bit page_flags)

text \<open>Mapping, on a page whose directory entry has a table.\<close>

lemma map_page_present_table:
  assumes "enabled v" and "map_args_ok va pa flags" and h: "has_table v (page_of va div PAGE_TABLE_ENTRIES)"
  shows "vmm_map_page tabs va pa flags v =
    (if bit (pte_at v (page_of va)) 0 then (False, v) else (True, write_entry va pa flags v))"
proof -
  have "directory_table_indices v ! (page_of va div PAGE_TABLE_ENTRIES) \<noteq> TABLE_INDEX_NONE"
    using h by (simp add: has_table_def)
  then show ?thesis
    using assms(1,2) h
    by (simp add: vmm_map_page_def map_args_ok_def directory_index entry_index Let_def present_bit pte_at_def
        user_flag write_entry_def tab_def [symmetric])
qed

lemma map_page_fresh_table:
  assumes "enabled v" and "map_args_ok va pa flags" and h: "\<not> has_table v (page_of va div PAGE_TABLE_ENTRIES)"
    and al: "allocate_dynamic_table v = (of_nat t, v0)" "(of_nat t :: u16) \<noteq> TABLE_INDEX_NONE" "unat (of_nat t :: u16) = t"
    and v1_def: "v1 = v0\<lparr>directory_table_indices := (directory_table_indices v0)[page_of va div PAGE_TABLE_ENTRIES := of_nat t],
     page_directory := (page_directory v0)[page_of va div PAGE_TABLE_ENTRIES :=
       (table_address tabs t AND PAGE_ADDRESS_MASK) OR PAGE_PRESENT OR PAGE_WRITABLE]\<rparr>"
    and "tab v1 (page_of va div PAGE_TABLE_ENTRIES) = t" "has_table v1 (page_of va div PAGE_TABLE_ENTRIES)"
    and "\<not> bit (pte_at v1 (page_of va)) 0"
  shows "vmm_map_page tabs va pa flags v = (True, write_entry va pa flags v1)"
proof -
  have n: "directory_table_indices v ! (page_of va div PAGE_TABLE_ENTRIES) = TABLE_INDEX_NONE"
    using h by (simp add: has_table_def)
  have e: "page_tables v1 ! t ! (page_of va mod PAGE_TABLE_ENTRIES) AND PAGE_PRESENT = 0"
    using assms(8-10) by (simp add: pte_at_def present_bit)
  show ?thesis
    using assms(1,2) n al e assms(8)
    unfolding vmm_map_page_def map_args_ok_def directory_index entry_index write_entry_def v1_def
    by (simp add: Let_def user_flag)
qed

lemma map_page_no_table:
  assumes "enabled v" and "map_args_ok va pa flags" and h: "\<not> has_table v (page_of va div PAGE_TABLE_ENTRIES)"
    and al: "allocate_dynamic_table v = (TABLE_INDEX_NONE, v)"
  shows "vmm_map_page tabs va pa flags v = (False, v)"
  using assms unfolding vmm_map_page_def map_args_ok_def directory_index entry_index has_table_def by (simp add: Let_def)

lemma map_page_bad_args:
  "\<not> map_args_ok va pa flags \<Longrightarrow> vmm_map_page tabs va pa flags v = (False, v)"
  by (auto simp: vmm_map_page_def map_args_ok_def Let_def)

lemma tables_used_write:
  assumes wf: "vmm_inv tabs v" and h: "has_table v (page_of va div PAGE_TABLE_ENTRIES)" and dyn: "dynamic_address_is_valid va"
    and used: "\<And>d. d < PAGE_DIRECTORY_ENTRIES \<Longrightarrow> d \<noteq> page_of va div PAGE_TABLE_ENTRIES \<Longrightarrow> IDENTITY_TABLE_COUNT \<le> d \<Longrightarrow>
      has_table v d \<Longrightarrow> \<exists>e < PAGE_TABLE_ENTRIES. bit (pte_at v (d * PAGE_TABLE_ENTRIES + e)) 0"
  shows "tables_used (write_entry va pa flags v)"
proof -
  let ?v = "write_entry va pa flags v"
  note w = write_entry_spec [OF wf h dyn, where pa = pa and flags = flags]
  have row: "page_tables ?v ! tab ?v d ! e = pte_at ?v (d * PAGE_TABLE_ENTRIES + e)" if "has_table v d" "e < PAGE_TABLE_ENTRIES" for d e
    using that w(4) by (simp add: pte_at_def)
  have small: "d * PAGE_TABLE_ENTRIES + e < 1048576" if "d < PAGE_DIRECTORY_ENTRIES" "e < PAGE_TABLE_ENTRIES" for d e :: nat
    using that by simp
  show ?thesis
    unfolding tables_used_def
  proof (intro allI impI)
    fix d assume d: "d < PAGE_DIRECTORY_ENTRIES" "IDENTITY_TABLE_COUNT \<le> d \<and> has_table ?v d"
    show "\<exists>e < PAGE_TABLE_ENTRIES. bit (page_tables ?v ! tab ?v d ! e) 0"
    proof (cases "d = page_of va div PAGE_TABLE_ENTRIES")
      case True
      have "bit (pte_at ?v (page_of va)) 0"
        using w(2) [OF page_of_less] entry_bits [OF page_flags(1), of pa flags 0] page_flags(2) by simp
      then show ?thesis
        using row [of d "page_of va mod PAGE_TABLE_ENTRIES"] h True index_less(2) dynamic_page(3) [OF dyn]
        by (intro exI [of _ "page_of va mod PAGE_TABLE_ENTRIES"]) simp
    next
      case False
      with used [of d] d w(4) obtain e where e: "e < PAGE_TABLE_ENTRIES" "bit (pte_at v (d * PAGE_TABLE_ENTRIES + e)) 0" by auto
      have "d * PAGE_TABLE_ENTRIES + e \<noteq> page_of va" using False e page_split [OF d(1) e(1)] by auto
      with e w(2) [OF small [OF d(1) e(1)]] row [of d e] d w(4) show ?thesis by (intro exI [of _ e]) simp
    qed
  qed
qed

lemma tables_used_pte:
  assumes "tables_used v" "d < PAGE_DIRECTORY_ENTRIES" "IDENTITY_TABLE_COUNT \<le> d" "has_table v d"
  shows "\<exists>e < PAGE_TABLE_ENTRIES. bit (pte_at v (d * PAGE_TABLE_ENTRIES + e)) 0"
proof -
  obtain e where e: "e < PAGE_TABLE_ENTRIES" "bit (page_tables v ! tab v d ! e) 0" using assms by (auto simp: tables_used_def)
  with assms(4) page_split [OF assms(2) e(1)] show ?thesis by (intro exI [of _ e]) (simp add: pte_at_def)
qed

lemma map_page_spec:
  assumes wf: "vmm_wf dir tabs v" and tb: "tables_placed tabs" and m: "vmm_map_page tabs va pa flags v = (ok, v')"
  shows "vmm_wf dir tabs v'"
    and "ok \<longleftrightarrow> map_args_ok va pa flags \<and> \<not> bit (pte_at v (page_of va)) 0 \<and> table_available v (page_of va)"
    and "\<not> ok \<Longrightarrow> v' = v"
    and "ok \<Longrightarrow> p < 1048576 \<Longrightarrow> pte_at v' p = (if p = page_of va then pa OR make_page_flags flags else pte_at v p)"
    and "ok \<Longrightarrow> tlb v' = (tlb v)(page_of va := None)"
proof -
  let ?d = "page_of va div PAGE_TABLE_ENTRIES"
  have inv: "vmm_inv tabs v" and en: "enabled v" and used: "tables_used v" using wf by (simp_all add: vmm_wf_def)
  have "vmm_wf dir tabs v' \<and> (ok \<longleftrightarrow> map_args_ok va pa flags \<and> \<not> bit (pte_at v (page_of va)) 0 \<and> table_available v (page_of va)) \<and>
    (\<not> ok \<longrightarrow> v' = v) \<and> (ok \<longrightarrow> (\<forall>p < 1048576. pte_at v' p = (if p = page_of va then pa OR make_page_flags flags else pte_at v p)) \<and>
      tlb v' = (tlb v)(page_of va := None))"
  proof (cases "map_args_ok va pa flags")
    case False
    with m wf show ?thesis by (auto simp: map_page_bad_args)
  next
    case args: True
    then have dyn: "dynamic_address_is_valid va" and pa: "pa AND PAGE_ADDRESS_MASK = pa"
      by (simp_all add: map_args_ok_def mask_aligned)
    show ?thesis
    proof (cases "has_table v ?d")
      case h: True
      show ?thesis
      proof (cases "bit (pte_at v (page_of va)) 0")
        case True
        with m map_page_present_table [OF en args h] wf show ?thesis by auto
      next
        case False
        then have r: "ok" "v' = write_entry va pa flags v" using m map_page_present_table [OF en args h] by auto
        note w = write_entry_spec [OF inv h dyn, where pa = pa and flags = flags]
        have "tables_used v'"
          unfolding r using tables_used_write [OF inv h dyn] tables_used_pte [OF used] by blast
        then show ?thesis using r w wf h args False pa by (auto simp: vmm_wf_def table_available_def)
      qed
    next
      case h: False
      then have np: "\<not> bit (pte_at v (page_of va)) 0" by (simp add: pte_at_def)
      show ?thesis
      proof (cases rule: allocate_cases [of v])
        case 1
        with m map_page_no_table [OF en args h] wf h show ?thesis by (auto simp: table_available_def)
      next
        case (2 t)
        define v1 where "v1 = (clear_table t (v\<lparr>table_in_use := (table_in_use v)[t := True]\<rparr>))
          \<lparr>directory_table_indices := (directory_table_indices v)[?d := of_nat t],
           page_directory := (page_directory v)[?d := (table_address tabs t AND PAGE_ADDRESS_MASK) OR PAGE_PRESENT OR PAGE_WRITABLE]\<rparr>"
        note at = attach_table [OF inv tb dynamic_page(1,2) [OF dyn] h 2(1-3), folded v1_def]
        let ?v0 = "clear_table t (v\<lparr>table_in_use := (table_in_use v)[t := True]\<rparr>)"
        have v1: "v1 = ?v0\<lparr>directory_table_indices := (directory_table_indices ?v0)[?d := of_nat t],
          page_directory := (page_directory ?v0)[?d := (table_address tabs t AND PAGE_ADDRESS_MASK) OR PAGE_PRESENT OR PAGE_WRITABLE]\<rparr>"
          by (simp add: v1_def clear_table_def)
        have np1: "\<not> bit (pte_at v1 (page_of va)) 0" using at(2) [OF page_of_less] np by simp
        have r: "ok" "v' = write_entry va pa flags v1"
          using m map_page_fresh_table [OF en args h 2(4-6) v1 at(4,3) np1] by simp_all
        note w = write_entry_spec [OF at(1,3) dyn, where pa = pa and flags = flags]
        have hw: "tlb v1 = tlb v" "enabled v1 = enabled v" "cr3 v1 = cr3 v" "cr0 v1 = cr0 v" by (simp_all add: v1_def clear_table_def)
        have "\<exists>e < PAGE_TABLE_ENTRIES. bit (pte_at v1 (c * PAGE_TABLE_ENTRIES + e)) 0"
          if c: "c < PAGE_DIRECTORY_ENTRIES" "c \<noteq> ?d" "IDENTITY_TABLE_COUNT \<le> c" "has_table v1 c" for c
        proof -
          have "has_table v c" using at(5) [OF c(1,2)] c(4) by simp
          from tables_used_pte [OF used c(1,3) this] obtain e where
            e: "e < PAGE_TABLE_ENTRIES" "bit (pte_at v (c * PAGE_TABLE_ENTRIES + e)) 0" by blast
          moreover have "c * PAGE_TABLE_ENTRIES + e < 1048576" using c(1) e(1) by simp
          ultimately show ?thesis using at(2) by metis
        qed
        then have "tables_used v'" unfolding r using tables_used_write [OF at(1,3) dyn] by blast
        then show ?thesis
          using r w wf hw args np pa at(2) 2(1-3) by (auto simp: vmm_wf_def table_available_def)
      qed
    qed
  qed
  then show "vmm_wf dir tabs v'" "ok \<longleftrightarrow> map_args_ok va pa flags \<and> \<not> bit (pte_at v (page_of va)) 0 \<and> table_available v (page_of va)"
    "\<not> ok \<Longrightarrow> v' = v" "ok \<Longrightarrow> p < 1048576 \<Longrightarrow> pte_at v' p = (if p = page_of va then pa OR make_page_flags flags else pte_at v p)"
    "ok \<Longrightarrow> tlb v' = (tlb v)(page_of va := None)" by blast+
qed

text \<open>Removing an entry, and the table with its last one.\<close>

lemma unmap_page_spec:
  assumes wf: "vmm_wf dir tabs v" and u: "vmm_unmap_page va out v = (r, v')"
  shows "vmm_wf dir tabs v'"
    and "r \<noteq> None \<longleftrightarrow> out \<and> dynamic_address_is_valid va \<and> bit (pte_at v (page_of va)) 0"
    and "r = None \<Longrightarrow> v' = v"
    and "r \<noteq> None \<Longrightarrow> r = Some (pte_at v (page_of va) AND PAGE_ADDRESS_MASK)"
    and "r \<noteq> None \<Longrightarrow> p < 1048576 \<Longrightarrow> pte_at v' p = (if p = page_of va then 0 else pte_at v p)"
    and "r \<noteq> None \<Longrightarrow> tlb v' = (tlb v)(page_of va := None)"
proof -
  let ?d = "page_of va div PAGE_TABLE_ENTRIES" and ?e = "page_of va mod PAGE_TABLE_ENTRIES"
  have inv: "vmm_inv tabs v" and en: "enabled v" and used: "tables_used v" using wf by (simp_all add: vmm_wf_def)
  have "vmm_wf dir tabs v' \<and> (r \<noteq> None \<longleftrightarrow> out \<and> dynamic_address_is_valid va \<and> bit (pte_at v (page_of va)) 0) \<and>
    (r = None \<longrightarrow> v' = v) \<and> (r \<noteq> None \<longrightarrow> r = Some (pte_at v (page_of va) AND PAGE_ADDRESS_MASK) \<and>
      (\<forall>p < 1048576. pte_at v' p = (if p = page_of va then 0 else pte_at v p)) \<and> tlb v' = (tlb v)(page_of va := None))"
  proof (cases "out \<and> dynamic_address_is_valid va \<and> bit (pte_at v (page_of va)) 0")
    case False
    then have "r = None \<and> v' = v"
      using u en by (auto simp: vmm_unmap_page_def Let_def directory_index entry_index present_bit pte_at_def has_table_def
          tab_def split: if_splits)
    with False wf show ?thesis by auto
  next
    case True
    then have dyn: "dynamic_address_is_valid va" and b: "bit (pte_at v (page_of va)) 0" and out by auto
    then have h: "has_table v ?d" by (auto simp: pte_at_def split: if_splits)
    note dp = dynamic_page [OF dyn]
    then have d32: "IDENTITY_TABLE_COUNT \<le> ?d" by simp
    have x: "pte_ok (page_directory v ! ?d) 0" by (simp add: pte_ok_def)
    define w where "w = v\<lparr>page_tables := (page_tables v)[tab v ?d := (page_tables v ! tab v ?d)[?e := 0]]\<rparr>"
    define w2 where "w2 = paging_invalidate va w"
    note se = set_entry [OF inv index_less(1) d32 h index_less(2) [of va] x, folded w_def]
    have c2: "vmm_inv tabs w2 = vmm_inv tabs w \<and> tables_used w2 = tables_used w \<and> pte_at w2 = pte_at w \<and>
        has_table w2 = has_table w \<and> tab w2 = tab w"
      by (rule vmm_inv_cong) (simp_all add: w2_def paging_invalidate_def)
    have hw: "has_table w = has_table v" "tab w = tab v" by (simp_all add: w_def has_table_def tab_def fun_eq_iff)
    have inv2: "vmm_inv tabs w2" and pte2: "\<And>p. p < 1048576 \<Longrightarrow> pte_at w2 p = (if p = page_of va then 0 else pte_at v p)"
      and h2: "has_table w2 ?d" "tab w2 = tab v" "has_table w2 = has_table v"
      using c2 se hw h dp(3) by auto
    have hwd: "tlb w2 = (tlb v)(page_of va := None)" "enabled w2 = enabled v" "cr3 w2 = cr3 v" "cr0 w2 = cr0 v"
      by (simp_all add: w2_def w_def paging_invalidate_def)
    have ge: "of_nat IDENTITY_TABLE_COUNT \<le> directory_table_indices v ! ?d"
      using dynamic_tab [OF inv index_less(1) h] d32 by (simp add: tab_def word_le_nat_alt)
    define v3 where "v3 = w2\<lparr>page_directory := (page_directory w2)[?d := 0],
      directory_table_indices := (directory_table_indices w2)[?d := TABLE_INDEX_NONE],
      table_in_use := (table_in_use w2)[tab w2 ?d := False]\<rparr>"
    have r: "r = Some (pte_at v (page_of va) AND PAGE_ADDRESS_MASK)" "v' = (if table_is_empty (tab v ?d) w2 then v3 else w2)"
      using u en dyn \<open>out\<close> b h ge
      by (simp_all add: vmm_unmap_page_def Let_def directory_index entry_index present_bit pte_at_def has_table_def
          tab_def w2_def w_def v3_def paging_invalidate_def split: if_splits)
    have row: "page_tables w2 ! tab v c ! e = pte_at w2 (c * PAGE_TABLE_ENTRIES + e)"
      if "has_table v c" "e < PAGE_TABLE_ENTRIES" "c < PAGE_DIRECTORY_ENTRIES" for c e
      using that h2 page_split [of c e] by (simp add: pte_at_def)
    have small: "c * PAGE_TABLE_ENTRIES + e < 1048576" if "c < PAGE_DIRECTORY_ENTRIES" "e < PAGE_TABLE_ENTRIES" for c e :: nat
      using that by simp
    have others: "\<exists>e < PAGE_TABLE_ENTRIES. bit (page_tables w2 ! tab v c ! e) 0"
      if c: "c < PAGE_DIRECTORY_ENTRIES" "IDENTITY_TABLE_COUNT \<le> c" "has_table v c" "c \<noteq> ?d" for c
    proof -
      obtain e where e: "e < PAGE_TABLE_ENTRIES" "bit (pte_at v (c * PAGE_TABLE_ENTRIES + e)) 0"
        using tables_used_pte [OF used c(1-3)] by blast
      moreover have "c * PAGE_TABLE_ENTRIES + e \<noteq> page_of va" using c(4) page_split [OF c(1) e(1)] by auto
      ultimately show ?thesis using row [OF c(3) e(1) c(1)] pte2 [OF small [OF c(1) e(1)]] by auto
    qed
    show ?thesis
    proof (cases "table_is_empty (tab v ?d) w2")
      case False
      then have "\<exists>e < PAGE_TABLE_ENTRIES. bit (page_tables w2 ! tab v ?d ! e) 0"
        by (auto simp: table_is_empty_def list_all_iff present_bit simp del: upt_rec_numeral)
      then have "tables_used w2" unfolding tables_used_def h2(2,3) using others by metis
      then show ?thesis using r False inv2 pte2 hwd True wf by (simp add: vmm_wf_def)
    next
      case empty: True
      have blank: "page_tables w2 ! tab w2 ?d ! e = 0" if "e < PAGE_TABLE_ENTRIES" for e
        using vmm_invD(6) [OF inv2 index_less(1) h2(1) that] empty that h2(2)
        by (auto simp: pte_ok_def table_is_empty_def list_all_iff present_bit simp del: upt_rec_numeral)
      note dt = detach_table [OF inv2 index_less(1) d32 h2(1) blank, folded v3_def]
      have "tables_used v3"
        unfolding tables_used_def
      proof (intro allI impI)
        fix c assume c: "c < PAGE_DIRECTORY_ENTRIES" "IDENTITY_TABLE_COUNT \<le> c \<and> has_table v3 c"
        then have "c \<noteq> ?d" using dt(3) by auto
        with others [of c] dt(4) [of c] c h2 show "\<exists>e < PAGE_TABLE_ENTRIES. bit (page_tables v3 ! tab v3 c ! e) 0"
          by (simp add: v3_def)
      qed
      moreover have "tlb v3 = tlb w2" "enabled v3 = enabled w2" "cr3 v3 = cr3 w2" "cr0 v3 = cr0 w2" by (simp_all add: v3_def)
      ultimately show ?thesis using r empty dt(1,2) pte2 hwd True wf by (simp add: vmm_wf_def)
    qed
  qed
  then show "vmm_wf dir tabs v'" "r \<noteq> None \<longleftrightarrow> out \<and> dynamic_address_is_valid va \<and> bit (pte_at v (page_of va)) 0"
    "r = None \<Longrightarrow> v' = v" "r \<noteq> None \<Longrightarrow> r = Some (pte_at v (page_of va) AND PAGE_ADDRESS_MASK)"
    "r \<noteq> None \<Longrightarrow> p < 1048576 \<Longrightarrow> pte_at v' p = (if p = page_of va then 0 else pte_at v p)"
    "r \<noteq> None \<Longrightarrow> tlb v' = (tlb v)(page_of va := None)" by blast+
qed

subsection \<open>Initialisation\<close>

lemma fold_clear_table:
  "n \<le> length (page_tables v) \<Longrightarrow> \<forall>row \<in> set (page_tables v). length row = PAGE_TABLE_ENTRIES \<Longrightarrow>
   fold clear_table [0..<n] v = v\<lparr>page_tables := replicate n (replicate PAGE_TABLE_ENTRIES 0) @ drop n (page_tables v)\<rparr>"
proof (induction n)
  case (Suc n)
  have row: "fold (\<lambda>entry row. row[entry := 0]) [0..<PAGE_TABLE_ENTRIES] (page_tables v ! n) = replicate PAGE_TABLE_ENTRIES 0"
    using Suc.prems by (subst fold_fill_upt) (auto simp: map_replicate_const simp del: upt_rec_numeral)
  have d: "drop n (page_tables v) = page_tables v ! n # drop (Suc n) (page_tables v)"
    using Suc.prems by (simp add: Cons_nth_drop_Suc)
  have "fold clear_table [0..<Suc n] v = clear_table n (v\<lparr>page_tables := replicate n (replicate PAGE_TABLE_ENTRIES 0) @ drop n (page_tables v)\<rparr>)"
    using Suc by simp
  also have "\<dots> = v\<lparr>page_tables := replicate n (replicate PAGE_TABLE_ENTRIES 0) @ replicate PAGE_TABLE_ENTRIES 0 # drop (Suc n) (page_tables v)\<rparr>"
    by (simp add: clear_table_def d nth_append list_update_append row del: upt_rec_numeral)
  finally show ?case by (simp add: replicate_append_same [symmetric])
qed simp

lemma identity_row_eq:
  assumes "t < IDENTITY_TABLE_COUNT"
  shows "identity_row t (replicate PAGE_TABLE_ENTRIES 0) = map (\<lambda>e. identity_pte (t * PAGE_TABLE_ENTRIES + e)) [0..<PAGE_TABLE_ENTRIES]"
proof -
  have one: "(if identity_entry t e \<noteq> 0 then identity_entry t e OR PAGE_PRESENT OR PAGE_WRITABLE else 0) =
      identity_pte (t * PAGE_TABLE_ENTRIES + e)" if "e < PAGE_TABLE_ENTRIES" for e
  proof -
    define n where "n = (t * PAGE_TABLE_ENTRIES + e) * VMM_PAGE_SIZE"
    have n: "identity_entry t e = of_nat n" by (simp add: identity_entry_def n_def)
    have "n < 2 ^ 32" using assms that by (simp add: n_def)
    then have "identity_entry t e = 0 \<longleftrightarrow> n = 0" unfolding n by (simp add: word_of_nat_eq_0_iff nat_dvd_not_less dvd_imp_le)
      (metis gr_zeroI nat_dvd_not_less dvd_0_right)
    then show ?thesis using n by (simp add: identity_pte_def n_def [symmetric] or.assoc) (simp add: n_def)
  qed
  have "identity_row t (replicate PAGE_TABLE_ENTRIES 0) =
      fold (\<lambda>i xs. xs[i := if identity_entry t i \<noteq> 0 then identity_entry t i OR PAGE_PRESENT OR PAGE_WRITABLE else xs ! i])
        [0..<PAGE_TABLE_ENTRIES] (replicate PAGE_TABLE_ENTRIES 0)"
    unfolding identity_row_def Let_def by (intro fold_cong) auto
  also have "\<dots> = map (\<lambda>i. if identity_entry t i \<noteq> 0 then identity_entry t i OR PAGE_PRESENT OR PAGE_WRITABLE else
      replicate PAGE_TABLE_ENTRIES 0 ! i) [0..<PAGE_TABLE_ENTRIES]"
    by (subst fold_update_upt [where f = "\<lambda>i x. if identity_entry t i \<noteq> 0 then identity_entry t i OR PAGE_PRESENT OR PAGE_WRITABLE else x"])
      (simp_all del: upt_rec_numeral replicate.simps)
  also have "\<dots> = map (\<lambda>e. identity_pte (t * PAGE_TABLE_ENTRIES + e)) [0..<PAGE_TABLE_ENTRIES]"
  proof (intro map_cong refl)
    fix i assume "i \<in> set [0..<PAGE_TABLE_ENTRIES]"
    then have "i < PAGE_TABLE_ENTRIES" by (simp del: upt_rec_numeral)
    then have "replicate PAGE_TABLE_ENTRIES (0 :: u32) ! i = 0" by (rule nth_replicate)
    with one [OF \<open>i < PAGE_TABLE_ENTRIES\<close>] show "(if identity_entry t i \<noteq> 0 then identity_entry t i OR PAGE_PRESENT OR PAGE_WRITABLE else
        replicate PAGE_TABLE_ENTRIES 0 ! i) = identity_pte (t * PAGE_TABLE_ENTRIES + i)" by (simp only:)
  qed
  finally show ?thesis .
qed

lemma identity_pte_bits:
  assumes "p < 1048576"
  shows "(identity_pte p = 0 \<or> bit (identity_pte p) 0) \<and> \<not> bit (identity_pte p) 2"
proof -
  have "unat (of_nat (p * VMM_PAGE_SIZE) :: u32) = p * VMM_PAGE_SIZE" using assms by (intro unat_word_of_nat_small) simp
  then have "(of_nat (p * VMM_PAGE_SIZE) :: u32) AND PAGE_OFFSET_MASK = 0" by (simp add: aligned_iff)
  then have "(of_nat (p * VMM_PAGE_SIZE) :: u32) AND PAGE_ADDRESS_MASK = of_nat (p * VMM_PAGE_SIZE)" by (rule mask_aligned)
  then show ?thesis
    using entry_bits [of 3 "of_nat (p * VMM_PAGE_SIZE)"] by (simp add: identity_pte_def)
qed

lemma fold_prefix:
  "n \<le> length xs \<Longrightarrow> fold (\<lambda>i xs. xs[i := f i (xs ! i)]) [0..<n] xs = map (\<lambda>i. f i (xs ! i)) [0..<n] @ drop n xs"
  by (rule fold_update_upt)

lemma vmm_init_spec:
  assumes sh: "vmm_shape v" and en: "\<not> enabled v" and tb: "tables_placed tabs"
  shows "fst (vmm_init dir tabs v)" and "vmm_wf dir tabs (snd (vmm_init dir tabs v))"
    and "p < 1048576 \<Longrightarrow> pte_at (snd (vmm_init dir tabs v)) p = (if p < 32768 then identity_pte p else 0)"
    and "tlb (snd (vmm_init dir tabs v)) = Map.empty"
    and "t < PAGE_TABLE_COUNT \<Longrightarrow> table_in_use (snd (vmm_init dir tabs v)) ! t \<longleftrightarrow> t < IDENTITY_TABLE_COUNT"
proof -
  let ?v = "snd (vmm_init dir tabs v)"
  have len: "length (page_directory v) = PAGE_DIRECTORY_ENTRIES" "length (page_tables v) = PAGE_TABLE_COUNT"
    "length (directory_table_indices v) = PAGE_DIRECTORY_ENTRIES" "length (table_in_use v) = PAGE_TABLE_COUNT"
    and rows: "\<forall>row \<in> set (page_tables v). length row = PAGE_TABLE_ENTRIES" using sh by (simp_all add: vmm_shape_def)
  let ?pd = "map (\<lambda>t. (table_address tabs t AND PAGE_ADDRESS_MASK) OR 3) [0..<IDENTITY_TABLE_COUNT] @ replicate 992 0"
  let ?dti = "map of_nat [0..<IDENTITY_TABLE_COUNT] @ replicate 992 TABLE_INDEX_NONE"
  let ?pts = "map (\<lambda>t. map (\<lambda>e. identity_pte (t * PAGE_TABLE_ENTRIES + e)) [0..<PAGE_TABLE_ENTRIES]) [0..<IDENTITY_TABLE_COUNT] @
    replicate 32 (replicate PAGE_TABLE_ENTRIES 0)"
  have pts: "fold (\<lambda>t a. a[t := identity_row t (a ! t)]) [0..<IDENTITY_TABLE_COUNT]
      (replicate PAGE_TABLE_COUNT (replicate PAGE_TABLE_ENTRIES 0)) = ?pts"
    by (subst fold_prefix) (auto simp: identity_row_eq simp del: upt_rec_numeral replicate.simps intro!: map_cong)
  have f: "page_directory ?v = ?pd" "directory_table_indices ?v = ?dti"
    "table_in_use ?v = map (\<lambda>i. i < IDENTITY_TABLE_COUNT) [0..<PAGE_TABLE_COUNT]" "page_tables ?v = ?pts"
    using en len rows
    by (simp_all add: vmm_init_def Let_def paging_load_directory_def paging_enable_def fold_clear_table fold_fill_upt
        map_replicate_const pts or.assoc del: upt_rec_numeral replicate.simps)
  have h: "enabled ?v" "cr3 ?v = dir" "tlb ?v = Map.empty" "bit (cr0 ?v) 31" "bit (cr0 ?v) 16" "fst (vmm_init dir tabs v)"
    using en by (simp_all add: vmm_init_def Let_def paging_load_directory_def paging_enable_def bit_simps del: upt_rec_numeral)
  show "fst (vmm_init dir tabs v)" "tlb ?v = Map.empty" using h by simp_all
  have nths: "directory_table_indices ?v ! d = (if d < IDENTITY_TABLE_COUNT then of_nat d else TABLE_INDEX_NONE)"
    "page_directory ?v ! d = (if d < IDENTITY_TABLE_COUNT then (table_address tabs d AND PAGE_ADDRESS_MASK) OR 3 else 0)"
    if "d < PAGE_DIRECTORY_ENTRIES" for d
    using that by (simp_all only: f nth_append length_map length_upt) (simp_all del: upt_rec_numeral replicate.simps)
  have small: "(of_nat d :: u16) \<noteq> TABLE_INDEX_NONE" "unat (of_nat d :: u16) = d" if "d < IDENTITY_TABLE_COUNT" for d
    using that by (simp_all add: word_unat_eq_iff unat_word_of_nat_small)
  have ht: "has_table ?v d \<longleftrightarrow> d < IDENTITY_TABLE_COUNT" "d < IDENTITY_TABLE_COUNT \<Longrightarrow> tab ?v d = d"
    if "d < PAGE_DIRECTORY_ENTRIES" for d
    using small by (auto simp: has_table_def tab_def nths [OF that])
  have row: "page_tables ?v ! d ! e = identity_pte (d * PAGE_TABLE_ENTRIES + e)"
    if "d < IDENTITY_TABLE_COUNT" "e < PAGE_TABLE_ENTRIES" for d e
    using that by (simp only: f nth_append length_map length_upt) (simp del: upt_rec_numeral replicate.simps)
  have pte: "pte_at ?v p = (if p < 32768 then identity_pte p else 0)" if "p < 1048576" for p
  proof -
    have d: "p div PAGE_TABLE_ENTRIES < PAGE_DIRECTORY_ENTRIES" and lt: "p div PAGE_TABLE_ENTRIES < IDENTITY_TABLE_COUNT \<longleftrightarrow> p < 32768"
      using that by (simp_all add: div_less_iff_less_mult)
    show ?thesis using ht [OF d] row [of "p div PAGE_TABLE_ENTRIES" "p mod PAGE_TABLE_ENTRIES"] unfolding pte_at_def lt by simp
  qed
  have shape: "vmm_shape ?v"
    unfolding vmm_shape_def by (simp only: f) (auto simp del: upt_rec_numeral replicate.simps)
  have slot: "slot_ok tabs ?v d" if "d < PAGE_DIRECTORY_ENTRIES" for d
  proof (cases "d < IDENTITY_TABLE_COUNT")
    case True
    have tu: "table_in_use ?v ! d" using True by (simp only: f) (simp del: upt_rec_numeral)
    have e: "pte_ok (page_directory ?v ! d) (page_tables ?v ! d ! e)" if "e < PAGE_TABLE_ENTRIES" for e
      using row [OF True that] identity_pte_bits [of "d * PAGE_TABLE_ENTRIES + e"] True that by (auto simp: pte_ok_def)
    show ?thesis
      using True ht [OF that] tu e nths(2) [OF that] entry_bits [of 3 "table_address tabs d"] entry_frame [of 3 "table_address tabs d"] table_address_nat [OF tb, of d]
      by (simp add: slot_ok_def)
  next
    case False
    then show ?thesis using ht [OF that] nths(2) [OF that] by (simp add: slot_ok_def)
  qed
  have uses: "table_in_use ?v ! t \<longleftrightarrow> t < IDENTITY_TABLE_COUNT" if "t < PAGE_TABLE_COUNT" for t
    using that by (simp only: f) (simp del: upt_rec_numeral)
  then show "t < PAGE_TABLE_COUNT \<Longrightarrow> table_in_use ?v ! t \<longleftrightarrow> t < IDENTITY_TABLE_COUNT" .
  have uniq: "c = d" if "c < PAGE_DIRECTORY_ENTRIES" "d < PAGE_DIRECTORY_ENTRIES" "has_table ?v c" "tab ?v c = tab ?v d" for c d
  proof (cases "d < IDENTITY_TABLE_COUNT")
    case True
    then show ?thesis using that ht [OF that(1)] ht [OF that(2)] by simp
  next
    case False
    then have "tab ?v d = 65535" using nths(1) [OF that(2)] by (simp add: tab_def)
    then show ?thesis using that ht [OF that(1)] by simp
  qed
  have "vmm_inv tabs ?v"
    unfolding vmm_inv_def using shape slot uniq pte nths(1) uses by (auto simp del: One_nat_def)
  moreover have "tables_used ?v" using ht by (auto simp: tables_used_def)
  ultimately show "vmm_wf dir tabs (snd (vmm_init dir tabs v))" using h by (simp add: vmm_wf_def)
  show "p < 1048576 \<Longrightarrow> pte_at ?v p = (if p < 32768 then identity_pte p else 0)" using pte .
qed

section \<open>The address space as a map\<close>

text \<open>
  What users of an address space rely on: mapping adds one translation, unmapping removes it and
  returns its frame, a failed call changes nothing, and a changed page leaves the translation cache.
\<close>

locale address_space =
  fixes good :: "'s \<Rightarrow> bool"
    and view :: "'s \<Rightarrow> 'p \<Rightarrow> 't option"
    and cache :: "'s \<Rightarrow> 'p \<Rightarrow> 't option"
    and page :: "'a \<Rightarrow> 'p"
    and managed :: "'a \<Rightarrow> bool"
    and entry :: "'x \<Rightarrow> 't"
    and frame :: "'t \<Rightarrow> 'f"
    and map_op :: "'a \<Rightarrow> 'x \<Rightarrow> 's \<Rightarrow> bool \<times> 's"
    and unmap_op :: "'a \<Rightarrow> 's \<Rightarrow> 'f option \<times> 's"
  assumes map_fails: "map_op a x s = (False, s') \<Longrightarrow> good s \<Longrightarrow> s' = s"
    and map_works: "map_op a x s = (True, s') \<Longrightarrow> good s \<Longrightarrow> good s' \<and> managed a \<and> view s (page a) = None \<and>
      view s' = (view s)(page a := Some (entry x)) \<and> cache s' = (cache s)(page a := None)"
    and unmap_fails: "unmap_op a s = (None, s') \<Longrightarrow> good s \<Longrightarrow> s' = s \<and> \<not> (managed a \<and> view s (page a) \<noteq> None)"
    and unmap_works: "unmap_op a s = (Some f, s') \<Longrightarrow> good s \<Longrightarrow> good s' \<and> managed a \<and> (\<exists>t. view s (page a) = Some t \<and> f = frame t) \<and>
      view s' = (view s)(page a := None) \<and> cache s' = (cache s)(page a := None)"
begin

definition coherent :: "'s \<Rightarrow> bool" where
  "coherent s \<longleftrightarrow> (\<forall>p t. cache s p = Some t \<longrightarrow> view s p = Some t)"

lemma map_coherent: "good s \<Longrightarrow> coherent s \<Longrightarrow> good (snd (map_op a x s)) \<and> coherent (snd (map_op a x s))"
  using map_fails [of a x s] map_works [of a x s] by (cases "map_op a x s"; cases "fst (map_op a x s)") (auto simp: coherent_def)

lemma unmap_coherent: "good s \<Longrightarrow> coherent s \<Longrightarrow> good (snd (unmap_op a s)) \<and> coherent (snd (unmap_op a s))"
  using unmap_fails [of a s] unmap_works [of a s] by (cases "unmap_op a s"; cases "fst (unmap_op a s)") (auto simp: coherent_def)

lemma map_unmap:
  assumes "good s" and m: "map_op a x s = (True, s1)"
  shows "fst (unmap_op a s1) = Some (frame (entry x)) \<and> view (snd (unmap_op a s1)) = view s"
proof -
  note w = map_works [OF m assms(1)]
  obtain r s2 where u: "unmap_op a s1 = (r, s2)" by force
  show ?thesis
  proof (cases r)
    case None
    then show ?thesis using unmap_fails [of a s1 s2] u w by auto
  next
    case (Some f)
    then show ?thesis using unmap_works [of a s1 f s2] u w by (auto simp: fun_upd_idem)
  qed
qed

lemma unmanaged_fixed:
  assumes "good s" and "\<And>a. managed a \<Longrightarrow> page a \<noteq> p"
  shows "view (snd (map_op a x s)) p = view s p" and "view (snd (unmap_op a s)) p = view s p"
  using map_fails [of a x s] map_works [of a x s] unmap_fails [of a s] unmap_works [of a s] assms
  by (cases "map_op a x s"; cases "fst (map_op a x s)"; fastforce)
    (cases "unmap_op a s"; cases "fst (unmap_op a s)"; use unmap_fails [of a s] unmap_works [of a s] assms in fastforce)

end

definition page_view :: "vmm \<Rightarrow> nat \<Rightarrow> translation option" where
  "page_view v p = (if p < 1048576 \<and> bit (pte_at v p) 0
     then Some (pte_at v p AND PAGE_ADDRESS_MASK, bit (pte_at v p) 1, bit (pte_at v p) 2) else None)"

lemma walk_view: "vmm_wf dir tabs v \<Longrightarrow> tables_placed tabs \<Longrightarrow> mmu_walk dir tabs v va = page_view v (page_of va)"
  using page_of_less [of va] by (simp add: walk_page page_view_def Let_def)

lemma map_page_view:
  assumes "vmm_wf dir tabs v" "tables_placed tabs" "vmm_map_page tabs va pa flags v = (True, v')"
  shows "page_view v' = (page_view v)(page_of va := Some (pa, bit flags 0, bit flags 1))"
proof -
  note m = map_page_spec [OF assms]
  have pa: "pa AND PAGE_OFFSET_MASK = 0" using m(2) by (simp add: map_args_ok_def)
  have e: "(pa OR make_page_flags flags) AND PAGE_ADDRESS_MASK = pa" "bit (pa OR make_page_flags flags) n = bit (make_page_flags flags) n"
    if "n < 12" for n
    using entry_frame [OF page_flags(1) pa] entry_bits [OF page_flags(1), of pa flags n] mask_aligned [OF pa] that by simp_all
  have bits: "bit (pa OR make_page_flags flags) 0" "bit (pa OR make_page_flags flags) 1 = bit flags 0"
    "bit (pa OR make_page_flags flags) 2 = bit flags 1"
    using e(2) [of 0] e(2) [of 1] e(2) [of 2] page_flags [of flags] by simp_all
  have "page_view v' p = ((page_view v)(page_of va := Some (pa, bit flags 0, bit flags 1))) p" for p
    using m(4) [of p] page_of_less [of va] e(1) [of 0] bits
    by (cases "p = page_of va"; cases "p < 1048576") (simp_all add: page_view_def)
  then show ?thesis by (simp add: fun_eq_iff)
qed

lemma unmap_page_view:
  assumes "vmm_wf dir tabs v" "vmm_unmap_page va out v = (Some f, v')"
  shows "page_view v' = (page_view v)(page_of va := None)"
  using unmap_page_spec(5) [OF assms] by (auto simp: page_view_def fun_eq_iff)

interpretation vmm_space: address_space "\<lambda>v. vmm_wf dir tabs v \<and> tables_placed tabs" page_view tlb page_of dynamic_address_is_valid
  "\<lambda>(pa, flags). (pa, bit flags 0, bit flags 1)" fst "\<lambda>va (pa, flags). vmm_map_page tabs va pa flags" "\<lambda>va. vmm_unmap_page va True"
  for dir tabs
proof unfold_locales
  fix va :: u32 and x :: "u32 \<times> u32" and v v'
  assume m: "(case x of (pa, flags) \<Rightarrow> vmm_map_page tabs va pa flags) v = (False, v')" and g: "vmm_wf dir tabs v \<and> tables_placed tabs"
  then show "v' = v" using map_page_spec(3) [of dir tabs v va "fst x" "snd x" False v'] by (simp add: case_prod_beta)
next
  fix va :: u32 and x :: "u32 \<times> u32" and v v'
  assume m: "(case x of (pa, flags) \<Rightarrow> vmm_map_page tabs va pa flags) v = (True, v')" and g: "vmm_wf dir tabs v \<and> tables_placed tabs"
  then have m': "vmm_map_page tabs va (fst x) (snd x) v = (True, v')" by (simp add: case_prod_beta)
  show "(vmm_wf dir tabs v' \<and> tables_placed tabs) \<and> dynamic_address_is_valid va \<and> page_view v (page_of va) = None \<and>
      page_view v' = (page_view v)(page_of va := Some (case x of (pa, flags) \<Rightarrow> (pa, bit flags 0, bit flags 1))) \<and>
      tlb v' = (tlb v)(page_of va := None)"
    using map_page_spec [of dir tabs v va "fst x" "snd x" True v'] map_page_view [of dir tabs v va "fst x" "snd x" v'] g m'
    by (simp add: case_prod_beta map_args_ok_def) (simp add: page_view_def)
next
  fix va :: u32 and v v'
  assume "vmm_unmap_page va True v = (None, v')" and "vmm_wf dir tabs v \<and> tables_placed tabs"
  then show "v' = v \<and> \<not> (dynamic_address_is_valid va \<and> page_view v (page_of va) \<noteq> None)"
    using unmap_page_spec(2,3) [of dir tabs v va True None v'] by (auto simp: page_view_def)
next
  fix va f :: u32 and v v'
  assume u: "vmm_unmap_page va True v = (Some f, v')" and g: "vmm_wf dir tabs v \<and> tables_placed tabs"
  show "(vmm_wf dir tabs v' \<and> tables_placed tabs) \<and> dynamic_address_is_valid va \<and>
      (\<exists>t. page_view v (page_of va) = Some t \<and> f = fst t) \<and> page_view v' = (page_view v)(page_of va := None) \<and>
      tlb v' = (tlb v)(page_of va := None)"
    using unmap_page_spec [of dir tabs v va True "Some f" v'] unmap_page_view [of dir tabs v va True f v'] g u page_of_less [of va]
    by (simp add: page_view_def)
qed

section \<open>Runs of the kernel and the processor\<close>

text \<open>
  From boot on the kernel maps and unmaps pages while the processor caches the translations it
  walks and forgets cached ones, in any order.
\<close>

inductive vmm_reach :: "u32 \<Rightarrow> u32 \<Rightarrow> vmm \<Rightarrow> bool" for dir tabs where
  boot: "vmm_shape v \<Longrightarrow> \<not> enabled v \<Longrightarrow> vmm_reach dir tabs (snd (vmm_init dir tabs v))"
| map_page: "vmm_reach dir tabs v \<Longrightarrow> vmm_reach dir tabs (snd (vmm_map_page tabs va pa flags v))"
| unmap_page: "vmm_reach dir tabs v \<Longrightarrow> vmm_reach dir tabs (snd (vmm_unmap_page va True v))"
| fill: "vmm_reach dir tabs v \<Longrightarrow> vmm_reach dir tabs (v\<lparr>tlb := (tlb v)(page_of va := mmu_walk dir tabs v va)\<rparr>)"
| forget: "vmm_reach dir tabs v \<Longrightarrow> vmm_reach dir tabs (v\<lparr>tlb := (tlb v)(p := None)\<rparr>)"

lemma tlb_irrelevant: "vmm_wf dir tabs (v\<lparr>tlb := c\<rparr>) = vmm_wf dir tabs v" "page_view (v\<lparr>tlb := c\<rparr>) = page_view v"
  using vmm_inv_cong [of "v\<lparr>tlb := c\<rparr>" v tabs] by (simp_all add: vmm_wf_def page_view_def fun_eq_iff)

lemma identity_pte_view:
  assumes "0 < p" and "p < 1048576"
  shows "identity_pte p AND PAGE_ADDRESS_MASK = of_nat (p * VMM_PAGE_SIZE)" "bit (identity_pte p) 0" "bit (identity_pte p) 1"
proof -
  let ?a = "of_nat (p * VMM_PAGE_SIZE) :: u32"
  have "unat ?a = p * VMM_PAGE_SIZE" using assms by (intro unat_word_of_nat_small) simp
  then have al: "?a AND PAGE_OFFSET_MASK = 0" by (simp add: aligned_iff)
  show "identity_pte p AND PAGE_ADDRESS_MASK = of_nat (p * VMM_PAGE_SIZE)" "bit (identity_pte p) 0" "bit (identity_pte p) 1"
    using entry_bits [of 3 ?a] entry_frame [OF _ al, of 3] mask_aligned [OF al] assms by (simp_all add: identity_pte_def)
qed

definition identity_view :: "nat \<Rightarrow> translation option" where
  "identity_view p = (if 0 < p \<and> p < 32768 then Some (of_nat (p * VMM_PAGE_SIZE), True, False) else None)"

lemma init_view: "vmm_shape v \<Longrightarrow> \<not> enabled v \<Longrightarrow> tables_placed tabs \<Longrightarrow> page_view (snd (vmm_init dir tabs v)) = identity_view"
  using vmm_init_spec(3) [where dir = dir and v = v and tabs = tabs] identity_pte_view identity_pte_bits identity_pte_def [of 0]
  by (auto simp: page_view_def identity_view_def fun_eq_iff split: if_splits)

lemma dynamic_page_range: "dynamic_address_is_valid va \<Longrightarrow> 262144 \<le> page_of va \<and> page_of va < 983040"
  using dynamic_page(1,2) [of va] by (simp add: div_less_iff_less_mult less_eq_div_iff_mult_less_eq)

lemma reach_inv:
  assumes tb: "tables_placed tabs" and "vmm_reach dir tabs v"
  shows "vmm_wf dir tabs v \<and> vmm_space.coherent v \<and> (\<forall>p. p < 262144 \<or> 983040 \<le> p \<longrightarrow> page_view v p = identity_view p)"
  using assms(2)
proof induction
  case (boot v)
  then show ?case using vmm_init_spec [OF boot tb, where dir = dir] init_view [OF boot tb, of dir] by (simp add: vmm_space.coherent_def)
next
  case (map_page v va pa flags)
  have "page_of va' \<noteq> p" if "p < 262144 \<or> 983040 \<le> p" "dynamic_address_is_valid va'" for p va'
    using dynamic_page_range [OF that(2)] that(1) by auto
  then show ?case
    using map_page tb vmm_space.map_coherent [of dir tabs v va "(pa, flags)"] vmm_space.unmanaged_fixed(1) [of dir tabs v _ va "(pa, flags)"]
    by simp
next
  case (unmap_page v va)
  have "page_of va' \<noteq> p" if "p < 262144 \<or> 983040 \<le> p" "dynamic_address_is_valid va'" for p va'
    using dynamic_page_range [OF that(2)] that(1) by auto
  then show ?case
    using unmap_page tb vmm_space.unmap_coherent [of dir tabs v va] vmm_space.unmanaged_fixed(2) [of dir tabs v _ va] by simp
next
  case (fill v va)
  then show ?case using tb by (simp add: tlb_irrelevant vmm_space.coherent_def walk_view)
next
  case (forget v p)
  then show ?case by (simp add: tlb_irrelevant vmm_space.coherent_def)
qed

lemma allowed_flags: "flags AND NOT VMM_ALLOWED_FLAGS = 0 \<longleftrightarrow> flags < 4"
proof -
  have three: "VMM_ALLOWED_FLAGS = mask 2" by (simp add: mask_eq_exp_minus_1)
  have "flags AND NOT VMM_ALLOWED_FLAGS = 0 \<longleftrightarrow> flags = flags AND mask 2"
    unfolding three bit_eq_iff by (auto simp: bit_simps)
  also have "\<dots> \<longleftrightarrow> unat flags = unat flags mod 4" by (simp only: word_unat_eq_iff unat_and_mask) simp
  also have "\<dots> \<longleftrightarrow> flags < 4" by (auto simp: word_less_nat_alt eq_commute [of "unat flags"] mod_eq_self_iff_div_eq_0 div_eq_0_iff)
  finally show ?thesis .
qed

lemma page_offset: "va AND PAGE_OFFSET_MASK = of_nat (unat va mod VMM_PAGE_SIZE)"
  using unat_and_mask [of va 12] unfolding address_mask by (simp add: word_unat_eq_iff unat_of_nat)

lemma used_table_address:
  assumes "vmm_wf dir tabs v" and d: "d < PAGE_DIRECTORY_ENTRIES" "IDENTITY_TABLE_COUNT \<le> d" "bit (page_directory v ! d) 0"
  shows "\<exists>a :: u32. unat a div 4194304 = d \<and> page_view v (page_of a) \<noteq> None"
proof -
  have h: "has_table v d" using vmm_invD(4) [OF vmm_wf_inv [OF assms(1)] d(1)] d(3) by simp
  obtain e where e: "e < PAGE_TABLE_ENTRIES" "bit (pte_at v (d * PAGE_TABLE_ENTRIES + e)) 0"
    using tables_used_pte [OF _ d(1,2) h] assms(1) by (auto simp: vmm_wf_def)
  let ?p = "d * PAGE_TABLE_ENTRIES + e"
  have p: "?p < 1048576" using d(1) e(1) by simp
  then have u: "unat (of_nat (?p * VMM_PAGE_SIZE) :: u32) = ?p * VMM_PAGE_SIZE" by (intro unat_word_of_nat_small) simp
  have q: "?p * VMM_PAGE_SIZE div VMM_PAGE_SIZE = ?p" by simp
  have "?p * VMM_PAGE_SIZE div 4194304 = d" using e(1) by simp
  then show ?thesis
    using e(2) p by (intro exI [of _ "of_nat (?p * VMM_PAGE_SIZE)"]) (simp only: u q page_view_def, simp)
qed

text \<open>A machine before \<open>vmm_init\<close>, and after it.\<close>

definition blank_vmm :: vmm where
  "blank_vmm = \<lparr>page_directory = replicate PAGE_DIRECTORY_ENTRIES 0,
     page_tables = replicate PAGE_TABLE_COUNT (replicate PAGE_TABLE_ENTRIES 0),
     directory_table_indices = replicate PAGE_DIRECTORY_ENTRIES 0, table_in_use = replicate PAGE_TABLE_COUNT False,
     enabled = False, cr3 = 0, cr0 = 0x11, tlb = Map.empty\<rparr>"

definition booted_vmm :: vmm where
  "booted_vmm = snd (vmm_init 0x110000 0x111000 blank_vmm)"

lemma blank_vmm: "vmm_shape blank_vmm" "\<not> enabled blank_vmm" "tables_placed 0x111000"
  by (simp_all add: blank_vmm_def vmm_shape_def tables_placed_def)

lemma booted_vmm: "vmm_wf 0x110000 0x111000 booted_vmm" "page_view booted_vmm = identity_view" "\<not> table_in_use booted_vmm ! 32"
  using vmm_init_spec(2,5) [OF blank_vmm] init_view [OF blank_vmm] by (simp_all add: booted_vmm_def)

lemma booted_walk: "mmu_walk 0x110000 0x111000 booted_vmm va = identity_view (page_of va)"
  using walk_view [OF booted_vmm(1) blank_vmm(3)] booted_vmm(2) by simp

text \<open>One page mapped at the start of the dynamic range.\<close>

definition mapped_vmm :: vmm where
  "mapped_vmm = snd (vmm_map_page 0x111000 0x40000000 0x5000 1 booted_vmm)"

lemma dynamic_example: "dynamic_address_is_valid 0x40000000"
  by (simp add: dynamic_address_is_valid_def)

lemma mapped_vmm: "vmm_map_page 0x111000 0x40000000 0x5000 1 booted_vmm = (True, mapped_vmm)"
    "vmm_wf 0x110000 0x111000 mapped_vmm" "page_view mapped_vmm = identity_view(0x40000 \<mapsto> (0x5000, True, False))"
proof -
  note s = map_page_spec [OF booted_vmm(1) blank_vmm(3) surjective_pairing, of "0x40000000" "0x5000" 1]
  have "page_view booted_vmm 0x40000 = None" by (simp add: booted_vmm(2) identity_view_def)
  then have "\<not> bit (pte_at booted_vmm 0x40000) 0" by (simp add: page_view_def split: if_splits)
  then have "fst (vmm_map_page 0x111000 0x40000000 0x5000 1 booted_vmm)"
    using booted_vmm(3) dynamic_example by (simp add: s(2) map_args_ok_def table_available_def) (intro disjI2 exI [of _ 32], simp)
  then show m: "vmm_map_page 0x111000 0x40000000 0x5000 1 booted_vmm = (True, mapped_vmm)"
    by (simp add: mapped_vmm_def prod_eq_iff)
  then show "vmm_wf 0x110000 0x111000 mapped_vmm" "page_view mapped_vmm = identity_view(0x40000 \<mapsto> (0x5000, True, False))"
    using s(1) map_page_view [OF booted_vmm(1) blank_vmm(3) m] booted_vmm(2) by simp_all
qed

lemma mapped_walk: "mmu_walk 0x110000 0x111000 mapped_vmm va = (identity_view(0x40000 \<mapsto> (0x5000, True, False))) (page_of va)"
  using walk_view [OF mapped_vmm(2) blank_vmm(3)] mapped_vmm(3) by simp

section \<open>Properties\<close>

text \<open>
  (C6) Translation safety. In every state reachable from boot by mapping and unmapping pages, with
  the processor filling and forgetting cached translations at any moment: a cached translation is
  the one a fresh page walk would give, so no stale frame or permission is ever used; the
  first 128 MiB stay identity-mapped, writable and supervisor-only, but for page 0, which no
  access reaches; nothing is mapped between there and the dynamic range or above that range;
  and paging stays on, with supervisor write protection.
\<close>

theorem vmm_translation_safe:
  assumes "tables_placed tabs" and "vmm_reach dir tabs v"
  shows "(\<forall>va t. tlb v (page_of va) = Some t \<longrightarrow> mmu_walk dir tabs v va = Some t)
    \<and> (\<forall>va. unat va < 0x8000000 \<longrightarrow> mmu_walk dir tabs v va =
        (if page_of va = 0 then None else Some (of_nat (page_of va * VMM_PAGE_SIZE), True, False)))
    \<and> (\<forall>va. 0x8000000 \<le> unat va \<and> unat va < 0x40000000 \<or> 0xF0000000 \<le> unat va \<longrightarrow> mmu_walk dir tabs v va = None)
    \<and> cr3 v = dir \<and> bit (cr0 v) 31 \<and> bit (cr0 v) 16"
proof -
  note i = reach_inv [OF assms]
  have w: "mmu_walk dir tabs v va = page_view v (page_of va)" for va using i assms(1) by (simp add: walk_view)
  have "page_of va < 32768" if "unat va < 0x8000000" for va :: u32 using that by (simp add: div_less_iff_less_mult)
  moreover have "32768 \<le> page_of va \<and> page_of va < 262144 \<or> 983040 \<le> page_of va"
    if "0x8000000 \<le> unat va \<and> unat va < 0x40000000 \<or> 0xF0000000 \<le> unat va" for va :: u32
    using that by (auto simp: div_less_iff_less_mult less_eq_div_iff_mult_less_eq)
  ultimately show ?thesis
    using i unfolding w vmm_space.coherent_def by (fastforce simp: identity_view_def vmm_wf_def)
qed

theorem vmm_translation_safe_witness:
  "\<exists>v. tlb v 0x40000 = Some (0x5000, True, False) \<and> mmu_walk 0x110000 0x111000 v 0x40000ABC = Some (0x5000, True, False) \<and>
     mmu_walk 0x110000 0x111000 v 0 = None \<and> mmu_walk 0x110000 0x111000 v 0xB8FA0 = Some (0xB8000, True, False) \<and>
     mmu_walk 0x110000 0x111000 v 0xFEE00000 = None \<and> cr3 v = 0x110000"
proof -
  define v where "v = mapped_vmm\<lparr>tlb := (tlb mapped_vmm)(page_of 0x40000000 := mmu_walk 0x110000 0x111000 mapped_vmm 0x40000000)\<rparr>"
  have "vmm_reach 0x110000 0x111000 mapped_vmm"
    unfolding mapped_vmm_def booted_vmm_def by (intro vmm_reach.map_page vmm_reach.boot blank_vmm)
  then have r: "vmm_reach 0x110000 0x111000 v" unfolding v_def by (rule vmm_reach.fill)
  have t: "tlb v 0x40000 = Some (0x5000, True, False)" by (simp add: v_def mapped_walk)
  note safe = vmm_translation_safe [OF blank_vmm(3) r]
  have "mmu_walk 0x110000 0x111000 v 0x40000ABC = Some (0x5000, True, False)" using safe t by simp
  moreover have "mmu_walk 0x110000 0x111000 v 0 = None" "mmu_walk 0x110000 0x111000 v 0xB8FA0 = Some (0xB8000, True, False)"
    "mmu_walk 0x110000 0x111000 v 0xFEE00000 = None" "cr3 v = 0x110000" using safe by simp_all
  ultimately show ?thesis using t by blast
qed

text \<open>
  (C30) \<open>vmm_map_page\<close>, on every input. It succeeds exactly for a page-aligned address of the dynamic
  range, a page-aligned frame and no unknown flag, when the page is not mapped and its directory
  entry has a page table or a free one is left; it then adds that one translation with exactly
  the permissions asked for and drops the page from the translation cache. Otherwise nothing
  changes, not even the pool of page tables.
\<close>

theorem vmm_map_page_exact:
  assumes "vmm_wf dir tabs v" and "tables_placed tabs" and m: "vmm_map_page tabs va pa flags v = (ok, v')"
  shows "vmm_wf dir tabs v'
    \<and> (ok \<longleftrightarrow> dynamic_address_is_valid va \<and> unat pa mod VMM_PAGE_SIZE = 0 \<and> flags < 4 \<and> mmu_walk dir tabs v va = None \<and>
        (bit (page_directory v ! (unat va div 4194304)) 0 \<or> (\<exists>t < PAGE_TABLE_COUNT. IDENTITY_TABLE_COUNT \<le> t \<and> \<not> table_in_use v ! t)))
    \<and> (ok \<longrightarrow> tlb v' = (tlb v)(page_of va := None) \<and> (\<forall>a. mmu_walk dir tabs v' a =
        (if page_of a = page_of va then Some (pa, bit flags 0, bit flags 1) else mmu_walk dir tabs v a)))
    \<and> (\<not> ok \<longrightarrow> v' = v)"
proof -
  note s = map_page_spec [OF assms]
  have va: "unat va div 4194304 = page_of va div PAGE_TABLE_ENTRIES" by (simp flip: div_mult2_eq)
  have w: "mmu_walk dir tabs v a = page_view v (page_of a)" "mmu_walk dir tabs v' a = page_view v' (page_of a)" for a
    using assms(1,2) s(1) by (simp_all add: walk_view)
  have t: "table_available v (page_of va) \<longleftrightarrow> bit (page_directory v ! (unat va div 4194304)) 0 \<or>
      (\<exists>t < PAGE_TABLE_COUNT. IDENTITY_TABLE_COUNT \<le> t \<and> \<not> table_in_use v ! t)"
    using vmm_invD(4) [OF vmm_wf_inv [OF assms(1)] index_less(1) [of va]] unfolding va table_available_def by auto
  have a: "map_args_ok va pa flags \<longleftrightarrow> dynamic_address_is_valid va \<and> unat pa mod VMM_PAGE_SIZE = 0 \<and> flags < 4"
    by (simp only: map_args_ok_def aligned_iff allowed_flags)
  have none: "page_view v (page_of va) = None \<longleftrightarrow> \<not> bit (pte_at v (page_of va)) 0"
    using page_of_less [of va] by (simp add: page_view_def)
  have view: "page_view v' = (page_view v)(page_of va := Some (pa, bit flags 0, bit flags 1))" if ok
    using map_page_view [OF assms(1,2)] m that by simp
  show ?thesis unfolding w using s(1-3) s(5) view by (simp add: t a none)
qed

theorem vmm_map_page_exact_witness:
  "mmu_walk 0x110000 0x111000 mapped_vmm 0x40000FFF = Some (0x5000, True, False) \<and>
   mmu_walk 0x110000 0x111000 mapped_vmm 0x40001000 = None \<and>
   vmm_map_page 0x111000 0x40000000 0x9000 0 mapped_vmm = (False, mapped_vmm) \<and>
   vmm_map_page 0x111000 0x40001000 0x9004 0 mapped_vmm = (False, mapped_vmm)"
proof -
  note e1 = vmm_map_page_exact [OF booted_vmm(1) blank_vmm(3) mapped_vmm(1)]
    and e2 = vmm_map_page_exact [OF mapped_vmm(2) blank_vmm(3) surjective_pairing, of "0x40000000" "0x9000" 0]
    and e3 = vmm_map_page_exact [OF mapped_vmm(2) blank_vmm(3) surjective_pairing, of "0x40001000" "0x9004" 0]
  have "mmu_walk 0x110000 0x111000 mapped_vmm 0x40000FFF = Some (0x5000, True, False)"
    "mmu_walk 0x110000 0x111000 mapped_vmm 0x40001000 = None"
    using e1 by (simp_all add: booted_walk identity_view_def)
  moreover have "vmm_map_page 0x111000 0x40000000 0x9000 0 mapped_vmm = (False, mapped_vmm)"
    using e2 by (simp add: mapped_walk prod_eq_iff)
  moreover have "vmm_map_page 0x111000 0x40001000 0x9004 0 mapped_vmm = (False, mapped_vmm)"
    using e3 by (simp add: prod_eq_iff)
  ultimately show ?thesis by simp
qed

text \<open>
  (C31) \<open>vmm_unmap_page\<close>, on every input. It succeeds exactly for a mapped page-aligned address of the dynamic range
  and a non-null result pointer; it then returns the frame the page was mapped to, removes that
  translation alone, drops it from the translation cache, and gives the page table back
  when its last entry goes, so that no empty table is ever kept. Otherwise nothing changes.
\<close>

theorem vmm_unmap_page_exact:
  assumes "vmm_wf dir tabs v" and "tables_placed tabs" and u: "vmm_unmap_page va out v = (r, v')"
  shows "vmm_wf dir tabs v'
    \<and> (r \<noteq> None \<longleftrightarrow> out \<and> dynamic_address_is_valid va \<and> mmu_walk dir tabs v va \<noteq> None)
    \<and> (r \<noteq> None \<longrightarrow> r = map_option fst (mmu_walk dir tabs v va) \<and> tlb v' = (tlb v)(page_of va := None) \<and>
        (\<forall>a. mmu_walk dir tabs v' a = (if page_of a = page_of va then None else mmu_walk dir tabs v a)))
    \<and> (\<forall>d < PAGE_DIRECTORY_ENTRIES. IDENTITY_TABLE_COUNT \<le> d \<and> bit (page_directory v' ! d) 0 \<longrightarrow>
        (\<exists>a. unat a div 4194304 = d \<and> mmu_walk dir tabs v' a \<noteq> None))
    \<and> (r = None \<longrightarrow> v' = v)"
proof -
  note s = unmap_page_spec [OF assms(1) u]
  have w: "mmu_walk dir tabs v a = page_view v (page_of a)" "mmu_walk dir tabs v' a = page_view v' (page_of a)" for a
    using assms(1,2) s(1) by (simp_all add: walk_view)
  have some: "page_view v (page_of va) = (if bit (pte_at v (page_of va)) 0 then Some (pte_at v (page_of va) AND PAGE_ADDRESS_MASK,
      bit (pte_at v (page_of va)) 1, bit (pte_at v (page_of va)) 2) else None)"
    using page_of_less [of va] by (simp add: page_view_def)
  have view: "page_view v' = (page_view v)(page_of va := None)" if "r \<noteq> None"
    using unmap_page_view [OF assms(1)] u that by auto
  have used: "\<exists>a. unat a div 4194304 = d \<and> page_view v' (page_of a) \<noteq> None"
    if "d < PAGE_DIRECTORY_ENTRIES" "IDENTITY_TABLE_COUNT \<le> d \<and> bit (page_directory v' ! d) 0" for d
    using used_table_address [OF s(1) that(1)] that(2) by blast
  show ?thesis unfolding w using s(1-4) s(6) view used by (auto simp: some)
qed

theorem vmm_unmap_page_exact_witness:
  "fst (vmm_unmap_page 0x40000000 True mapped_vmm) = Some 0x5000 \<and>
   mmu_walk 0x110000 0x111000 (snd (vmm_unmap_page 0x40000000 True mapped_vmm)) 0x40000004 = None \<and>
   vmm_unmap_page 0x40000000 False mapped_vmm = (None, mapped_vmm) \<and>
   vmm_unmap_page 0x1000 True mapped_vmm = (None, mapped_vmm)"
proof -
  note e1 = vmm_unmap_page_exact [OF mapped_vmm(2) blank_vmm(3) surjective_pairing, of "0x40000000" True]
    and e2 = vmm_unmap_page_exact [OF mapped_vmm(2) blank_vmm(3) surjective_pairing, of "0x40000000" False]
    and e3 = vmm_unmap_page_exact [OF mapped_vmm(2) blank_vmm(3) surjective_pairing, of "0x1000" True]
  have "fst (vmm_unmap_page 0x40000000 True mapped_vmm) \<noteq> None" using e1 dynamic_example by (simp add: mapped_walk)
  with e1 have "fst (vmm_unmap_page 0x40000000 True mapped_vmm) = Some 0x5000"
    "mmu_walk 0x110000 0x111000 (snd (vmm_unmap_page 0x40000000 True mapped_vmm)) 0x40000004 = None"
    by (simp_all add: mapped_walk)
  moreover have "vmm_unmap_page 0x40000000 False mapped_vmm = (None, mapped_vmm)" using e2 by (simp add: prod_eq_iff)
  moreover have "vmm_unmap_page 0x1000 True mapped_vmm = (None, mapped_vmm)"
    using e3 by (simp add: prod_eq_iff dynamic_address_is_valid_def)
  ultimately show ?thesis by simp
qed

text \<open>
  The kernel's own \<open>vmm_translate\<close> agrees with the page walk of the processor on every address, offset
  included, and mapping a page and unmapping it returns the frame and restores every
  translation.
\<close>

theorem vmm_translate_round_trip:
  assumes "vmm_wf dir tabs v" and "tables_placed tabs"
  shows "vmm_translate va True v =
      map_option (\<lambda>(frame, w, u). frame + of_nat (unat va mod VMM_PAGE_SIZE)) (mmu_walk dir tabs v va)
    \<and> (fst (vmm_map_page tabs a pa flags v) \<longrightarrow>
        (let v1 = snd (vmm_map_page tabs a pa flags v); (r, v2) = vmm_unmap_page a True v1 in
         r = Some pa \<and> vmm_translate a True v1 = Some pa \<and> (\<forall>b. vmm_translate b True v2 = vmm_translate b True v)))"
proof -
  have w: "mmu_walk dir tabs v va = page_view v (page_of va)" using assms by (rule walk_view)
  have t: "vmm_translate b True u = map_option (\<lambda>(frame, w, x). frame + of_nat (unat b mod VMM_PAGE_SIZE)) (page_view u (page_of b))"
    if "vmm_wf dir tabs u" for b u
    using page_of_less [of b] by (simp add: translate_page [OF that] page_view_def page_offset)
  show ?thesis
  proof (intro conjI impI)
    show "vmm_translate va True v = map_option (\<lambda>(frame, w, u). frame + of_nat (unat va mod VMM_PAGE_SIZE)) (mmu_walk dir tabs v va)"
      unfolding w by (rule t [OF assms(1)])
  next
    assume ok: "fst (vmm_map_page tabs a pa flags v)"
    obtain v1 where m: "vmm_map_page tabs a pa flags v = (True, v1)" using ok by (metis prod.collapse)
    obtain r v2 where u: "vmm_unmap_page a True v1 = (r, v2)" by force
    note s = map_page_spec [OF assms m] and v = map_page_view [OF assms m]
    have al: "unat a mod VMM_PAGE_SIZE = 0" using s(2) by (simp add: map_args_ok_def dynamic_address_is_valid_def aligned_iff)
    have rt: "r = Some pa" "page_view v2 = page_view v"
      using vmm_space.map_unmap [of dir tabs v a "(pa, flags)" v1] assms m u by simp_all
    have "vmm_wf dir tabs v2" using unmap_page_spec(1) [OF s(1) u] .
    then show "let v1 = snd (vmm_map_page tabs a pa flags v); (r, v2) = vmm_unmap_page a True v1 in
         r = Some pa \<and> vmm_translate a True v1 = Some pa \<and> (\<forall>b. vmm_translate b True v2 = vmm_translate b True v)"
      using rt v al s(1) assms(1) by (simp add: m u t)
  qed
qed

theorem vmm_translate_round_trip_witness:
  "vmm_translate 0xB8FA0 True booted_vmm = Some 0xB8FA0 \<and> vmm_translate 0xFFF True booted_vmm = None \<and>
   vmm_translate 0x40000000 True mapped_vmm = Some 0x5000 \<and>
   vmm_translate 0x40000000 True (snd (vmm_unmap_page 0x40000000 True mapped_vmm)) = None"
  using vmm_translate_round_trip [OF booted_vmm(1) blank_vmm(3), of "0xB8FA0"]
    vmm_translate_round_trip [OF booted_vmm(1) blank_vmm(3), of "0xFFF"]
    vmm_translate_round_trip [OF booted_vmm(1) blank_vmm(3), of "0x40000000" "0x40000000" "0x5000" 1]
  by (simp add: booted_walk identity_view_def mapped_vmm(1) case_prod_beta)

end
