(* ===== verification/Byte_Memory.thy ===== *)
theory Byte_Memory
  imports Kernel_Prelude
begin

text \<open>
  Byte-addressed memory with the processor's little-endian accesses. Addresses in lemmas are natural
  numbers below the width, so that ranges compare by linear arithmetic.
\<close>

type_synonym memory = "u32 \<Rightarrow> u8"

definition load32 :: "memory \<Rightarrow> u32 \<Rightarrow> u32" where
  "load32 m a = ucast (m a) OR push_bit 8 (ucast (m (a + 1))) OR push_bit 16 (ucast (m (a + 2))) OR
     push_bit 24 (ucast (m (a + 3)))"

definition store32 :: "memory \<Rightarrow> u32 \<Rightarrow> u32 \<Rightarrow> memory" where
  "store32 m a v = m(a := ucast v, a + 1 := ucast (drop_bit 8 v), a + 2 := ucast (drop_bit 16 v),
     a + 3 := ucast (drop_bit 24 v))"

lemma unat_of_nat32: "x < 4294967296 \<Longrightarrow> unat (of_nat x :: u32) = x"
  by (simp add: unat_word_of_nat_small)

lemma of_nat_eq32: "x < 4294967296 \<Longrightarrow> y < 4294967296 \<Longrightarrow> (of_nat x :: u32) = of_nat y \<longleftrightarrow> x = y"
  by (metis unat_of_nat32)

lemma of_nat_offset32: "(of_nat x :: u32) + 1 = of_nat (x + 1)" "(of_nat x :: u32) + 2 = of_nat (x + 2)"
    "(of_nat x :: u32) + 3 = of_nat (x + 3)"
  by simp_all

lemma load_store_same: "load32 (store32 m a v) a = v"
proof (rule bit_eqI)
  fix n assume "possible_bit TYPE(u32) n"
  then have "n < 32" by simp
  then consider "n < 8" | "8 \<le> n" "n < 16" | "16 \<le> n" "n < 24" | "24 \<le> n" "n < 32" by linarith
  then show "bit (load32 (store32 m a v) a) n = bit v n"
    by cases (auto simp: load32_def store32_def bit_simps)
qed

lemma store_byte_other:
  "x + 4 \<le> 4294967296 \<Longrightarrow> z < 4294967296 \<Longrightarrow> z < x \<or> x + 4 \<le> z \<Longrightarrow> store32 m (of_nat x) v (of_nat z) = m (of_nat z)"
  unfolding store32_def of_nat_offset32
  by (simp only: fun_upd_apply of_nat_eq32) (auto simp: of_nat_eq32 simp del: of_nat_add of_nat_Suc)

lemma load_cong:
  assumes "y + 4 \<le> 4294967296" and "\<And>z. y \<le> z \<Longrightarrow> z < y + 4 \<Longrightarrow> m' (of_nat z) = m (of_nat z)"
  shows "load32 m' (of_nat y) = load32 m (of_nat y)"
  using assms(2) [of y] assms(2) [of "y + 1"] assms(2) [of "y + 2"] assms(2) [of "y + 3"]
  unfolding load32_def of_nat_offset32 by (simp del: of_nat_add of_nat_Suc)

lemma load_store_other:
  "x + 4 \<le> 4294967296 \<Longrightarrow> y + 4 \<le> 4294967296 \<Longrightarrow> x + 4 \<le> y \<or> y + 4 \<le> x \<Longrightarrow>
   load32 (store32 m (of_nat x) v) (of_nat y) = load32 m (of_nat y)"
  by (rule load_cong) (auto intro!: store_byte_other)

text \<open>Stack words: a push stores below the stack pointer, a pop loads above it.\<close>

definition push32 :: "u32 \<Rightarrow> u32 \<times> memory \<Rightarrow> u32 \<times> memory" where
  "push32 v = (\<lambda>(sp, m). (sp - 4, store32 m (sp - 4) v))"

definition pop32 :: "memory \<Rightarrow> u32 \<Rightarrow> u32 \<times> u32" where
  "pop32 m sp = (load32 m sp, sp + 4)"

text \<open>What a sequence of pushes leaves below an address, and what it keeps elsewhere.\<close>

lemma push_all:
  assumes "4 * length vs \<le> x" "x \<le> 4294967295"
  obtains m' where "fold push32 vs (of_nat x, m) = (of_nat (x - 4 * length vs), m')"
    "\<And>i. i < length vs \<Longrightarrow> load32 m' (of_nat (x - 4 * (i + 1))) = vs ! i"
    "\<And>z. z < 4294967296 \<Longrightarrow> z < x - 4 * length vs \<or> x \<le> z \<Longrightarrow> m' (of_nat z) = m (of_nat z)"
  using assms
proof (induction vs arbitrary: x m thesis)
  case Nil
  then show ?case by simp
next
  case (Cons v vs)
  let ?m = "store32 m (of_nat (x - 4)) v"
  have x: "4 \<le> x" "4 * length vs \<le> x - 4" "x - 4 \<le> 4294967295" using Cons.prems(2,3) by simp_all
  obtain m' where m': "fold push32 vs (of_nat (x - 4), ?m) = (of_nat (x - 4 - 4 * length vs), m')"
      "\<And>i. i < length vs \<Longrightarrow> load32 m' (of_nat (x - 4 - 4 * (i + 1))) = vs ! i"
      "\<And>z. z < 4294967296 \<Longrightarrow> z < x - 4 - 4 * length vs \<or> x - 4 \<le> z \<Longrightarrow> m' (of_nat z) = ?m (of_nat z)"
    by (rule Cons.IH [where m = ?m, OF _ x(2,3)]) (rule that, assumption+)
  have st: "push32 v (of_nat x, m) = (of_nat (x - 4), ?m)" using x(1) by (simp add: push32_def of_nat_diff)
  show ?case
  proof (rule Cons.prems(1) [of m'])
    show "fold push32 (v # vs) (of_nat x, m) = (of_nat (x - 4 * length (v # vs)), m')"
      using m'(1) by (simp add: st)
    show "load32 m' (of_nat (x - 4 * (i + 1))) = (v # vs) ! i" if "i < length (v # vs)" for i
    proof (cases i)
      case 0
      have "load32 m' (of_nat (x - 4)) = load32 ?m (of_nat (x - 4))"
        using x(1) Cons.prems(3) by (intro load_cong m'(3)) auto
      then show ?thesis by (simp add: 0 load_store_same)
    next
      case (Suc j)
      have "x - 4 * (i + 1) = x - 4 - 4 * (j + 1)" using Suc by simp
      then show ?thesis using m'(2) [of j] that Suc by simp
    qed
    show "m' (of_nat z) = m (of_nat z)" if "z < 4294967296" "z < x - 4 * length (v # vs) \<or> x \<le> z" for z
    proof -
      have "m' (of_nat z) = ?m (of_nat z)" using that x by (intro m'(3)) auto
      also have "\<dots> = m (of_nat z)" using that x Cons.prems(3) by (intro store_byte_other) auto
      finally show ?thesis .
    qed
  qed
qed

text \<open>A memory image given by the words stored in it.\<close>

fun word_image :: "(nat \<times> u32) list \<Rightarrow> memory" where
  "word_image [] = (\<lambda>_. 0)"
| "word_image ((a, v) # ws) = store32 (word_image ws) (of_nat a) v"

lemma load_word_image:
  assumes "\<forall>(b, v) \<in> set ws. 4 dvd b \<and> b < 4294967296" "4 dvd a" "a < 4294967296"
  shows "load32 (word_image ws) (of_nat a) = (case map_of ws a of None \<Rightarrow> 0 | Some v \<Rightarrow> v)"
  using assms
proof (induction ws)
  case Nil
  show ?case by (simp add: load32_def)
next
  case (Cons w ws)
  obtain b v where w: "w = (b, v)" by fastforce
  have sep: "b = a \<or> b + 4 \<le> a \<or> a + 4 \<le> b" "b + 4 \<le> 4294967296" "a + 4 \<le> 4294967296"
  proof -
    obtain i j where "b = 4 * i" "a = 4 * j" using Cons.prems w by (auto simp: dvd_def)
    then show "b = a \<or> b + 4 \<le> a \<or> a + 4 \<le> b" "b + 4 \<le> 4294967296" "a + 4 \<le> 4294967296" using Cons.prems w by auto
  qed
  show ?case
  proof (cases "b = a")
    case True
    then show ?thesis by (simp add: w load_store_same)
  next
    case False
    then show ?thesis using Cons sep by (simp add: w load_store_other)
  qed
qed

end
