(* ===== verification/Heap.thy ===== *)
theory Heap
  imports Byte_Memory "HOL-Library.Monad_Syntax"
begin

text \<open>
  The kernel heap, \<open>kernel/mm/heap.c\<close>: a first-fit allocator whose block headers live in the same byte
  memory as the data it hands out. The address the linker gives to \<open>heap_arena\<close> is the argument
  \<open>arena\<close>. The loops that follow \<open>next\<close> pointers are partial functions, \<open>None\<close> when they do not
  return.
\<close>

section \<open>State\<close>

abbreviation KHEAP_ARENA_SIZE :: nat where "KHEAP_ARENA_SIZE \<equiv> 262144"
abbreviation BLOCK_SIZE :: nat where "BLOCK_SIZE \<equiv> 32"
abbreviation HEAP_BLOCK_FREE :: u32 where "HEAP_BLOCK_FREE \<equiv> 1"
abbreviation HEAP_BLOCK_ALLOCATED :: u32 where "HEAP_BLOCK_ALLOCATED \<equiv> 2"
abbreviation HEAP_BLOCK_MAGIC :: u32 where "HEAP_BLOCK_MAGIC \<equiv> 0x48454150"
abbreviation SIZE_MAX :: u32 where "SIZE_MAX \<equiv> 0xFFFFFFFF"

text \<open>The header of a block, 20 bytes padded to 32 by its alignment, as memory holds it.\<close>

record heap_block =
  magic :: u32
  state :: u32
  payload_size :: u32
  previous :: u32
  "next" :: u32

definition block_at :: "memory \<Rightarrow> u32 \<Rightarrow> heap_block" where
  "block_at m block = \<lparr>magic = load32 m block, state = load32 m (block + 4), payload_size = load32 m (block + 8),
     previous = load32 m (block + 12), next = load32 m (block + 16)\<rparr>"

definition put_magic :: "u32 \<Rightarrow> u32 \<Rightarrow> memory \<Rightarrow> memory" where "put_magic block v m = store32 m block v"
definition put_state :: "u32 \<Rightarrow> u32 \<Rightarrow> memory \<Rightarrow> memory" where "put_state block v m = store32 m (block + 4) v"
definition put_payload_size :: "u32 \<Rightarrow> u32 \<Rightarrow> memory \<Rightarrow> memory" where "put_payload_size block v m = store32 m (block + 8) v"
definition put_previous :: "u32 \<Rightarrow> u32 \<Rightarrow> memory \<Rightarrow> memory" where "put_previous block v m = store32 m (block + 12) v"
definition put_next :: "u32 \<Rightarrow> u32 \<Rightarrow> memory \<Rightarrow> memory" where "put_next block v m = store32 m (block + 16) v"

record heap =
  heap_memory :: memory
  first_block :: u32
  heap_initialized :: bool

record heap_stats =
  total_bytes :: u32
  free_bytes :: u32
  largest_free_block :: u32
  allocated_blocks :: u32

section \<open>Inspection\<close>

definition arena_begin :: "u32 \<Rightarrow> u32" where
  "arena_begin arena = arena"

definition arena_end :: "u32 \<Rightarrow> u32" where
  "arena_end arena = arena_begin arena + of_nat KHEAP_ARENA_SIZE"

definition block_payload :: "u32 \<Rightarrow> u32" where
  "block_payload block = block + of_nat BLOCK_SIZE"

definition align_request :: "u32 \<Rightarrow> bool \<Rightarrow> u32 option" where
  "align_request bytes out = (if \<not> out \<or> bytes = 0 \<or> bytes > SIZE_MAX - 15 then None else Some ((bytes + 15) AND NOT 15))"

text \<open>What \<open>inspect_heap\<close> adds to its measurements for a block.\<close>

definition count_block :: "bool \<Rightarrow> heap_block \<Rightarrow> heap_stats \<Rightarrow> heap_stats option" where
  "count_block previous_was_free block measured =
     (if state block = HEAP_BLOCK_FREE then
        if previous_was_free \<or> free_bytes measured > SIZE_MAX - payload_size block then None
        else
          let measured = measured\<lparr>free_bytes := free_bytes measured + payload_size block\<rparr> in
          Some (if payload_size block > largest_free_block measured
                then measured\<lparr>largest_free_block := payload_size block\<rparr> else measured)
      else if allocated_blocks measured = 0xFFFFFFFF then None
      else Some (measured\<lparr>allocated_blocks := allocated_blocks measured + 1\<rparr>))"

text \<open>The loop of \<open>inspect_heap\<close>; it ends because it counts at most 8192 blocks. The result is the
  number of payload bytes, of blocks, and the measurements.\<close>

function inspect_blocks ::
  "memory \<Rightarrow> u32 \<Rightarrow> u32 \<Rightarrow> u32 \<Rightarrow> u32 \<Rightarrow> u32 \<Rightarrow> bool \<Rightarrow> heap_stats \<Rightarrow> (u32 \<times> u32 \<times> heap_stats) option" where
  "inspect_blocks m end_address prev cursor payload_bytes block_count previous_was_free measured =
     (if block_count \<ge> 8192 \<or> cursor AND 15 \<noteq> 0 \<or> cursor > end_address - of_nat BLOCK_SIZE then None
      else
        let block = block_at m cursor in
        if magic block \<noteq> HEAP_BLOCK_MAGIC \<or> state block \<noteq> HEAP_BLOCK_FREE \<and> state block \<noteq> HEAP_BLOCK_ALLOCATED \<or>
           previous block \<noteq> prev \<or> payload_size block < 16 \<or> payload_size block AND 15 \<noteq> 0 then None
        else
          let payload_start = cursor + of_nat BLOCK_SIZE in
          if payload_size block > end_address - payload_start then None
          else
            let block_end = payload_start + payload_size block in
            if payload_bytes > SIZE_MAX - payload_size block then None
            else
              let payload_bytes = payload_bytes + payload_size block;
                  is_free = (state block = HEAP_BLOCK_FREE)
              in case count_block previous_was_free block measured of
                None \<Rightarrow> None
              | Some measured \<Rightarrow>
                  if next block = 0 then
                    if block_end \<noteq> end_address then None else Some (payload_bytes, block_count + 1, measured)
                  else if block_end \<ge> end_address \<or> next block \<noteq> block_end then None
                  else inspect_blocks m end_address cursor block_end payload_bytes (block_count + 1) is_free measured)"
  by pat_completeness auto

termination
proof (relation "measure (\<lambda>(m, e, p, c, b, n, f, s). 8192 - unat n)", goal_cases)
  case (2 m end_address prev cursor payload_bytes block_count previous_was_free measured)
  then have "unat block_count < 8192" by (simp add: word_le_nat_alt not_le)
  then have "unat (block_count + 1) = unat block_count + 1" by (simp add: unat_add_no_wrap)
  with \<open>unat block_count < 8192\<close> show ?case by simp
qed simp

declare inspect_blocks.simps [simp del]

definition inspect_heap :: "u32 \<Rightarrow> heap \<Rightarrow> heap_stats option" where
  "inspect_heap arena h =
     (let begin = arena_begin arena; end_address = arena_end arena;
          total_capacity = of_nat KHEAP_ARENA_SIZE - of_nat BLOCK_SIZE;
          measured = \<lparr>total_bytes = total_capacity, free_bytes = 0, largest_free_block = 0, allocated_blocks = 0\<rparr> in
      if \<not> heap_initialized h \<or> first_block h \<noteq> begin \<or> begin > 0xFFFFFFFF - of_nat KHEAP_ARENA_SIZE then None
      else
        case inspect_blocks (heap_memory h) end_address 0 begin 0 0 False measured of
          None \<Rightarrow> None
        | Some (payload_bytes, block_count, measured) \<Rightarrow>
            if block_count = 0 \<or> block_count - 1 > SIZE_MAX div of_nat BLOCK_SIZE then None
            else
              let extra_metadata = (block_count - 1) * of_nat BLOCK_SIZE in
              if payload_bytes > total_capacity \<or> extra_metadata \<noteq> total_capacity - payload_bytes \<or>
                 free_bytes measured > total_capacity \<or> largest_free_block measured > free_bytes measured then None
              else Some measured)"

section \<open>Allocation and release\<close>

definition invalidate_block :: "u32 \<Rightarrow> memory \<Rightarrow> memory" where
  "invalidate_block block m = put_next block 0 (put_previous block 0 (put_payload_size block 0 (put_state block 0
     (put_magic block 0 m))))"

definition merge_with_next :: "u32 \<Rightarrow> memory \<Rightarrow> u32 \<times> memory" where
  "merge_with_next left m =
     (let right = next (block_at m left); after = next (block_at m right);
          m = put_payload_size left (payload_size (block_at m left) + (of_nat BLOCK_SIZE + payload_size (block_at m right))) m;
          m = put_next left after m;
          m = (if after \<noteq> 0 then put_previous after left m else m)
      in (left, invalidate_block right m))"

definition kheap_init :: "u32 \<Rightarrow> heap \<Rightarrow> bool \<times> heap" where
  "kheap_init arena h =
     (let m = fold (\<lambda>index m. m(arena + of_nat index := 0)) [0..<KHEAP_ARENA_SIZE] (heap_memory h);
          first = arena;
          m = put_magic first HEAP_BLOCK_MAGIC m;
          m = put_state first HEAP_BLOCK_FREE m;
          m = put_payload_size first (of_nat KHEAP_ARENA_SIZE - of_nat BLOCK_SIZE) m;
          m = put_previous first 0 m;
          m = put_next first 0 m;
          h = h\<lparr>heap_memory := m, first_block := first, heap_initialized := True\<rparr>
      in if inspect_heap arena h = None then (False, h\<lparr>heap_initialized := False, first_block := 0\<rparr>) else (True, h))"

text \<open>The search of \<open>kmalloc\<close>, 0 when it runs off the list, and what it does to the block it finds.\<close>

partial_function (option) first_fit :: "memory \<Rightarrow> u32 \<Rightarrow> u32 \<Rightarrow> u32 option" where
  "first_fit m aligned_size block =
     (if block = 0 then Some 0
      else if state (block_at m block) = HEAP_BLOCK_FREE \<and> payload_size (block_at m block) \<ge> aligned_size then Some block
      else first_fit m aligned_size (next (block_at m block)))"

definition take_block :: "u32 \<Rightarrow> u32 \<Rightarrow> memory \<Rightarrow> memory" where
  "take_block block aligned_size m =
     (let remaining = payload_size (block_at m block) - aligned_size;
          m = (if remaining \<ge> of_nat BLOCK_SIZE + 16 then
                 let split = block_payload block + aligned_size;
                     m = put_magic split HEAP_BLOCK_MAGIC m;
                     m = put_state split HEAP_BLOCK_FREE m;
                     m = put_payload_size split (remaining - of_nat BLOCK_SIZE) m;
                     m = put_previous split block m;
                     m = put_next split (next (block_at m block)) m;
                     m = (if next (block_at m split) \<noteq> 0 then put_previous (next (block_at m split)) split m else m);
                     m = put_payload_size block aligned_size m
                 in put_next block split m
               else m)
      in put_state block HEAP_BLOCK_ALLOCATED m)"

definition kmalloc :: "u32 \<Rightarrow> u32 \<Rightarrow> heap \<Rightarrow> (u32 \<times> heap) option" where
  "kmalloc arena bytes h =
     (case align_request bytes True of
        None \<Rightarrow> Some (0, h)
      | Some aligned_size \<Rightarrow>
          if inspect_heap arena h = None then Some (0, h)
          else do {
            block \<leftarrow> first_fit (heap_memory h) aligned_size (first_block h);
            Some (if block = 0 then (0, h)
                  else (block_payload block, h\<lparr>heap_memory := take_block block aligned_size (heap_memory h)\<rparr>))
          })"

definition kcalloc :: "u32 \<Rightarrow> u32 \<Rightarrow> u32 \<Rightarrow> heap \<Rightarrow> (u32 \<times> heap) option" where
  "kcalloc arena count bytes h =
     (if count = 0 \<or> bytes = 0 \<or> bytes > SIZE_MAX div count then Some (0, h)
      else do {
        let total = count * bytes;
        (memory, h) \<leftarrow> kmalloc arena total h;
        Some (if memory = 0 then (0, h)
              else (memory, h\<lparr>heap_memory := fold (\<lambda>index m. m(memory + of_nat index := 0)) [0..<unat total] (heap_memory h)\<rparr>))
      })"

partial_function (option) find_payload :: "memory \<Rightarrow> u32 \<Rightarrow> u32 \<Rightarrow> u32 option" where
  "find_payload m address block =
     (if block = 0 then Some 0
      else if block_payload block = address then Some block
      else find_payload m address (next (block_at m block)))"

text \<open>What \<open>kfree\<close> does to an allocated block.\<close>

definition release_block :: "u32 \<Rightarrow> memory \<Rightarrow> memory" where
  "release_block block m =
     (let m = put_state block HEAP_BLOCK_FREE m;
          left = previous (block_at m block);
          (block, m) = (if left \<noteq> 0 \<and> state (block_at m left) = HEAP_BLOCK_FREE then merge_with_next left m else (block, m));
          right = next (block_at m block)
      in if right \<noteq> 0 \<and> state (block_at m right) = HEAP_BLOCK_FREE then snd (merge_with_next block m) else m)"

definition kfree :: "u32 \<Rightarrow> u32 \<Rightarrow> heap \<Rightarrow> (bool \<times> heap) option" where
  "kfree arena pointer h =
     (if pointer = 0 \<or> pointer < arena_begin arena + of_nat BLOCK_SIZE \<or> pointer \<ge> arena_end arena \<or>
         pointer AND 15 \<noteq> 0 \<or> inspect_heap arena h = None then Some (False, h)
      else do {
        block \<leftarrow> find_payload (heap_memory h) pointer (first_block h);
        Some (if block = 0 \<or> state (block_at (heap_memory h) block) \<noteq> HEAP_BLOCK_ALLOCATED then (False, h)
              else (True, h\<lparr>heap_memory := release_block block (heap_memory h)\<rparr>))
      })"

definition kheap_get_stats :: "u32 \<Rightarrow> bool \<Rightarrow> heap \<Rightarrow> heap_stats option" where
  "kheap_get_stats arena out h = (if \<not> out then None else inspect_heap arena h)"

definition kheap_validate :: "u32 \<Rightarrow> heap \<Rightarrow> bool" where
  "kheap_validate arena h \<longleftrightarrow> inspect_heap arena h \<noteq> None"

section \<open>Headers in memory\<close>

abbreviation blk :: "memory \<Rightarrow> nat \<Rightarrow> heap_block" where
  "blk m x \<equiv> block_at m (of_nat x)"

lemma of_nat_offsets: "(of_nat x :: u32) + 4 = of_nat (x + 4)" "(of_nat x :: u32) + 8 = of_nat (x + 8)"
    "(of_nat x :: u32) + 12 = of_nat (x + 12)" "(of_nat x :: u32) + 16 = of_nat (x + 16)"
  by simp_all

lemmas put_defs = put_magic_def put_state_def put_payload_size_def put_previous_def put_next_def

lemma put_bytes:
  assumes "x + 32 \<le> 4294967296" and "z < 4294967296" and "z < x \<or> x + 20 \<le> z"
  shows "put_magic (of_nat x) v m (of_nat z) = m (of_nat z)" "put_state (of_nat x) v m (of_nat z) = m (of_nat z)"
    "put_payload_size (of_nat x) v m (of_nat z) = m (of_nat z)" "put_previous (of_nat x) v m (of_nat z) = m (of_nat z)"
    "put_next (of_nat x) v m (of_nat z) = m (of_nat z)"
  unfolding put_defs of_nat_offsets using assms by (auto intro!: store_byte_other simp del: of_nat_add)

lemma blk_cong:
  assumes "y + 32 \<le> 4294967296" and "\<And>z. y \<le> z \<Longrightarrow> z < y + 20 \<Longrightarrow> m' (of_nat z) = m (of_nat z)"
  shows "blk m' y = blk m y"
proof -
  have "load32 m' (of_nat (y + k)) = load32 m (of_nat (y + k))" if "k + 4 \<le> 20" for k
    using that assms by (intro load_cong) auto
  from this [of 0] this [of 4] this [of 8] this [of 12] this [of 16] show ?thesis
    unfolding block_at_def of_nat_offsets by (simp del: of_nat_add)
qed

lemma blk_put_same:
  assumes "x + 32 \<le> 4294967296"
  shows "blk (put_magic (of_nat x) v m) x = (blk m x)\<lparr>magic := v\<rparr>" "blk (put_state (of_nat x) v m) x = (blk m x)\<lparr>state := v\<rparr>"
    "blk (put_payload_size (of_nat x) v m) x = (blk m x)\<lparr>payload_size := v\<rparr>"
    "blk (put_previous (of_nat x) v m) x = (blk m x)\<lparr>previous := v\<rparr>" "blk (put_next (of_nat x) v m) x = (blk m x)\<lparr>next := v\<rparr>"
  using assms unfolding put_defs block_at_def of_nat_offsets
  by (simp_all add: load_store_same load_store_other del: of_nat_add)

lemma blk_put_other:
  assumes "x + 32 \<le> 4294967296" "y + 32 \<le> 4294967296" "x + 32 \<le> y \<or> y + 32 \<le> x"
  shows "blk (put_magic (of_nat x) v m) y = blk m y" "blk (put_state (of_nat x) v m) y = blk m y"
    "blk (put_payload_size (of_nat x) v m) y = blk m y"
    "blk (put_previous (of_nat x) v m) y = blk m y" "blk (put_next (of_nat x) v m) y = blk m y"
  using assms by (auto intro!: blk_cong put_bytes)

section \<open>Chains of blocks\<close>

text \<open>
  A block is its state and its payload size. \<open>chain m a p bs z\<close>: from address \<open>a\<close> on the memory holds
  the headers of the blocks \<open>bs\<close> one after the other, the first linked back to \<open>p\<close> and the last
  linked on to \<open>z\<close>.
\<close>

type_synonym block = "bool \<times> nat"

definition header :: "bool \<Rightarrow> nat \<Rightarrow> u32 \<Rightarrow> u32 \<Rightarrow> heap_block" where
  "header f n p z = \<lparr>magic = HEAP_BLOCK_MAGIC, state = (if f then HEAP_BLOCK_FREE else HEAP_BLOCK_ALLOCATED),
     payload_size = of_nat n, previous = p, next = z\<rparr>"

fun span :: "block list \<Rightarrow> nat" where
  "span [] = 0"
| "span ((f, n) # bs) = BLOCK_SIZE + n + span bs"

fun chain :: "memory \<Rightarrow> nat \<Rightarrow> u32 \<Rightarrow> block list \<Rightarrow> u32 \<Rightarrow> bool" where
  "chain m a p [] z = True"
| "chain m a p ((f, n) # bs) z \<longleftrightarrow>
     blk m a = header f n p (if bs = [] then z else of_nat (a + BLOCK_SIZE + n)) \<and> chain m (a + BLOCK_SIZE + n) (of_nat a) bs z"

fun last_addr :: "nat \<Rightarrow> u32 \<Rightarrow> block list \<Rightarrow> u32" where
  "last_addr a p [] = p"
| "last_addr a p ((f, n) # bs) = last_addr (a + BLOCK_SIZE + n) (of_nat a) bs"

lemma span_append [simp]: "span (xs @ ys) = span xs + span ys"
  by (induction xs rule: span.induct) auto

lemma chain_append:
  "chain m a p (xs @ ys) z \<longleftrightarrow> chain m a p xs (if ys = [] then z else of_nat (a + span xs)) \<and>
     chain m (a + span xs) (last_addr a p xs) ys z"
proof (induction xs arbitrary: a p rule: span.induct)
  case (2 f n bs)
  then show ?case by (cases bs) (auto simp: add.assoc simp del: of_nat_add)
qed simp

lemma chain_bytes:
  assumes "a + span bs \<le> 4294967296" and "\<And>z. a \<le> z \<Longrightarrow> z < a + span bs \<Longrightarrow> m' (of_nat z) = m (of_nat z)"
  shows "chain m' a p bs e = chain m a p bs e"
  using assms
proof (induction bs arbitrary: a p rule: span.induct)
  case (2 f n bs)
  have "blk m' a = blk m a" using 2(2,3) by (intro blk_cong) auto
  with 2(1) [of "a + BLOCK_SIZE + n"] 2(2,3) show ?case by (simp del: of_nat_add)
qed simp

subsection \<open>Following the links\<close>

abbreviation fits :: "nat \<Rightarrow> block \<Rightarrow> bool" where
  "fits sz b \<equiv> fst b \<and> sz \<le> snd b"

lemma of_nat_nonzero32: "0 < a \<Longrightarrow> a < 4294967296 \<Longrightarrow> (of_nat a :: u32) \<noteq> 0"
  using of_nat_eq32 [of a 0] by simp

lemma of_nat_le32: "x < 4294967296 \<Longrightarrow> y < 4294967296 \<Longrightarrow> (of_nat x :: u32) \<le> of_nat y \<longleftrightarrow> x \<le> y"
  by (simp add: word_le_nat_alt unat_of_nat32)

lemma first_fit_step:
  assumes "chain m a p ((f, n) # bs) 0" "0 < a" "a + span ((f, n) # bs) < 4294967296" "sz < 4294967296"
  shows "first_fit m (of_nat sz) (of_nat a) = (if fits sz (f, n) then Some (of_nat a)
    else if bs = [] then Some 0 else first_fit m (of_nat sz) (of_nat (a + BLOCK_SIZE + n)))"
  using assms of_nat_nonzero32 [of a] of_nat_le32 [of sz n] first_fit.simps [of m "of_nat sz" 0]
  by (subst first_fit.simps) (simp add: header_def)

lemma first_fit_found:
  assumes "chain m a p (xs @ (True, n) # ys) 0" "0 < a" "a + span (xs @ (True, n) # ys) < 4294967296" "sz \<le> n"
    and "\<forall>b \<in> set xs. \<not> fits sz b"
  shows "first_fit m (of_nat sz) (of_nat a) = Some (of_nat (a + span xs))"
  using assms
proof (induction xs arbitrary: a p rule: span.induct)
  case 1
  then show ?case using first_fit_step [of m a p True n ys sz] by simp
next
  case (2 f k bs)
  then show ?case using first_fit_step [of m a p f k "bs @ (True, n) # ys" sz]
    by (auto simp: add.assoc simp del: of_nat_add)
qed

lemma first_fit_none:
  assumes "chain m a p bs 0" "0 < a" "a + span bs < 4294967296" "sz < 4294967296" "bs \<noteq> []" and "\<forall>b \<in> set bs. \<not> fits sz b"
  shows "first_fit m (of_nat sz) (of_nat a) = Some 0"
  using assms
proof (induction bs arbitrary: a p rule: span.induct)
  case (2 f k bs)
  then show ?case using first_fit_step [of m a p f k bs sz] by (auto simp: add.assoc simp del: of_nat_add)
qed simp

lemma find_payload_step:
  assumes "chain m a p ((f, n) # bs) 0" "0 < a" "a + span ((f, n) # bs) < 4294967296" "t < 4294967296"
  shows "find_payload m (of_nat t) (of_nat a) = (if t = a + BLOCK_SIZE then Some (of_nat a)
    else if bs = [] then Some 0 else find_payload m (of_nat t) (of_nat (a + BLOCK_SIZE + n)))"
  using assms of_nat_nonzero32 [of a] of_nat_eq32 [of "a + BLOCK_SIZE" t] find_payload.simps [of m "of_nat t" 0]
  by (subst find_payload.simps) (auto simp: header_def block_payload_def)

lemma find_payload_found:
  assumes "chain m a p (xs @ (f, n) # ys) 0" "0 < a" "a + span (xs @ (f, n) # ys) < 4294967296" "t = a + span xs + BLOCK_SIZE"
  shows "find_payload m (of_nat t) (of_nat a) = Some (of_nat (a + span xs))"
  using assms
proof (induction xs arbitrary: a p rule: span.induct)
  case 1
  then show ?case using find_payload_step [of m a p f n ys t] by simp
next
  case (2 g k bs)
  have "find_payload m (of_nat t) (of_nat (a + BLOCK_SIZE + k)) = Some (of_nat (a + BLOCK_SIZE + k + span bs))"
    using 2(2-5) by (intro 2(1)) (auto simp del: of_nat_add)
  with 2(2-5) find_payload_step [of m a p g k "bs @ (f, n) # ys" t] show ?case by (simp add: add.assoc del: of_nat_add)
qed

text \<open>The addresses of the headers.\<close>

fun addrs :: "nat \<Rightarrow> block list \<Rightarrow> nat list" where
  "addrs a [] = []"
| "addrs a ((f, n) # bs) = a # addrs (a + BLOCK_SIZE + n) bs"

lemma find_payload_none:
  assumes "chain m a p bs 0" "0 < a" "a + span bs < 4294967296" "t < 4294967296" "bs \<noteq> []" and "\<forall>x \<in> set (addrs a bs). t \<noteq> x + BLOCK_SIZE"
  shows "find_payload m (of_nat t) (of_nat a) = Some 0"
  using assms
proof (induction bs arbitrary: a p rule: span.induct)
  case (2 f k bs)
  then show ?case using find_payload_step [of m a p f k bs t] by (auto simp: add.assoc simp del: of_nat_add)
qed simp

lemma addrs_split: "x \<in> set (addrs a bs) \<longleftrightarrow> (\<exists>xs f n ys. bs = xs @ (f, n) # ys \<and> x = a + span xs)"
proof (induction a bs rule: addrs.induct)
  case (2 a f n bs)
  show ?case
  proof
    assume "x \<in> set (addrs a ((f, n) # bs))"
    then consider "x = a" | xs g k ys where "bs = xs @ (g, k) # ys" "x = a + BLOCK_SIZE + n + span xs" using 2 by auto
    then show "\<exists>xs g k ys. (f, n) # bs = xs @ (g, k) # ys \<and> x = a + span xs"
    proof cases
      case 1
      then show ?thesis by (intro exI [of _ "[]"]) auto
    next
      case (2 xs g k ys)
      then show ?thesis by (intro exI [of _ "(f, n) # xs"] exI [of _ g] exI [of _ k] exI [of _ ys]) simp
    qed
  next
    assume "\<exists>xs g k ys. (f, n) # bs = xs @ (g, k) # ys \<and> x = a + span xs"
    then obtain xs g k ys where "(f, n) # bs = xs @ (g, k) # ys" "x = a + span xs" by blast
    then show "x \<in> set (addrs a ((f, n) # bs))" using 2 by (cases xs) auto
  qed
qed simp

subsection \<open>Changing blocks\<close>

lemma chain_middle:
  assumes "chain m a p (xs @ us @ ys) e" "x = a + span xs" "us \<noteq> []"
  shows "chain m x (last_addr a p xs) us (if ys = [] then e else of_nat (x + span us))"
    and "chain m a p xs (of_nat x)" and "chain m (x + span us) (last_addr x (last_addr a p xs) us) ys e"
  using assms unfolding chain_append [of m a p xs] chain_append [of m "a + span xs" _ us] by (auto simp del: of_nat_add)

text \<open>How far a change reaches into the block after it: the link back in that header.\<close>

definition link :: "block list \<Rightarrow> nat" where
  "link ys = (if ys = [] then 0 else 20)"

lemma link_le: "link ys \<le> 20"
  by (simp add: link_def)

text \<open>The middle of a chain is replaced by blocks that span the same bytes.\<close>

lemma chain_replace:
  assumes c: "chain m a p (xs @ us @ ys) e" and sp: "span vs = span us" and ne: "us \<noteq> []" "vs \<noteq> []"
    and le: "a + span (xs @ us @ ys) \<le> 4294967296" and x: "x = a + span xs"
    and frame: "\<And>t. t < 4294967296 \<Longrightarrow> t < x \<or> x + span us + 20 \<le> t \<Longrightarrow> m' (of_nat t) = m (of_nat t)"
    and mid: "chain m' x (last_addr a p xs) vs (if ys = [] then e else of_nat (x + span us))"
    and nxt: "\<And>g k zs. ys = (g, k) # zs \<Longrightarrow>
      blk m' (x + span us) = (blk m (x + span us))\<lparr>previous := last_addr x (last_addr a p xs) vs\<rparr>"
  shows "chain m' a p (xs @ vs @ ys) e"
proof -
  note parts = chain_middle [OF c x ne(1)]
  have "chain m' a p xs (of_nat x) = chain m a p xs (of_nat x)" using le frame x by (intro chain_bytes) auto
  moreover have "chain m' (x + span us) (last_addr x (last_addr a p xs) vs) ys e"
  proof (cases ys)
    case (Cons b zs)
    obtain g k where b: "b = (g, k)" by force
    have "chain m' (x + span us + BLOCK_SIZE + k) (of_nat (x + span us)) zs e =
        chain m (x + span us + BLOCK_SIZE + k) (of_nat (x + span us)) zs e"
      using le frame x Cons b by (intro chain_bytes) auto
    with parts nxt [OF Cons [unfolded b]] show ?thesis using Cons b by (auto simp: header_def simp del: of_nat_add)
  qed simp
  ultimately show ?thesis
    using parts(2) mid ne(2) sp
    by (cases "ys = []") (simp_all add: chain_append flip: x del: of_nat_add)
qed

lemma put_state_chain:
  assumes c: "chain m a p (xs @ (f, n) # ys) e" and le: "a + span (xs @ (f, n) # ys) \<le> 4294967296"
  shows "chain (put_state (of_nat (a + span xs)) (if g then HEAP_BLOCK_FREE else HEAP_BLOCK_ALLOCATED) m) a p (xs @ (g, n) # ys) e"
proof -
  let ?x = "a + span xs"
  let ?m' = "put_state (of_nat ?x) (if g then HEAP_BLOCK_FREE else HEAP_BLOCK_ALLOCATED) m"
  have c': "chain m a p (xs @ [(f, n)] @ ys) e" and le': "a + span (xs @ [(f, n)] @ ys) \<le> 4294967296" using c le by simp_all
  note parts = chain_middle [OF c' refl]
  have b: "?x + 32 \<le> 4294967296" using le by simp
  have "chain ?m' a p (xs @ [(g, n)] @ ys) e"
  proof (rule chain_replace [OF c' _ _ _ le' refl])
    show "?m' (of_nat t) = m (of_nat t)" if "t < 4294967296" "t < ?x \<or> ?x + span [(f, n)] + 20 \<le> t" for t
      using that b by (intro put_bytes(2)) auto
    show "chain ?m' ?x (last_addr a p xs) [(g, n)] (if ys = [] then e else of_nat (?x + span [(f, n)]))"
      using parts(1) blk_put_same(2) [OF b, of _ m] by (simp add: header_def del: of_nat_add)
    show "blk ?m' (?x + span [(f, n)]) = (blk m (?x + span [(f, n)]))\<lparr>previous := last_addr ?x (last_addr a p xs) [(g, n)]\<rparr>"
      if "ys = (h, k) # zs" for h k zs
      using parts(3) that le' blk_put_other(2) [of ?x "?x + span [(f, n)]"] by (simp add: header_def del: of_nat_add)
  qed simp_all
  then show ?thesis by simp
qed

lemma merge_chain:
  assumes c: "chain m a p (xs @ (f, n) # (g, k) # ys) 0" and a: "0 < a"
    and le: "a + span (xs @ (f, n) # (g, k) # ys) < 4294967296" and x: "x = a + span xs"
  obtains m' where "merge_with_next (of_nat x) m = (of_nat x, m')" "chain m' a p (xs @ (f, n + BLOCK_SIZE + k) # ys) 0"
    "\<And>t. t < 4294967296 \<Longrightarrow> t < x \<or> x + BLOCK_SIZE + n + BLOCK_SIZE + k + link ys \<le> t \<Longrightarrow> m' (of_nat t) = m (of_nat t)"
proof -
  let ?us = "[(f, n), (g, k)]" and ?r = "x + BLOCK_SIZE + n" and ?z = "x + BLOCK_SIZE + n + BLOCK_SIZE + k"
  have c': "chain m a p (xs @ ?us @ ys) 0" and le': "a + span (xs @ ?us @ ys) \<le> 4294967296" using c le by simp_all
  note parts = chain_middle [OF c' x]
  let ?after = "if ys = [] then 0 else of_nat ?z :: u32"
  have x0: "blk m x = header f n (last_addr a p xs) (of_nat ?r)" and r0: "blk m ?r = header g k (of_nat x) ?after"
    using parts(1) by (simp_all add: add.assoc del: of_nat_add)
  have b: "x + 32 \<le> 4294967296" "?r + 32 \<le> 4294967296" "ys \<noteq> [] \<Longrightarrow> ?z + 32 \<le> 4294967296"
    using le x by (cases ys; auto)+
  have sep: "x + 32 \<le> ?r" "?r + 32 \<le> ?z" "x + 32 \<le> ?z" by simp_all
  define m1 where "m1 = put_next (of_nat x) ?after (put_payload_size (of_nat x) (of_nat (n + BLOCK_SIZE + k)) m)"
  define m2 where "m2 = (if ys = [] then m1 else put_previous (of_nat ?z) (of_nat x) m1)"
  define m' where "m' = invalidate_block (of_nat ?r) m2"
  have z0: "(of_nat ?z :: u32) \<noteq> 0" if "ys \<noteq> []" using b(3) [OF that] a x by (intro of_nat_nonzero32) auto
  have sum: "(of_nat n :: u32) + (of_nat BLOCK_SIZE + of_nat k) = of_nat (n + BLOCK_SIZE + k)" by simp
  have merge: "merge_with_next (of_nat x) m = (of_nat x, m')"
    using z0 sum by (simp add: merge_with_next_def Let_def x0 r0 header_def m'_def m2_def m1_def del: of_nat_add)
  have bytes: "m' (of_nat t) = m (of_nat t)" if "t < 4294967296" "t < x \<or> ?z + link ys \<le> t" for t
    using that b by (cases "ys = []") (auto simp: link_def m'_def m2_def m1_def invalidate_block_def put_bytes simp del: of_nat_add)
  have x1: "blk m' x = header f (n + BLOCK_SIZE + k) (last_addr a p xs) ?after"
    using b sep x0
    by (cases "ys = []") (simp_all add: m'_def m2_def m1_def invalidate_block_def blk_put_same blk_put_other header_def del: of_nat_add)
  have z1: "blk m' ?z = (blk m ?z)\<lparr>previous := of_nat x\<rparr>" if "ys \<noteq> []"
    using b sep that by (simp add: m'_def m2_def m1_def invalidate_block_def blk_put_same blk_put_other del: of_nat_add)
  have "chain m' a p (xs @ [(f, n + BLOCK_SIZE + k)] @ ys) 0"
    using bytes x1 z1 link_le [of ys] by (intro chain_replace [OF c' _ _ _ le' x]) (auto simp: add.assoc simp del: of_nat_add)
  with merge bytes show ?thesis by (intro that [of m']) simp_all
qed

text \<open>A free block is taken, whole or split.\<close>

definition taken :: "nat \<Rightarrow> nat \<Rightarrow> block list" where
  "taken sz n = (if sz + BLOCK_SIZE + 16 \<le> n then [(False, sz), (True, n - sz - BLOCK_SIZE)] else [(False, n)])"

lemma take_block_chain:
  assumes c: "chain m a p (xs @ (True, n) # ys) 0" and a: "0 < a"
    and le: "a + span (xs @ (True, n) # ys) < 4294967296" and x: "x = a + span xs" and sz: "sz \<le> n"
  defines "m' \<equiv> take_block (of_nat x) (of_nat sz) m"
  shows "chain m' a p (xs @ taken sz n @ ys) 0"
    and "t < 4294967296 \<Longrightarrow> t < x \<or> x + BLOCK_SIZE \<le> t \<and> t < x + BLOCK_SIZE + sz \<or> x + BLOCK_SIZE + n + link ys \<le> t \<Longrightarrow>
      m' (of_nat t) = m (of_nat t)"
proof -
  have c': "chain m a p (xs @ [(True, n)] @ ys) 0" and le': "a + span (xs @ [(True, n)] @ ys) \<le> 4294967296" using c le by simp_all
  note parts = chain_middle [OF c' x]
  let ?z = "x + BLOCK_SIZE + n" and ?s = "x + BLOCK_SIZE + sz"
  let ?after = "if ys = [] then 0 else of_nat ?z :: u32"
  have x0: "blk m x = header True n (last_addr a p xs) ?after"
    using parts(1) by (simp add: add.assoc del: of_nat_add)
  have lt: "x + BLOCK_SIZE + n < 4294967296" using le x by simp
  have rem: "(of_nat n :: u32) - of_nat sz = of_nat (n - sz)" using sz by simp
  have "m' = put_state (of_nat x) HEAP_BLOCK_ALLOCATED m \<and> chain m' a p (xs @ taken sz n @ ys) 0" if ns: "\<not> sz + BLOCK_SIZE + 16 \<le> n"
  proof -
    have "\<not> 48 \<le> (of_nat (n - sz) :: u32)" using ns lt by (simp add: word_le_nat_alt unat_of_nat32 del: of_nat_diff)
    then have "m' = put_state (of_nat x) HEAP_BLOCK_ALLOCATED m"
      unfolding m'_def take_block_def Let_def x0 by (simp add: header_def rem del: of_nat_diff)
    with put_state_chain [OF c, of False] le ns x show ?thesis by (simp add: taken_def)
  qed
  moreover have "chain m' a p (xs @ taken sz n @ ys) 0 \<and> (\<forall>t < 4294967296. t < x \<or> x + BLOCK_SIZE \<le> t \<and> t < ?s \<or> ?z + link ys \<le> t \<longrightarrow>
      m' (of_nat t) = m (of_nat t))" if sp: "sz + BLOCK_SIZE + 16 \<le> n"
  proof -
    define m1 where "m1 = put_next (of_nat ?s) ?after (put_previous (of_nat ?s) (of_nat x) (put_payload_size (of_nat ?s)
      (of_nat (n - sz - BLOCK_SIZE)) (put_state (of_nat ?s) HEAP_BLOCK_FREE (put_magic (of_nat ?s) HEAP_BLOCK_MAGIC m))))"
    define m2 where "m2 = (if ys = [] then m1 else put_previous (of_nat ?z) (of_nat ?s) m1)"
    have b: "x + 32 \<le> 4294967296" "?s + 32 \<le> 4294967296" "ys \<noteq> [] \<Longrightarrow> ?z + 32 \<le> 4294967296"
      using le x sp by (cases ys; auto)+
    have sep: "x + 32 \<le> ?s" "?s + 32 \<le> ?z" "x + 32 \<le> ?z" using sp by simp_all
    have z0: "(of_nat ?z :: u32) \<noteq> 0" if "ys \<noteq> []" using b(3) [OF that] a x by (intro of_nat_nonzero32) auto
    have s1: "next (blk m1 ?s) = ?after" using b by (simp add: m1_def blk_put_same del: of_nat_add)
    have nx: "next (blk (put_previous (of_nat ?s) (of_nat x) (put_payload_size (of_nat ?s) (of_nat (n - sz - BLOCK_SIZE))
        (put_state (of_nat ?s) HEAP_BLOCK_FREE (put_magic (of_nat ?s) HEAP_BLOCK_MAGIC m)))) x) = ?after"
      using b sep x0 by (simp add: blk_put_other header_def del: of_nat_add)
    have m': "m' = put_state (of_nat x) HEAP_BLOCK_ALLOCATED (put_next (of_nat x) (of_nat ?s) (put_payload_size (of_nat x) (of_nat sz) m2))"
    proof -
      have sel: "payload_size (blk m x) = of_nat n" by (simp add: x0 header_def)
      have big: "of_nat BLOCK_SIZE + 16 \<le> (of_nat (n - sz) :: u32)"
        using sp lt by (simp add: word_le_nat_alt unat_of_nat32 del: of_nat_diff)
      have r: "of_nat (n - sz) - of_nat BLOCK_SIZE = (of_nat (n - sz - BLOCK_SIZE) :: u32)" using sp by simp
      have sw: "block_payload (of_nat x) + of_nat sz = of_nat ?s" by (simp add: block_payload_def)
      show ?thesis
        unfolding m'_def take_block_def Let_def sel rem if_P [OF big] r sw nx m1_def [symmetric] s1
        using z0 by (simp add: m2_def del: of_nat_add)
    qed
    have bytes: "m' (of_nat t) = m (of_nat t)" if "t < 4294967296" "t < x \<or> x + BLOCK_SIZE \<le> t \<and> t < ?s \<or> ?z + link ys \<le> t" for t
      using that b sep by (cases "ys = []") (auto simp: link_def m' m2_def m1_def put_bytes simp del: of_nat_add)
    have x1: "blk m' x = header False sz (last_addr a p xs) (of_nat ?s)"
      using b sep x0 by (cases "ys = []") (simp_all add: m' m2_def m1_def blk_put_same blk_put_other header_def del: of_nat_add)
    have s2: "blk m' ?s = header True (n - sz - BLOCK_SIZE) (of_nat x) ?after"
      using b sep by (cases "ys = []") (simp_all add: m' m2_def m1_def blk_put_same blk_put_other header_def del: of_nat_add of_nat_diff)
    have z1: "blk m' ?z = (blk m ?z)\<lparr>previous := of_nat ?s\<rparr>" if "ys \<noteq> []"
      using b sep that by (simp add: m' m2_def m1_def blk_put_same blk_put_other del: of_nat_add)
    have "chain m' a p (xs @ [(False, sz), (True, n - sz - BLOCK_SIZE)] @ ys) 0"
      using bytes x1 s2 z1 sp link_le [of ys] by (intro chain_replace [OF c' _ _ _ le' x]) (auto simp: add.assoc simp del: of_nat_add of_nat_diff)
    with sp bytes show ?thesis by (simp add: taken_def)
  qed
  ultimately show "chain m' a p (xs @ taken sz n @ ys) 0"
    and "t < 4294967296 \<Longrightarrow> t < x \<or> x + BLOCK_SIZE \<le> t \<and> t < ?s \<or> ?z + link ys \<le> t \<Longrightarrow> m' (of_nat t) = m (of_nat t)"
    using lt put_bytes(2) [of x t HEAP_BLOCK_ALLOCATED m] by (cases "sz + BLOCK_SIZE + 16 \<le> n"; auto)+
qed

section \<open>What the inspection accepts\<close>

definition block_ok :: "block \<Rightarrow> bool" where
  "block_ok b \<longleftrightarrow> 16 \<le> snd b \<and> snd b mod 16 = 0"

abbreviation apart :: "block list \<Rightarrow> bool" where
  "apart \<equiv> successively (\<lambda>b c. \<not> (fst b \<and> fst c))"

lemma low_bits_zero: "(w :: u32) AND 15 = 0 \<longleftrightarrow> unat w mod 16 = 0"
  using unat_and_mask [of w 4] by (simp add: mask_numerals flip: unat_eq_zero)

lemma inspect_step:
  assumes e: "e < 4294967296" "BLOCK_SIZE \<le> e" and a: "a \<le> e"
    and w_def: "w = blk m a" and n_def: "n = unat (payload_size w)"
  shows "inspect_blocks m (of_nat e) p (of_nat a) pb bc pf st = Some r \<longleftrightarrow>
    bc < 8192 \<and> a mod 16 = 0 \<and> a + BLOCK_SIZE \<le> e \<and> magic w = HEAP_BLOCK_MAGIC \<and> state w \<in> {HEAP_BLOCK_FREE, HEAP_BLOCK_ALLOCATED} \<and>
    previous w = p \<and> 16 \<le> n \<and> n mod 16 = 0 \<and> a + BLOCK_SIZE + n \<le> e \<and> pb \<le> SIZE_MAX - payload_size w \<and>
    (\<exists>st'. count_block pf w st = Some st' \<and>
      (if next w = 0 then a + BLOCK_SIZE + n = e \<and> r = (pb + payload_size w, bc + 1, st')
       else a + BLOCK_SIZE + n < e \<and> next w = of_nat (a + BLOCK_SIZE + n) \<and>
         inspect_blocks m (of_nat e) (of_nat a) (of_nat (a + BLOCK_SIZE + n)) (pb + payload_size w) (bc + 1)
           (state w = HEAP_BLOCK_FREE) st' = Some r))"
proof -
  have ua: "unat (of_nat a :: u32) = a" "unat (of_nat e :: u32) = e" using a e by (simp_all add: unat_of_nat32)
  have e32: "(of_nat e :: u32) - of_nat BLOCK_SIZE = of_nat (e - BLOCK_SIZE)" using e by simp
  have cur: "(of_nat a :: u32) > of_nat (e - BLOCK_SIZE) \<longleftrightarrow> \<not> a + BLOCK_SIZE \<le> e"
    using a e by (auto simp: word_less_nat_alt unat_of_nat32 ua simp del: of_nat_diff)
  have al: "(of_nat a :: u32) AND 15 \<noteq> 0 \<longleftrightarrow> a mod 16 \<noteq> 0" "payload_size w AND 15 \<noteq> 0 \<longleftrightarrow> n mod 16 \<noteq> 0"
    using low_bits_zero [of "of_nat a"] low_bits_zero [of "payload_size w"] by (simp_all add: ua n_def w_def)
  have pn: "payload_size w = of_nat n" by (simp add: n_def w_def)
  have sm: "payload_size w < 16 \<longleftrightarrow> \<not> 16 \<le> n" by (auto simp: word_less_nat_alt n_def w_def)
  have en: "a + BLOCK_SIZE \<le> e \<Longrightarrow> payload_size w > of_nat e - (of_nat a + of_nat BLOCK_SIZE) \<longleftrightarrow> \<not> a + BLOCK_SIZE + n \<le> e"
  proof -
    assume "a + BLOCK_SIZE \<le> e"
    then have "(of_nat e :: u32) - (of_nat a + of_nat BLOCK_SIZE) = of_nat (e - (a + BLOCK_SIZE))" by simp
    then show ?thesis using e \<open>a + BLOCK_SIZE \<le> e\<close>
      by (auto simp: word_less_nat_alt unat_of_nat32 n_def w_def simp del: of_nat_diff of_nat_add)
  qed
  have be: "(of_nat a :: u32) + of_nat BLOCK_SIZE + payload_size w = of_nat (a + BLOCK_SIZE + n)" by (simp add: pn)
  have fin: "(of_nat (a + BLOCK_SIZE + n) :: u32) \<noteq> of_nat e \<longleftrightarrow> a + BLOCK_SIZE + n \<noteq> e"
    "(of_nat (a + BLOCK_SIZE + n) :: u32) \<ge> of_nat e \<longleftrightarrow> \<not> a + BLOCK_SIZE + n < e" if "a + BLOCK_SIZE + n \<le> e"
    using that e by (auto simp: of_nat_eq32 word_le_nat_alt unat_of_nat32 simp del: of_nat_add)
  define G where "G \<longleftrightarrow> bc < 8192 \<and> a mod 16 = 0 \<and> a + BLOCK_SIZE \<le> e"
  define H where "H \<longleftrightarrow> magic w = HEAP_BLOCK_MAGIC \<and> state w \<in> {HEAP_BLOCK_FREE, HEAP_BLOCK_ALLOCATED} \<and> previous w = p \<and> 16 \<le> n \<and> n mod 16 = 0"
  note unfold = inspect_blocks.simps [of m "of_nat e" p "of_nat a" pb bc pf st, unfolded Let_def w_def [symmetric] e32 cur al sm be]
  consider "\<not> G" | "G" "\<not> H" | "G" "H" "\<not> a + BLOCK_SIZE + n \<le> e"
    | "G" "H" "a + BLOCK_SIZE + n \<le> e" "\<not> pb \<le> SIZE_MAX - payload_size w"
    | "G" "H" "a + BLOCK_SIZE + n \<le> e" "pb \<le> SIZE_MAX - payload_size w" by blast
  then show ?thesis
  proof cases
    case 1
    then have "inspect_blocks m (of_nat e) p (of_nat a) pb bc pf st = None" by (subst unfold) (auto simp: not_less G_def)
    then show ?thesis using 1 by (auto simp: G_def H_def)
  next
    case 2
    then have "inspect_blocks m (of_nat e) p (of_nat a) pb bc pf st = None" by (subst unfold) (auto simp: not_le G_def H_def)
    then show ?thesis using 2 by (auto simp: G_def H_def)
  next
    case 3
    then have "inspect_blocks m (of_nat e) p (of_nat a) pb bc pf st = None" by (subst unfold) (use en in \<open>auto simp: not_le G_def H_def\<close>)
    then show ?thesis using 3 by (auto simp: G_def H_def)
  next
    case 4
    then have "inspect_blocks m (of_nat e) p (of_nat a) pb bc pf st = None" by (subst unfold) (use en in \<open>auto simp: not_le G_def H_def\<close>)
    then show ?thesis using 4 by (auto simp: G_def H_def)
  next
    case 5
    have g1: "\<not> (8192 \<le> bc \<or> a mod 16 \<noteq> 0 \<or> \<not> a + BLOCK_SIZE \<le> e)" using 5(1) by (auto simp: G_def)
    have g2: "\<not> (magic w \<noteq> HEAP_BLOCK_MAGIC \<or> state w \<noteq> HEAP_BLOCK_FREE \<and> state w \<noteq> HEAP_BLOCK_ALLOCATED \<or>
        previous w \<noteq> p \<or> \<not> 16 \<le> n \<or> n mod 16 \<noteq> 0)" using 5(2) by (auto simp: H_def)
    have g3: "\<not> of_nat e - (of_nat a + of_nat BLOCK_SIZE) < payload_size w" using 5(1,3) en by (auto simp: G_def)
    have g4: "\<not> SIZE_MAX - payload_size w < pb" using 5(4) by auto
    have "inspect_blocks m (of_nat e) p (of_nat a) pb bc pf st = (case count_block pf w st of None \<Rightarrow> None | Some measured \<Rightarrow>
        if next w = 0 then if a + BLOCK_SIZE + n \<noteq> e then None else Some (pb + payload_size w, bc + 1, measured)
        else if \<not> a + BLOCK_SIZE + n < e \<or> next w \<noteq> of_nat (a + BLOCK_SIZE + n) then None
        else inspect_blocks m (of_nat e) (of_nat a) (of_nat (a + BLOCK_SIZE + n)) (pb + payload_size w) (bc + 1)
          (state w = HEAP_BLOCK_FREE) measured)"
      unfolding unfold if_not_P [OF g1] if_not_P [OF g2] if_not_P [OF g3] if_not_P [OF g4] by (simp only: fin [OF 5(3)])
    then show ?thesis using 5 by (auto simp: G_def H_def simp del: of_nat_add split: option.splits)
  qed
qed

text \<open>Acceptance means a chain of sound blocks that fills the range.\<close>

definition tiles :: "memory \<Rightarrow> nat \<Rightarrow> u32 \<Rightarrow> nat \<Rightarrow> bool \<Rightarrow> block list \<Rightarrow> bool" where
  "tiles m a p e pf bs \<longleftrightarrow> bs \<noteq> [] \<and> chain m a p bs 0 \<and> list_all block_ok bs \<and> a + span bs = e \<and> apart bs \<and>
     \<not> (pf \<and> fst (hd bs))"

lemma inspect_sound:
  assumes "e < 4294967296" "BLOCK_SIZE \<le> e" "a \<le> e"
    and "inspect_blocks m (of_nat e) p (of_nat a) pb bc pf st = Some r"
  shows "\<exists>bs. tiles m a p e pf bs"
  using assms(3,4)
proof (induction "e - a" arbitrary: a p pb bc pf st rule: less_induct)
  case less
  define w where "w = blk m a"
  define n where "n = unat (payload_size w)"
  define f where "f \<longleftrightarrow> state w = HEAP_BLOCK_FREE"
  note st = less.prems(2) [unfolded inspect_step [OF assms(1,2) less.prems(1) w_def n_def]]
  have w: "w = header f n p (next w)" using st by (auto simp: header_def f_def n_def intro!: heap_block.equality)
  have ok: "block_ok (f, n)" and le: "a + BLOCK_SIZE + n \<le> e" using st by (auto simp: block_ok_def)
  obtain st' where c: "count_block pf w st = Some st'" and
    r: "if next w = 0 then a + BLOCK_SIZE + n = e \<and> r = (pb + payload_size w, bc + 1, st')
       else a + BLOCK_SIZE + n < e \<and> next w = of_nat (a + BLOCK_SIZE + n) \<and>
         inspect_blocks m (of_nat e) (of_nat a) (of_nat (a + BLOCK_SIZE + n)) (pb + payload_size w) (bc + 1) f st' = Some r"
    using st unfolding f_def by blast
  have pf: "\<not> (pf \<and> f)" using c by (auto simp: count_block_def f_def split: if_splits)
  show ?case
  proof (cases "next w = 0")
    case True
    with w ok r pf show ?thesis by (intro exI [of _ "[(f, n)]"]) (simp add: tiles_def w_def [symmetric])
  next
    case False
    have "\<exists>bs. tiles m (a + BLOCK_SIZE + n) (of_nat a) e f bs"
      using r False by (intro less.hyps [where pb = "pb + payload_size w" and bc = "bc + 1" and pf = f and st = st']) (auto simp del: of_nat_add)
    then obtain bs where bs: "tiles m (a + BLOCK_SIZE + n) (of_nat a) e f bs" by blast
    then obtain b cs where [simp]: "bs = b # cs" by (cases bs) (auto simp: tiles_def)
    show ?thesis using bs w ok False r pf
      by (intro exI [of _ "(f, n) # bs"]) (auto simp: tiles_def w_def [symmetric] simp del: of_nat_add)
  qed
qed

text \<open>The measurements of a list of blocks.\<close>

definition free_sum :: "block list \<Rightarrow> nat" where
  "free_sum bs = sum_list (map snd (filter fst bs))"

definition largest :: "block list \<Rightarrow> nat" where
  "largest bs = foldr max (map snd (filter fst bs)) 0"

definition live_count :: "block list \<Rightarrow> nat" where
  "live_count bs = length (filter (\<lambda>b. \<not> fst b) bs)"

definition payload_sum :: "block list \<Rightarrow> nat" where
  "payload_sum bs = sum_list (map snd bs)"

lemmas measure_defs = free_sum_def largest_def live_count_def payload_sum_def

definition measured_stats :: "nat \<Rightarrow> nat \<Rightarrow> nat \<Rightarrow> heap_stats" where
  "measured_stats F L A = \<lparr>total_bytes = of_nat (KHEAP_ARENA_SIZE - BLOCK_SIZE), free_bytes = of_nat F,
     largest_free_block = of_nat L, allocated_blocks = of_nat A\<rparr>"

lemma span_payload: "span bs = BLOCK_SIZE * length bs + payload_sum bs"
  by (induction bs rule: span.induct) (auto simp: payload_sum_def)

lemma measure_le: "free_sum bs \<le> payload_sum bs" "largest bs \<le> free_sum bs" "live_count bs \<le> length bs"
proof -
  show "free_sum bs \<le> payload_sum bs" by (induction bs) (auto simp: measure_defs)
  show "largest bs \<le> free_sum bs" by (induction bs) (auto simp: measure_defs)
qed (simp add: live_count_def)

lemma count_block_stats:
  assumes "\<not> (pf \<and> f)" "F + n < 4294967296" "L < 4294967296" "A + 1 < 4294967296"
  shows "count_block pf (header f n p z) (measured_stats F L A) =
    Some (if f then measured_stats (F + n) (max L n) A else measured_stats F L (A + 1))"
proof -
  have w: "unat (of_nat n :: u32) = n" "unat (of_nat F :: u32) = F" "unat (of_nat L :: u32) = L" "unat (of_nat A :: u32) = A"
    using assms by (simp_all add: unat_of_nat32)
  have "\<not> SIZE_MAX - of_nat n < (of_nat F :: u32)"
    using assms w by (simp add: word_less_nat_alt unat_sub_no_wrap word_le_nat_alt)
  moreover have "(of_nat A :: u32) \<noteq> SIZE_MAX" using assms w by (auto simp: word_unat_eq_iff)
  ultimately show ?thesis
    using assms(1) w by (auto simp: count_block_def header_def measured_stats_def Let_def word_less_nat_alt max_def)
qed

lemma inspect_complete:
  assumes "e < 4294967296" "BLOCK_SIZE \<le> e"
  shows "tiles m a p e pf bs \<Longrightarrow> a mod 16 = 0 \<Longrightarrow> N + length bs \<le> 8192 \<Longrightarrow> P + payload_sum bs < 4294967296 \<Longrightarrow>
    F \<le> P \<Longrightarrow> L \<le> P \<Longrightarrow> A \<le> N \<Longrightarrow>
    inspect_blocks m (of_nat e) p (of_nat a) (of_nat P) (of_nat N) pf (measured_stats F L A) =
      Some (of_nat (P + payload_sum bs), of_nat (N + length bs),
        measured_stats (F + free_sum bs) (max L (largest bs)) (A + live_count bs))"
proof (induction bs arbitrary: a p pf P N F L A)
  case (Cons b bs)
  obtain f n where b: "b = (f, n)" by force
  define w where "w = header f n p (if bs = [] then 0 else of_nat (a + BLOCK_SIZE + n))"
  have t: "blk m a = w" "block_ok (f, n)" "a + BLOCK_SIZE + n + span bs = e" "\<not> (pf \<and> f)"
    using Cons.prems(1) by (auto simp: tiles_def b w_def)
  have n: "n < 4294967296" "16 \<le> n" "n mod 16 = 0" using t assms(1) by (auto simp: block_ok_def)
  have sel: "magic w = HEAP_BLOCK_MAGIC" "state w \<in> {HEAP_BLOCK_FREE, HEAP_BLOCK_ALLOCATED}" "previous w = p" "payload_size w = of_nat n"
    "unat (payload_size w) = n" "next w = (if bs = [] then 0 else of_nat (a + BLOCK_SIZE + n))" "(state w = HEAP_BLOCK_FREE) = f"
    using n by (auto simp: w_def header_def unat_of_nat32)
  have bc: "(of_nat N :: u32) < 8192" using Cons.prems(3) by (simp add: word_less_nat_alt unat_of_nat32)
  have pb: "(of_nat P :: u32) \<le> SIZE_MAX - of_nat n"
    using Cons.prems(4) n by (simp add: b payload_sum_def word_le_nat_alt unat_sub_no_wrap unat_of_nat32)
  have cb: "count_block pf w (measured_stats F L A) = Some (if f then measured_stats (F + n) (max L n) A else measured_stats F L (A + 1))"
    unfolding w_def using t(4) Cons.prems(3-7) by (intro count_block_stats) (auto simp: b payload_sum_def)
  have st: "(of_nat P :: u32) + of_nat n = of_nat (P + n)" "(of_nat N :: u32) + 1 = of_nat (N + 1)" by simp_all
  have ne: "(of_nat (a + BLOCK_SIZE + n) :: u32) \<noteq> 0" if "bs \<noteq> []" using t assms by (intro of_nat_nonzero32) auto
  have ale: "a \<le> e" using t by simp
  note step = inspect_step [OF assms ale t(1) [symmetric] sel(5) [symmetric], unfolded sel(1,3,4,6,7)]
  show ?case
  proof (cases "bs = []")
    case True
    then show ?thesis unfolding step st cb
      using t(2-4) n bc pb sel(2) Cons.prems(2) by (auto simp: b measure_defs add_ac simp del: of_nat_add)
  next
    case False
    have tl: "tiles m (a + BLOCK_SIZE + n) (of_nat a) e f bs"
      using Cons.prems(1) False by (cases bs) (auto simp: tiles_def b simp del: of_nat_add)
    have al: "(a + BLOCK_SIZE + n) mod 16 = 0" using Cons.prems(2) n by presburger
    have "0 < span bs" using False by (cases bs) auto
    then have lt: "a + BLOCK_SIZE + n < e" using t by simp
    have "inspect_blocks m (of_nat e) (of_nat a) (of_nat (a + BLOCK_SIZE + n)) (of_nat (P + n)) (of_nat (N + 1)) f
        (if f then measured_stats (F + n) (max L n) A else measured_stats F L (A + 1)) =
      Some (of_nat (P + n + payload_sum bs), of_nat (N + 1 + length bs),
        if f then measured_stats (F + n + free_sum bs) (max (max L n) (largest bs)) (A + live_count bs)
        else measured_stats (F + free_sum bs) (max L (largest bs)) (A + 1 + live_count bs))"
      using Cons.IH [OF tl al, of "N + 1" "P + n" "F + n" "max L n" A] Cons.IH [OF tl al, of "N + 1" "P + n" F L "A + 1"] Cons.prems(3-7)
      by (auto simp: b payload_sum_def simp del: of_nat_add of_nat_Suc)
    then show ?thesis unfolding step st cb
      using t(2-4) n bc pb sel(2) Cons.prems(2) False ne lt
      by (auto simp: b measure_defs add_ac max.assoc simp del: of_nat_add of_nat_Suc)
  qed
qed (simp add: tiles_def)

section \<open>Well-formed heaps\<close>

text \<open>Where the linker puts the arena: aligned, not at address 0, and ending inside the address space.\<close>

definition arena_placed :: "u32 \<Rightarrow> bool" where
  "arena_placed arena \<longleftrightarrow> unat arena mod 16 = 0 \<and> 0 < unat arena \<and> unat arena + KHEAP_ARENA_SIZE < 4294967296"

definition blocks_ok :: "block list \<Rightarrow> bool" where
  "blocks_ok bs \<longleftrightarrow> bs \<noteq> [] \<and> list_all block_ok bs \<and> span bs = KHEAP_ARENA_SIZE \<and> apart bs"

definition heap_wf :: "u32 \<Rightarrow> heap \<Rightarrow> block list \<Rightarrow> bool" where
  "heap_wf arena h bs \<longleftrightarrow> heap_initialized h \<and> first_block h = arena \<and> blocks_ok bs \<and> chain (heap_memory h) (unat arena) 0 bs 0"

definition stats_of :: "block list \<Rightarrow> heap_stats" where
  "stats_of bs = measured_stats (free_sum bs) (largest bs) (live_count bs)"

lemma blocks_bound: "list_all block_ok bs \<Longrightarrow> 48 * length bs \<le> span bs"
  by (induction bs rule: span.induct) (auto simp: block_ok_def)

lemma span16: "list_all block_ok bs \<Longrightarrow> span bs mod 16 = 0"
proof (induction bs rule: span.induct)
  case (2 f n bs)
  then show ?case by (auto simp: block_ok_def mod_eq_0_iff_dvd)
qed simp

lemma inspect_heap_iff:
  assumes ar: "arena_placed arena"
  shows "inspect_heap arena h = Some st \<longleftrightarrow> (\<exists>bs. heap_wf arena h bs \<and> st = stats_of bs)"
proof -
  let ?a = "unat arena" and ?e = "unat arena + KHEAP_ARENA_SIZE"
  have e: "?e < 4294967296" "BLOCK_SIZE \<le> ?e" "?a \<le> ?e" "?a mod 16 = 0" using ar by (simp_all add: arena_placed_def)
  have ae: "arena_end arena = of_nat ?e" by (simp add: arena_end_def arena_begin_def)
  have lim: "\<not> 0xFFFFFFFF - of_nat KHEAP_ARENA_SIZE < arena"
    using e by (simp add: word_less_nat_alt)
  have m0: "\<lparr>total_bytes = of_nat KHEAP_ARENA_SIZE - of_nat BLOCK_SIZE, free_bytes = 0, largest_free_block = 0, allocated_blocks = 0\<rparr> = measured_stats 0 0 0"
    by (simp add: measured_stats_def)
  let ?loop = "inspect_blocks (heap_memory h) (of_nat ?e) 0 arena 0 0 False (measured_stats 0 0 0)"
  have loop: "?loop = Some (of_nat (payload_sum bs), of_nat (length bs), stats_of bs)" "heap_wf arena h bs \<longrightarrow> inspect_heap arena h = Some (stats_of bs)"
    if t: "tiles (heap_memory h) ?a 0 ?e False bs" "heap_initialized h" "first_block h = arena" for bs
  proof -
    have b: "list_all block_ok bs" "span bs = KHEAP_ARENA_SIZE" "bs \<noteq> []" using t by (simp_all add: tiles_def)
    have len: "48 * length bs \<le> KHEAP_ARENA_SIZE" using blocks_bound [OF b(1)] b(2) by simp
    have sum: "BLOCK_SIZE * length bs + payload_sum bs = KHEAP_ARENA_SIZE" using span_payload [of bs] b(2) by simp
    show loop: "?loop = Some (of_nat (payload_sum bs), of_nat (length bs), stats_of bs)"
      using inspect_complete [OF e(1,2) t(1) e(4), of 0 0 0 0 0] len sum by (simp add: stats_of_def)
    have l1: "1 \<le> length bs" using b(3) by (cases bs) auto
    have u: "unat (of_nat (payload_sum bs) :: u32) = payload_sum bs" "unat (of_nat (free_sum bs) :: u32) = free_sum bs"
      "unat (of_nat (largest bs) :: u32) = largest bs"
      using sum measure_le [of bs] by (auto intro!: unat_of_nat32)
    have c1: "(of_nat (length bs) :: u32) - 1 = of_nat (length bs - 1)" using l1 by simp
    have g1: "(of_nat (length bs) :: u32) \<noteq> 0" using l1 len by (intro of_nat_nonzero32) auto
    have g2: "\<not> SIZE_MAX div of_nat BLOCK_SIZE < (of_nat (length bs - 1) :: u32)"
      using len by (simp add: word_less_nat_alt unat_of_nat32 unat_div_distrib del: of_nat_diff)
    have tot: "unat (262112 :: u32) = 262112" by simp
    have g3: "\<not> (262112 :: u32) < of_nat (payload_sum bs)" "\<not> (262112 :: u32) < of_nat (free_sum bs)"
      "\<not> (of_nat (free_sum bs) :: u32) < of_nat (largest bs)"
      using sum l1 measure_le [of bs] by (simp_all add: word_less_nat_alt u)
    have g4: "(of_nat (length bs - 1) :: u32) * of_nat BLOCK_SIZE = 262112 - of_nat (payload_sum bs)"
    proof -
      have "(length bs - 1) * BLOCK_SIZE = 262112 - payload_sum bs" using sum l1 by (simp add: diff_mult_distrib)
      then have "(of_nat ((length bs - 1) * BLOCK_SIZE) :: u32) = of_nat (262112 - payload_sum bs)" by simp
      then show ?thesis using sum l1 by simp
    qed
    show "heap_wf arena h bs \<longrightarrow> inspect_heap arena h = Some (stats_of bs)"
      unfolding inspect_heap_def Let_def ae m0 arena_begin_def
      using t(2,3) lim loop g1 g2 g3 g4 by (simp add: c1 stats_of_def measured_stats_def del: of_nat_diff)
  qed
  have wf: "heap_wf arena h bs \<longleftrightarrow> heap_initialized h \<and> first_block h = arena \<and> tiles (heap_memory h) ?a 0 ?e False bs" for bs
    by (auto simp: heap_wf_def tiles_def blocks_ok_def)
  show ?thesis
  proof
    assume i: "inspect_heap arena h = Some st"
    then have h: "heap_initialized h" "first_block h = arena" by (auto simp: inspect_heap_def Let_def arena_begin_def split: if_splits)
    obtain r where "?loop = Some r"
      using i unfolding inspect_heap_def Let_def ae m0 arena_begin_def by (auto split: if_splits option.splits)
    then obtain bs where "tiles (heap_memory h) ?a 0 ?e False bs" using inspect_sound [OF e(1-3)] by fastforce
    then show "\<exists>bs. heap_wf arena h bs \<and> st = stats_of bs" using h loop(2) [of bs] wf i by auto
  next
    assume "\<exists>bs. heap_wf arena h bs \<and> st = stats_of bs"
    then show "inspect_heap arena h = Some st" using loop(2) wf by auto
  qed
qed

section \<open>Live allocations\<close>

text \<open>The size of the allocation at an address.\<close>

fun live :: "nat \<Rightarrow> block list \<Rightarrow> nat \<Rightarrow> nat option" where
  "live a [] = Map.empty"
| "live a ((f, n) # bs) = (if f then live (a + BLOCK_SIZE + n) bs else (live (a + BLOCK_SIZE + n) bs)(a + BLOCK_SIZE \<mapsto> n))"

lemma live_range: "live a bs p = Some n \<Longrightarrow> a + BLOCK_SIZE \<le> p \<and> p + n \<le> a + span bs"
proof (induction bs arbitrary: a p rule: span.induct)
  case (2 f k bs)
  show ?case
  proof (cases "\<not> f \<and> p = a + BLOCK_SIZE")
    case False
    then have "live (a + BLOCK_SIZE + k) bs p = Some n" using 2(2) by (auto split: if_splits)
    from 2(1) [OF this] show ?thesis by simp
  qed (use 2(2) in auto)
qed simp

lemma live_below: "p < a + BLOCK_SIZE \<Longrightarrow> live a bs p = None" and live_above: "a + span bs < p \<Longrightarrow> live a bs p = None"
  using live_range [of a bs p] by (cases "live a bs p"; auto)+

lemma live_append: "live a (xs @ ys) p = (if p < a + span xs + BLOCK_SIZE then live a xs p else live (a + span xs) ys p)"
proof (induction xs arbitrary: a p rule: span.induct)
  case (2 f k bs)
  then show ?case
    using live_below [of p "a + BLOCK_SIZE + k + span bs" ys] live_above [of "a + BLOCK_SIZE + k" bs p] by (auto simp: add.assoc)
qed (auto simp: live_below)

lemma live_split: "live a bs p = Some n \<longleftrightarrow> (\<exists>xs ys. bs = xs @ (False, n) # ys \<and> p = a + span xs + BLOCK_SIZE)"
proof
  show "live a bs p = Some n \<Longrightarrow> \<exists>xs ys. bs = xs @ (False, n) # ys \<and> p = a + span xs + BLOCK_SIZE"
  proof (induction bs arbitrary: a rule: span.induct)
    case (2 f k bs)
    show ?case
    proof (cases "\<not> f \<and> p = a + BLOCK_SIZE")
      case True
      with 2(2) show ?thesis by (intro exI [of _ "[]"] exI [of _ bs]) auto
    next
      case False
      then have "live (a + BLOCK_SIZE + k) bs p = Some n" using 2(2) by (auto split: if_splits)
      then obtain xs ys where "bs = xs @ (False, n) # ys" "p = a + BLOCK_SIZE + k + span xs + BLOCK_SIZE" using 2(1) by blast
      then show ?thesis by (intro exI [of _ "(f, k) # xs"] exI [of _ ys]) simp
    qed
  qed simp
next
  assume "\<exists>xs ys. bs = xs @ (False, n) # ys \<and> p = a + span xs + BLOCK_SIZE"
  then show "live a bs p = Some n" by (auto simp: live_append)
qed

lemma live_disjoint:
  assumes "live a bs p = Some n" "live a bs q = Some k" "p \<noteq> q"
  shows "p + n + BLOCK_SIZE \<le> q \<or> q + k + BLOCK_SIZE \<le> p"
proof -
  obtain xs ys where "bs = xs @ (False, n) # ys" "p = a + span xs + BLOCK_SIZE" using assms(1) by (auto simp: live_split)
  with assms(2,3) show ?thesis
    using live_range [of a xs q k] live_range [of "a + span xs + BLOCK_SIZE + n" ys q k] by (auto simp: live_append split: if_splits)
qed

lemma live_outside:
  assumes "live a (xs @ (True, n) # ys) q = Some k"
  shows "q + k \<le> a + span xs \<or> a + span xs + BLOCK_SIZE + n + BLOCK_SIZE \<le> q"
  using assms live_range [of a xs q k] live_range [of "a + span xs + BLOCK_SIZE + n" ys q k]
  by (auto simp: live_append split: if_splits)

lemma live_taken:
  assumes "sz \<le> n"
  shows "live a (xs @ taken sz n @ ys) =
    (live a (xs @ (True, n) # ys))(a + span xs + BLOCK_SIZE \<mapsto> (if sz + BLOCK_SIZE + 16 \<le> n then sz else n))"
  using assms live_below [of "a + span xs + BLOCK_SIZE" "a + span xs + BLOCK_SIZE + n" ys]
  by (auto simp: fun_eq_iff live_append taken_def add.assoc split: if_splits)

lemma live_merge: "live a (xs @ (True, n) # (True, k) # ys) = live a (xs @ (True, n + BLOCK_SIZE + k) # ys)"
  by (auto simp: fun_eq_iff live_append add.assoc)

lemma live_release:
  "live a (xs @ (True, n) # ys) = (live a (xs @ (False, n) # ys))(a + span xs + BLOCK_SIZE := None)"
  using live_below [of "a + span xs + BLOCK_SIZE" "a + span xs + BLOCK_SIZE + n" ys] by (auto simp: fun_eq_iff live_append)

section \<open>Allocation\<close>

text \<open>First fit on the list: where the block starts and the list afterwards.\<close>

fun alloc_blocks :: "nat \<Rightarrow> block list \<Rightarrow> (nat \<times> block list) option" where
  "alloc_blocks sz [] = None"
| "alloc_blocks sz ((f, n) # bs) =
     (if f \<and> sz \<le> n then Some (0, taken sz n @ bs)
      else map_option (\<lambda>(off, cs). (BLOCK_SIZE + n + off, (f, n) # cs)) (alloc_blocks sz bs))"

lemma alloc_blocks_cases:
  obtains "alloc_blocks sz bs = None" "\<forall>b \<in> set bs. \<not> fits sz b"
    | xs n ys where "bs = xs @ (True, n) # ys" "sz \<le> n" "\<forall>b \<in> set xs. \<not> fits sz b"
      "alloc_blocks sz bs = Some (span xs, xs @ taken sz n @ ys)"
proof -
  have "alloc_blocks sz bs = None \<and> (\<forall>b \<in> set bs. \<not> fits sz b) \<or>
    (\<exists>xs n ys. bs = xs @ (True, n) # ys \<and> sz \<le> n \<and> (\<forall>b \<in> set xs. \<not> fits sz b) \<and> alloc_blocks sz bs = Some (span xs, xs @ taken sz n @ ys))"
  proof (induction bs rule: span.induct)
    case (2 f k bs)
    show ?case
    proof (cases "f \<and> sz \<le> k")
      case True
      then show ?thesis by (intro disjI2 exI [of _ "[]"] exI [of _ k] exI [of _ bs]) auto
    next
      case False
      from 2 show ?thesis
      proof (elim disjE exE conjE)
        fix xs n ys assume "bs = xs @ (True, n) # ys" "sz \<le> n" "\<forall>b \<in> set xs. \<not> fits sz b" "alloc_blocks sz bs = Some (span xs, xs @ taken sz n @ ys)"
        then show ?thesis using False by (intro disjI2 exI [of _ "(f, k) # xs"] exI [of _ n] exI [of _ ys]) auto
      qed (use False in auto)
    qed
  qed simp
  then show ?thesis using that by blast
qed

definition align16 :: "nat \<Rightarrow> nat" where
  "align16 n = (n + 15) div 16 * 16"

lemma align16: "n \<le> align16 n" "align16 n mod 16 = 0" "align16 n \<le> n + 15" "0 < n \<Longrightarrow> 16 \<le> align16 n"
proof -
  have m: "align16 n + (n + 15) mod 16 = n + 15" "(n + 15) mod 16 < 16" by (simp_all add: align16_def)
  then show "n \<le> align16 n" "align16 n \<le> n + 15" by linarith+
  show "align16 n mod 16 = 0" by (simp add: align16_def)
  show "0 < n \<Longrightarrow> 16 \<le> align16 n" using div_le_mono [of 16 "n + 15" 16] by (simp add: align16_def)
qed

lemma align_request_eq:
  "align_request w True = (if w = 0 \<or> w > 0xFFFFFFF0 then None else Some (of_nat (align16 (unat w))))"
proof -
  have "(w + 15) AND NOT 15 = of_nat (align16 (unat w))" if "w \<le> 0xFFFFFFF0"
  proof -
    have u: "unat (w + 15) = unat w + 15" using that by (simp add: unat_add_no_wrap word_le_nat_alt)
    have "unat ((w + 15) AND NOT 15) = unat (w + 15) div 16 * 16"
      using unat_and_not_mask [of "w + 15" 4] by (simp add: mask_numerals)
    moreover have "of_nat (unat ((w + 15) AND NOT 15)) = (w + 15) AND NOT 15" by simp
    ultimately show ?thesis by (simp add: align16_def u)
  qed
  then show ?thesis by (auto simp: align_request_def not_less)
qed

lemma taken_ok:
  assumes "blocks_ok (xs @ (True, n) # ys)" and "sz \<le> n" "sz mod 16 = 0" "16 \<le> sz"
  shows "blocks_ok (xs @ taken sz n @ ys)"
proof -
  have "n mod 16 = 0" using assms(1) by (simp add: blocks_ok_def block_ok_def)
  then have "(n - sz - BLOCK_SIZE) mod 16 = 0" using assms(3) by (simp add: mod_eq_0_iff_dvd dvd_diff_nat)
  moreover have "apart (xs @ taken sz n @ ys)"
    using assms(1) by (auto simp: blocks_ok_def taken_def successively_append_iff successively_Cons split: if_splits)
  ultimately show ?thesis using assms by (auto simp: blocks_ok_def block_ok_def taken_def)
qed

text \<open>The bytes an operation must not touch: those outside the arena and those of live allocations.\<close>

definition kept :: "nat \<Rightarrow> block list \<Rightarrow> nat \<Rightarrow> bool" where
  "kept a bs t \<longleftrightarrow> t < a \<or> a + span bs \<le> t \<or> (\<exists>q k. live a bs q = Some k \<and> q \<le> t \<and> t < q + k)"

lemma kept_outside:
  assumes "kept a (xs @ (True, n) # ys) t"
  shows "t < a + span xs \<or> a + span xs + BLOCK_SIZE + n + link ys \<le> t"
proof -
  have l: "link ys \<le> span ys" by (cases ys) (auto simp: link_def)
  from assms consider "t < a" | "a + span (xs @ (True, n) # ys) \<le> t"
    | q k where "live a (xs @ (True, n) # ys) q = Some k" "q \<le> t" "t < q + k" by (auto simp: kept_def)
  then show ?thesis
  proof cases
    case (3 q k)
    then show ?thesis using live_outside [OF 3(1)] link_le [of ys] by linarith
  qed (use l in simp_all)
qed

lemma kmalloc_refused:
  assumes ar: "arena_placed arena" and wf: "heap_wf arena h bs"
    and "sz = 0 \<or> sz > 0xFFFFFFF0 \<or> alloc_blocks (align16 (unat sz)) bs = None"
  shows "kmalloc arena sz h = Some (0, h)"
proof (cases "sz = 0 \<or> sz > 0xFFFFFFF0")
  case True
  then show ?thesis by (simp add: kmalloc_def align_request_eq)
next
  case False
  have none: "\<forall>b \<in> set bs. \<not> fits (align16 (unat sz)) b"
    using assms(3) False by (cases rule: alloc_blocks_cases [of "align16 (unat sz)" bs]) auto
  have s: "align16 (unat sz) < 4294967296" using False align16(3) [of "unat sz"] by (simp add: word_le_nat_alt not_less)
  have "first_fit (heap_memory h) (of_nat (align16 (unat sz))) (of_nat (unat arena)) = Some 0"
    using wf ar none s by (intro first_fit_none) (auto simp: heap_wf_def blocks_ok_def arena_placed_def)
  then show ?thesis using False wf by (simp add: kmalloc_def align_request_eq heap_wf_def)
qed

lemma kmalloc_grants:
  assumes ar: "arena_placed arena" and wf: "heap_wf arena h bs" and sz: "sz \<noteq> 0" "sz \<le> 0xFFFFFFF0"
    and al: "alloc_blocks (align16 (unat sz)) bs = Some (off, cs)"
  obtains h' k where "kmalloc arena sz h = Some (of_nat (unat arena + off + BLOCK_SIZE), h')" "heap_wf arena h' cs"
    "unat sz \<le> k" "live (unat arena) cs = (live (unat arena) bs)(unat arena + off + BLOCK_SIZE \<mapsto> k)"
    "live (unat arena) bs (unat arena + off + BLOCK_SIZE) = None" "off + BLOCK_SIZE + k \<le> KHEAP_ARENA_SIZE" "off mod 16 = 0"
    "\<And>t. t < 4294967296 \<Longrightarrow> kept (unat arena) bs t \<Longrightarrow> heap_memory h' (of_nat t) = heap_memory h (of_nat t)"
proof -
  let ?a = "unat arena" and ?sz = "align16 (unat sz)"
  obtain xs n ys where bs: "bs = xs @ (True, n) # ys" "?sz \<le> n" "\<forall>b \<in> set xs. \<not> fits ?sz b" "off = span xs" "cs = xs @ taken ?sz n @ ys"
    using al by (cases rule: alloc_blocks_cases [of ?sz bs]) auto
  have c: "chain (heap_memory h) ?a 0 (xs @ (True, n) # ys) 0" and h: "heap_initialized h" "first_block h = arena"
    and ok: "blocks_ok (xs @ (True, n) # ys)" using wf by (simp_all add: heap_wf_def bs(1))
  have a: "0 < ?a" "?a + span (xs @ (True, n) # ys) < 4294967296" using ar ok by (simp_all add: arena_placed_def blocks_ok_def)
  have szn: "?sz mod 16 = 0" "16 \<le> ?sz" "unat sz \<le> ?sz" using align16 [of "unat sz"] sz(1) by (simp_all add: unat_gt_0)
  define m where "m = take_block (of_nat (?a + span xs)) (of_nat ?sz) (heap_memory h)"
  note tb = take_block_chain [OF c a refl bs(2), folded m_def]
  have ff: "first_fit (heap_memory h) (of_nat ?sz) (of_nat ?a) = Some (of_nat (?a + span xs))"
    using first_fit_found [OF c a bs(2,3)] .
  have nz: "(of_nat (?a + span xs) :: u32) \<noteq> 0" using a by (intro of_nat_nonzero32) auto
  have "inspect_heap arena h = Some (stats_of bs)" using inspect_heap_iff [OF ar, of h] wf by auto
  then have km: "kmalloc arena sz h = Some (of_nat (?a + off + BLOCK_SIZE), h\<lparr>heap_memory := m\<rparr>)"
    using ff nz sz h(2) by (simp add: kmalloc_def align_request_eq m_def bs(4) block_payload_def not_less flip: not_le)
  have wf': "heap_wf arena (h\<lparr>heap_memory := m\<rparr>) cs"
    using tb(1) h taken_ok [OF ok bs(2) szn(1,2)] by (simp add: heap_wf_def bs(5))
  have off16: "off mod 16 = 0" using ok span16 [of xs] by (simp add: blocks_ok_def bs(4))
  show ?thesis
  proof (rule that [OF km wf'])
    show "live ?a cs = (live ?a bs)(?a + off + BLOCK_SIZE \<mapsto> (if ?sz + BLOCK_SIZE + 16 \<le> n then ?sz else n))"
      using live_taken [OF bs(2), of ?a xs ys] by (simp add: bs)
    show "unat sz \<le> (if ?sz + BLOCK_SIZE + 16 \<le> n then ?sz else n)" using szn bs(2) by auto
    show "live ?a bs (?a + off + BLOCK_SIZE) = None"
      using live_below [of "?a + span xs + BLOCK_SIZE" "?a + span xs + BLOCK_SIZE + n" ys] by (simp add: bs live_append)
    show "off + BLOCK_SIZE + (if ?sz + BLOCK_SIZE + 16 \<le> n then ?sz else n) \<le> KHEAP_ARENA_SIZE"
      using ok by (auto simp: blocks_ok_def bs)
    show "heap_memory (h\<lparr>heap_memory := m\<rparr>) (of_nat t) = heap_memory h (of_nat t)" if "t < 4294967296" "kept ?a bs t" for t
      using tb(2) [OF that(1)] kept_outside [of ?a xs n ys t] that(2) by (auto simp: bs)
  qed (rule off16)
qed

section \<open>Release\<close>

text \<open>A block is freed and joined with a free neighbour on either side.\<close>

definition free_left :: "block list \<Rightarrow> nat \<Rightarrow> block list \<times> nat" where
  "free_left xs n = (if xs \<noteq> [] \<and> fst (last xs) then (butlast xs, snd (last xs) + BLOCK_SIZE + n) else (xs, n))"

definition free_right :: "nat \<Rightarrow> block list \<Rightarrow> nat \<times> block list" where
  "free_right n ys = (if ys \<noteq> [] \<and> fst (hd ys) then (n + BLOCK_SIZE + snd (hd ys), tl ys) else (n, ys))"

definition freed :: "block list \<Rightarrow> nat \<Rightarrow> block list \<Rightarrow> block list" where
  "freed xs n ys = (let (xs, n) = free_left xs n; (n, ys) = free_right n ys in xs @ (True, n) # ys)"

lemma last_addr_snoc: "last_addr a p (xs @ [(f, n)]) = of_nat (a + span xs)"
  by (induction xs arbitrary: a p rule: span.induct) (auto simp: add.assoc simp del: of_nat_add)

lemma join_left:
  assumes c: "chain m a 0 (xs @ (True, n) # ys) 0" and a: "0 < a" "a + span (xs @ (True, n) # ys) < 4294967296"
    and x: "x = a + span xs" and r: "free_left xs n = (us, k)"
  obtains m' where
    "(let left = previous (blk m x) in
      if left \<noteq> 0 \<and> state (block_at m left) = HEAP_BLOCK_FREE then merge_with_next left m else (of_nat x, m)) = (of_nat (a + span us), m')"
    "chain m' a 0 (us @ (True, k) # ys) 0" "span us + k = span xs + n" "span us \<le> span xs"
    "\<And>t. t < 4294967296 \<Longrightarrow> t < a + span us \<or> x + BLOCK_SIZE + n + link ys \<le> t \<Longrightarrow> m' (of_nat t) = m (of_nat t)"
proof (cases "xs = []")
  case True
  have "previous (blk m x) = 0" using c True x by (simp add: header_def)
  with c True r x show ?thesis by (intro that [of m]) (auto simp: free_left_def)
next
  case False
  then obtain vs f j where xs: "xs = vs @ [(f, j)]" by (metis append_butlast_last_id prod.collapse)
  have cm: "chain m a 0 (vs @ [(f, j)] @ (True, n) # ys) 0" using c xs by simp
  note parts = chain_middle [OF cm refl]
  have px: "previous (blk m x) = of_nat (a + span vs)"
    using parts(3) by (simp add: x xs header_def add.assoc del: of_nat_add)
  have sv: "state (blk m (a + span vs)) = (if f then HEAP_BLOCK_FREE else HEAP_BLOCK_ALLOCATED)"
    using parts(1) by (simp add: header_def)
  have nz: "(of_nat (a + span vs) :: u32) \<noteq> 0" using a xs by (intro of_nat_nonzero32) auto
  show ?thesis
  proof (cases f)
    case True
    have cm': "chain m a 0 (vs @ (True, j) # (True, n) # ys) 0" and am: "a + span (vs @ (True, j) # (True, n) # ys) < 4294967296"
      using cm a(2) xs True by simp_all
    obtain m' where m': "merge_with_next (of_nat (a + span vs)) m = (of_nat (a + span vs), m')"
        "chain m' a 0 (vs @ (True, j + BLOCK_SIZE + n) # ys) 0"
        "\<And>t. t < 4294967296 \<Longrightarrow> t < a + span vs \<or> a + span vs + BLOCK_SIZE + j + BLOCK_SIZE + n + link ys \<le> t \<Longrightarrow> m' (of_nat t) = m (of_nat t)"
      using merge_chain [OF cm' a(1) am refl] by blast
    have uk: "us = vs" "k = j + BLOCK_SIZE + n" using r xs True by (auto simp: free_left_def)
    show ?thesis using px sv nz True m' x xs by (intro that [of m']) (simp_all add: uk add.assoc del: of_nat_add)
  next
    case False
    then show ?thesis using px sv r xs c x by (intro that [of m]) (auto simp: free_left_def Let_def simp del: of_nat_add)
  qed
qed

lemma join_right:
  assumes c: "chain m a 0 (us @ (True, n) # ys) 0" and a: "0 < a" "a + span (us @ (True, n) # ys) < 4294967296"
    and x: "x = a + span us" and r: "free_right n ys = (k, vs)"
  obtains m' where
    "(let right = next (blk m x) in
      if right \<noteq> 0 \<and> state (block_at m right) = HEAP_BLOCK_FREE then snd (merge_with_next (of_nat x) m) else m) = m'"
    "chain m' a 0 (us @ (True, k) # vs) 0" "k + span vs = n + span ys"
    "\<And>t. t < 4294967296 \<Longrightarrow> t < x \<or> x + BLOCK_SIZE + k + link vs \<le> t \<Longrightarrow> m' (of_nat t) = m (of_nat t)"
proof (cases ys)
  case Nil
  have "chain m a 0 (us @ [(True, n)] @ ys) 0" using c by simp
  from chain_middle(1) [OF this x] Nil have "next (blk m x) = 0" by (simp add: header_def)
  then show ?thesis using c Nil r by (intro that [of m]) (auto simp: free_right_def)
next
  case (Cons b zs)
  obtain f j where b: "b = (f, j)" by force
  have cm: "chain m a 0 (us @ [(True, n)] @ (f, j) # zs) 0" using c Cons b by simp
  note parts = chain_middle [OF cm x]
  have nx: "next (blk m x) = of_nat (x + BLOCK_SIZE + n)" using parts(1) by (simp add: header_def add.assoc del: of_nat_add)
  have st: "state (blk m (x + BLOCK_SIZE + n)) = (if f then HEAP_BLOCK_FREE else HEAP_BLOCK_ALLOCATED)"
    using parts(3) by (simp add: header_def add.assoc del: of_nat_add)
  have nz: "(of_nat (x + BLOCK_SIZE + n) :: u32) \<noteq> 0" using a x Cons by (intro of_nat_nonzero32) (auto simp: b)
  show ?thesis
  proof (cases f)
    case True
    have cm': "chain m a 0 (us @ (True, n) # (True, j) # zs) 0" and am: "a + span (us @ (True, n) # (True, j) # zs) < 4294967296"
      using cm a(2) Cons b True by simp_all
    obtain m' where m': "merge_with_next (of_nat x) m = (of_nat x, m')" "chain m' a 0 (us @ (True, n + BLOCK_SIZE + j) # zs) 0"
        "\<And>t. t < 4294967296 \<Longrightarrow> t < x \<or> x + BLOCK_SIZE + n + BLOCK_SIZE + j + link zs \<le> t \<Longrightarrow> m' (of_nat t) = m (of_nat t)"
      using merge_chain [OF cm' a(1) am x] by blast
    have uk: "vs = zs" "k = n + BLOCK_SIZE + j" using r Cons b True by (auto simp: free_right_def)
    show ?thesis using nx st nz True m' Cons b by (intro that [of m']) (simp_all add: uk add.assoc del: of_nat_add)
  next
    case False
    then show ?thesis using nx st r Cons b c x by (intro that [of m]) (auto simp: free_right_def Let_def simp del: of_nat_add)
  qed
qed

lemma free_left_cases:
  assumes "free_left xs n = (us, k)"
  obtains q where "xs = us @ [(True, q)]" "k = q + BLOCK_SIZE + n" | "us = xs" "k = n" "xs \<noteq> [] \<Longrightarrow> \<not> fst (last xs)"
proof (cases xs rule: rev_cases)
  case (snoc zs b)
  then show ?thesis using assms that by (cases b; cases "fst b") (auto simp: free_left_def)
qed (use assms that in \<open>auto simp: free_left_def\<close>)

lemma free_right_cases:
  assumes "free_right n ys = (k, vs)"
  obtains q where "ys = (True, q) # vs" "k = n + BLOCK_SIZE + q" | "vs = ys" "k = n" "ys \<noteq> [] \<Longrightarrow> \<not> fst (hd ys)"
proof (cases ys)
  case (Cons b zs)
  then show ?thesis using assms that by (cases b; cases "fst b") (auto simp: free_right_def)
qed (use assms that in \<open>auto simp: free_right_def\<close>)

lemma freed_ok:
  assumes "blocks_ok (xs @ (False, n) # ys)"
  shows "blocks_ok (freed xs n ys)"
proof -
  obtain us k where l: "free_left xs n = (us, k)" by force
  obtain j vs where r: "free_right k ys = (j, vs)" by force
  have mod: "(p + BLOCK_SIZE + q) mod 16 = 0" if "p mod 16 = 0" "q mod 16 = 0" for p q :: nat
    using that by (simp add: mod_eq_0_iff_dvd)
  have u: "blocks_ok (us @ (False, k) # ys) \<and> \<not> (us \<noteq> [] \<and> fst (last us))"
    using l
  proof (cases rule: free_left_cases)
    case (1 q)
    then show ?thesis using assms mod by (auto simp: blocks_ok_def block_ok_def successively_append_iff successively_Cons)
  next
    case 2
    then show ?thesis using assms by auto
  qed
  from r have "blocks_ok (us @ (True, j) # vs)"
  proof (cases rule: free_right_cases)
    case (1 q)
    then show ?thesis using u mod by (auto simp: blocks_ok_def block_ok_def successively_append_iff successively_Cons)
  next
    case 2
    then show ?thesis using u by (auto simp: blocks_ok_def block_ok_def successively_append_iff successively_Cons)
  qed
  then show ?thesis by (simp add: freed_def l r)
qed

lemma live_freed: "live a (freed xs n ys) = (live a (xs @ (False, n) # ys))(a + span xs + BLOCK_SIZE := None)"
proof -
  obtain us k where l: "free_left xs n = (us, k)" by force
  obtain j vs where r: "free_right k ys = (j, vs)" by force
  from l have "live a (xs @ (True, n) # ys) = live a (us @ (True, k) # ys)"
    using live_merge [of a us _ n ys] by (cases rule: free_left_cases) simp_all
  also from r have "\<dots> = live a (us @ (True, j) # vs)"
    using live_merge [of a us k _ vs] by (cases rule: free_right_cases) simp_all
  finally show ?thesis using live_release [of a xs n ys] by (simp add: freed_def l r)
qed

lemma kfree_releases:
  assumes ar: "arena_placed arena" and wf: "heap_wf arena h (xs @ (False, n) # ys)"
    and p: "p = unat arena + span xs + BLOCK_SIZE"
  obtains h' where "kfree arena (of_nat p) h = Some (True, h')" "heap_wf arena h' (freed xs n ys)"
    "\<And>t. t < 4294967296 \<Longrightarrow> kept (unat arena) (freed xs n ys) t \<Longrightarrow> heap_memory h' (of_nat t) = heap_memory h (of_nat t)"
proof -
  let ?a = "unat arena" and ?x = "unat arena + span xs" and ?m = "heap_memory h"
  have c: "chain ?m ?a 0 (xs @ (False, n) # ys) 0" and h: "heap_initialized h" "first_block h = arena"
    and ok: "blocks_ok (xs @ (False, n) # ys)" using wf by (simp_all add: heap_wf_def)
  have a: "0 < ?a" "?a + span (xs @ (False, n) # ys) < 4294967296" "?a mod 16 = 0" "?a + KHEAP_ARENA_SIZE < 4294967296"
    and sp: "span xs + BLOCK_SIZE + n + span ys = KHEAP_ARENA_SIZE" using ar ok by (simp_all add: arena_placed_def blocks_ok_def)
  define m1 where "m1 = put_state (of_nat ?x) HEAP_BLOCK_FREE ?m"
  have c1: "chain m1 ?a 0 (xs @ (True, n) # ys) 0" using put_state_chain [OF c, of True] a(2) by (simp add: m1_def)
  have a1: "?a + span (xs @ (True, n) # ys) < 4294967296" using a(2) by simp
  obtain us k where l: "free_left xs n = (us, k)" by force
  obtain m2 where m2: "(let left = previous (blk m1 ?x) in
      if left \<noteq> 0 \<and> state (block_at m1 left) = HEAP_BLOCK_FREE then merge_with_next left m1 else (of_nat ?x, m1)) = (of_nat (?a + span us), m2)"
    "chain m2 ?a 0 (us @ (True, k) # ys) 0" "span us + k = span xs + n" "span us \<le> span xs"
    "\<And>t. t < 4294967296 \<Longrightarrow> t < ?a + span us \<or> ?x + BLOCK_SIZE + n + link ys \<le> t \<Longrightarrow> m2 (of_nat t) = m1 (of_nat t)"
    using join_left [OF c1 a(1) a1 refl l] by blast
  have a2: "?a + span (us @ (True, k) # ys) < 4294967296" using a(2) m2(3) by simp
  obtain j vs where r: "free_right k ys = (j, vs)" by force
  obtain m3 where m3: "(let right = next (blk m2 (?a + span us)) in
      if right \<noteq> 0 \<and> state (block_at m2 right) = HEAP_BLOCK_FREE then snd (merge_with_next (of_nat (?a + span us)) m2) else m2) = m3"
    "chain m3 ?a 0 (us @ (True, j) # vs) 0" "j + span vs = k + span ys"
    "\<And>t. t < 4294967296 \<Longrightarrow> t < ?a + span us \<or> ?a + span us + BLOCK_SIZE + j + link vs \<le> t \<Longrightarrow> m3 (of_nat t) = m2 (of_nat t)"
    using join_right [OF m2(2) a(1) a2 refl r] by blast
  have fr: "freed xs n ys = us @ (True, j) # vs" by (simp add: freed_def l r)
  have p16: "p mod 16 = 0" using a(3) ok span16 [of xs] by (simp add: p blocks_ok_def mod_eq_0_iff_dvd)
  have pl: "p < 4294967296" using sp a(4) by (simp add: p)
  have pu: "unat (of_nat p :: u32) = p" by (rule unat_of_nat32 [OF pl])
  have guard: "\<not> ((of_nat p :: u32) = 0 \<or> of_nat p < arena_begin arena + of_nat BLOCK_SIZE \<or> arena_end arena \<le> of_nat p \<or>
      (of_nat p :: u32) AND 15 \<noteq> 0 \<or> inspect_heap arena h = None)"
  proof -
    have "unat (arena_begin arena + of_nat BLOCK_SIZE) = ?a + BLOCK_SIZE" "unat (arena_end arena) = ?a + KHEAP_ARENA_SIZE"
      using a(4) by (simp_all add: arena_begin_def arena_end_def unat_add_no_wrap)
    moreover have "16 \<le> n" using ok by (simp add: blocks_ok_def block_ok_def)
    moreover have "inspect_heap arena h = Some (stats_of (xs @ (False, n) # ys))" using inspect_heap_iff [OF ar, of h] wf by auto
    ultimately show ?thesis
      using pu pl p16 sp of_nat_nonzero32 [of p] by (auto simp: word_less_nat_alt word_le_nat_alt low_bits_zero p)
  qed
  have fp: "find_payload ?m (of_nat p) arena = Some (of_nat ?x)" using find_payload_found [OF c a(1,2) p] by simp
  have bx: "(of_nat ?x :: u32) \<noteq> 0" using a by (intro of_nat_nonzero32) auto
  have cm: "chain ?m ?a 0 (xs @ [(False, n)] @ ys) 0" using c by simp
  have sx: "state (blk ?m ?x) = HEAP_BLOCK_ALLOCATED" using chain_middle(1) [OF cm refl] by (simp add: header_def)
  have rel: "release_block (of_nat ?x) ?m = m3"
    unfolding release_block_def Let_def m1_def [symmetric] m2(1) [unfolded Let_def] prod.case m3(1) [unfolded Let_def] ..
  have "kfree arena (of_nat p) h = Some (True, h\<lparr>heap_memory := m3\<rparr>)"
    using bx sx by (simp only: kfree_def if_not_P [OF guard] h(2) fp Option.bind.bind_lunit) (simp add: rel del: of_nat_add)
  moreover have "heap_wf arena (h\<lparr>heap_memory := m3\<rparr>) (freed xs n ys)"
    using freed_ok [OF ok] m3(2) h by (simp add: heap_wf_def fr)
  moreover have "m3 (of_nat t) = ?m (of_nat t)" if "t < 4294967296" "kept ?a (freed xs n ys) t" for t
  proof -
    have t: "t < ?a + span us \<or> ?a + span us + BLOCK_SIZE + j + link vs \<le> t"
      using kept_outside [of ?a us j vs t] that(2) by (simp add: fr)
    from r have far: "?x + BLOCK_SIZE + n + link ys \<le> ?a + span us + BLOCK_SIZE + j + link vs"
      using m2(3) link_le [of ys] by (cases rule: free_right_cases) auto
    have "m1 (of_nat t) = ?m (of_nat t)"
      unfolding m1_def using that(1) t far m2(3,4) a(2) link_le [of ys] by (intro put_bytes(2)) auto
    then show ?thesis using m2(5) [OF that(1)] m3(4) [OF that(1) t] t far by auto
  qed
  ultimately show ?thesis by (intro that [of "h\<lparr>heap_memory := m3\<rparr>"]) simp_all
qed

lemma kfree_refused:
  assumes ar: "arena_placed arena" and wf: "heap_wf arena h bs" and l: "live (unat arena) bs (unat p) = None"
  shows "kfree arena p h = Some (False, h)"
proof -
  let ?a = "unat arena" and ?m = "heap_memory h"
  have c: "chain ?m ?a 0 bs 0" "bs \<noteq> []" "first_block h = arena" and a: "0 < ?a" "?a + span bs < 4294967296"
    using wf ar by (simp_all add: heap_wf_def blocks_ok_def arena_placed_def)
  show ?thesis
  proof (cases "\<exists>x \<in> set (addrs ?a bs). unat p = x + BLOCK_SIZE")
    case True
    then obtain xs f n ys where x: "bs = xs @ (f, n) # ys" "unat p = ?a + span xs + BLOCK_SIZE" by (auto simp: addrs_split)
    have f using l x live_split [of ?a bs "unat p" n] by (cases f) auto
    have fp: "find_payload ?m (of_nat (unat p)) (of_nat ?a) = Some (of_nat (?a + span xs))"
      using find_payload_found [of ?m ?a 0 xs f n ys "unat p"] c a x by simp
    have cm: "chain ?m ?a 0 (xs @ [(f, n)] @ ys) 0" using c x by simp
    have "state (blk ?m (?a + span xs)) = HEAP_BLOCK_FREE" using chain_middle(1) [OF cm refl] \<open>f\<close> by (simp add: header_def)
    then show ?thesis using fp c(3) by (simp add: kfree_def)
  next
    case False
    then have "find_payload ?m (of_nat (unat p)) (of_nat ?a) = Some 0"
      using find_payload_none [OF c(1) a _ c(2), of "unat p"] unat_less_width(3) [of p] by auto
    then show ?thesis using c(3) by (simp add: kfree_def)
  qed
qed

section \<open>Initialization and zeroed allocations\<close>

lemma fold_zero:
  "p + n \<le> 4294967296 \<Longrightarrow> t < 4294967296 \<Longrightarrow>
   fold (\<lambda>i m. m(of_nat p + of_nat i := 0)) [0..<n] m (of_nat t) = (if p \<le> t \<and> t < p + n then 0 else m (of_nat t))"
  for m :: memory
proof (induction n)
  case (Suc n)
  have "(of_nat t :: u32) = of_nat p + of_nat n \<longleftrightarrow> t = p + n" using of_nat_eq32 [of t "p + n"] Suc.prems by simp
  with Suc show ?case by (auto simp: less_Suc_eq)
qed auto

lemma kheap_init_spec:
  assumes ar: "arena_placed arena"
  obtains h' where "kheap_init arena h = (True, h')" "heap_wf arena h' [(True, KHEAP_ARENA_SIZE - BLOCK_SIZE)]"
    "\<And>t. t < 4294967296 \<Longrightarrow> t < unat arena \<or> unat arena + KHEAP_ARENA_SIZE \<le> t \<Longrightarrow> heap_memory h' (of_nat t) = heap_memory h (of_nat t)"
proof -
  define a where "a = unat arena"
  have arena: "arena = of_nat a" and a: "a + KHEAP_ARENA_SIZE < 4294967296" using ar by (simp_all add: a_def arena_placed_def)
  define m0 where "m0 = fold (\<lambda>i m. m(of_nat a + of_nat i := 0)) [0..<KHEAP_ARENA_SIZE] (heap_memory h)"
  define m where "m = put_next (of_nat a) 0 (put_previous (of_nat a) 0 (put_payload_size (of_nat a) 0x3FFE0 (put_state (of_nat a) HEAP_BLOCK_FREE
    (put_magic (of_nat a) HEAP_BLOCK_MAGIC m0))))"
  define h' where "h' = h\<lparr>heap_memory := m, first_block := of_nat a, heap_initialized := True\<rparr>"
  have b: "a + 32 \<le> 4294967296" using a by simp
  have "blk m a = header True (KHEAP_ARENA_SIZE - BLOCK_SIZE) 0 0" using b by (simp add: m_def blk_put_same header_def)
  then have wf: "heap_wf arena h' [(True, KHEAP_ARENA_SIZE - BLOCK_SIZE)]"
    by (simp add: heap_wf_def h'_def blocks_ok_def block_ok_def arena flip: a_def)
  then have "inspect_heap arena h' = Some (stats_of [(True, KHEAP_ARENA_SIZE - BLOCK_SIZE)])" using inspect_heap_iff [OF ar] by blast
  then have "kheap_init arena h = (True, h')"
    unfolding kheap_init_def arena Let_def m0_def [symmetric] by (simp add: h'_def m_def del: upt_rec_numeral)
  moreover have "heap_memory h' (of_nat t) = heap_memory h (of_nat t)"
    if "t < 4294967296" "t < a \<or> a + KHEAP_ARENA_SIZE \<le> t" for t
  proof -
    have "m (of_nat t) = m0 (of_nat t)" using that b by (auto simp: m_def put_bytes)
    also have "\<dots> = heap_memory h (of_nat t)" unfolding m0_def using that a by (subst fold_zero) auto
    finally show ?thesis by (simp add: h'_def)
  qed
  ultimately show ?thesis using wf by (intro that [of h']) (simp_all add: a_def)
qed

text \<open>The headers stay when only the bytes of an allocation change.\<close>

lemma chain_kept:
  assumes frame: "\<And>t. t < 4294967296 \<Longrightarrow> t < p \<or> p + n \<le> t \<Longrightarrow> m' (of_nat t) = m (of_nat t)"
  shows "a + span bs \<le> 4294967296 \<Longrightarrow> live a bs p = Some n \<Longrightarrow> chain m' a q bs e = chain m a q bs e"
proof (induction bs arbitrary: a q rule: span.induct)
  case (2 f k bs)
  have r: "a + BLOCK_SIZE \<le> p" "p + n \<le> a + span ((f, k) # bs)" using live_range [OF 2(3)] by simp_all
  have "blk m' a = blk m a" using r 2(2) by (intro blk_cong frame) auto
  moreover have "chain m' (a + BLOCK_SIZE + k) (of_nat a) bs e = chain m (a + BLOCK_SIZE + k) (of_nat a) bs e"
  proof (cases "\<not> f \<and> p = a + BLOCK_SIZE")
    case True
    then have "n = k" using 2(3) by simp
    then show ?thesis using True 2(2) by (intro chain_bytes frame) auto
  next
    case False
    then have "live (a + BLOCK_SIZE + k) bs p = Some n" using 2(3) by (auto split: if_splits)
    then show ?thesis using 2(2) by (intro 2(1)) auto
  qed
  ultimately show ?case by (simp only: chain.simps)
qed simp

lemma heap_payload_write:
  assumes "arena_placed arena" "heap_wf arena h bs" "live (unat arena) bs p = Some n"
    and "\<And>t. t < 4294967296 \<Longrightarrow> t < p \<or> p + n \<le> t \<Longrightarrow> m' (of_nat t) = heap_memory h (of_nat t)"
  shows "heap_wf arena (h\<lparr>heap_memory := m'\<rparr>) bs"
proof -
  have "chain m' (unat arena) 0 bs 0 = chain (heap_memory h) (unat arena) 0 bs 0"
    using assms(1-3) by (intro chain_kept [where p = p and n = n] assms(4)) (auto simp: heap_wf_def arena_placed_def blocks_ok_def)
  then show ?thesis using assms(2) by (simp add: heap_wf_def)
qed

section \<open>The contract of an allocator\<close>

text \<open>
  What users of a heap rely on. \<open>good s l\<close>: the allocator is in a sound state in which the live
  allocations are \<open>l\<close>, sizes by address. Allocation requests are of any type with a length.
\<close>

locale heap_allocator =
  fixes good :: "'s \<Rightarrow> (nat \<rightharpoonup> nat) \<Rightarrow> bool"
    and byte :: "'s \<Rightarrow> nat \<Rightarrow> 'b"
    and poke :: "nat \<Rightarrow> 'b \<Rightarrow> 's \<Rightarrow> 's"
    and lo hi :: nat
    and len :: "'n \<Rightarrow> nat"
    and alloc :: "'n \<Rightarrow> 's \<Rightarrow> (nat \<times> 's) option"
    and release :: "nat \<Rightarrow> 's \<Rightarrow> (bool \<times> 's) option"
  assumes inside: "good s l \<Longrightarrow> l p = Some n \<Longrightarrow> lo \<le> p \<and> p + n \<le> hi"
    and disjoint: "good s l \<Longrightarrow> l p = Some n \<Longrightarrow> l q = Some k \<Longrightarrow> p \<noteq> q \<Longrightarrow> p + n \<le> q \<or> q + k \<le> p"
    and alloc_null: "good s l \<Longrightarrow> alloc r s = Some (0, s') \<Longrightarrow> s' = s"
    and alloc_works: "good s l \<Longrightarrow> alloc r s = Some (p, s') \<Longrightarrow> p \<noteq> 0 \<Longrightarrow>
      l p = None \<and> (\<exists>k \<ge> len r. good s' (l(p \<mapsto> k))) \<and>
      (\<forall>t < 4294967296. t < lo \<or> hi \<le> t \<or> (\<exists>q k. l q = Some k \<and> q \<le> t \<and> t < q + k) \<longrightarrow> byte s' t = byte s t)"
    and release_null: "good s l \<Longrightarrow> release p s = Some (False, s') \<Longrightarrow> s' = s \<and> l p = None"
    and release_works: "good s l \<Longrightarrow> release p s = Some (True, s') \<Longrightarrow> l p \<noteq> None \<and> good s' (l(p := None)) \<and>
      (\<forall>t < 4294967296. t < lo \<or> hi \<le> t \<or> (\<exists>q k. q \<noteq> p \<and> l q = Some k \<and> q \<le> t \<and> t < q + k) \<longrightarrow> byte s' t = byte s t)"
    and poke_good: "good s l \<Longrightarrow> l p = Some n \<Longrightarrow> i < n \<Longrightarrow> good (poke (p + i) v s) l"
    and poke_byte: "t < 4294967296 \<Longrightarrow> u < 4294967296 \<Longrightarrow> byte (poke t v s) u = (if u = t then v else byte s u)"
    and top: "good s l \<Longrightarrow> hi < 4294967296"
begin

text \<open>A client's record of what it stored agrees with the heap.\<close>

definition agrees :: "'s \<Rightarrow> (nat \<rightharpoonup> 'b list) \<Rightarrow> (nat \<rightharpoonup> nat) \<Rightarrow> bool" where
  "agrees s L l \<longleftrightarrow> good s l \<and> dom L = dom l \<and>
     (\<forall>p cs n. L p = Some cs \<and> l p = Some n \<longrightarrow> length cs \<le> n \<and> (\<forall>i < length cs. byte s (p + i) = cs ! i))"

lemma agrees_alloc:
  assumes ag: "agrees s L l" and al: "alloc r s = Some (p, s')" "p \<noteq> 0" and cs: "length cs = len r" "\<forall>i < len r. byte s' (p + i) = cs ! i"
  shows "\<exists>l'. agrees s' (L(p \<mapsto> cs)) l'"
proof -
  have g: "good s l" using ag by (simp add: agrees_def)
  note w = alloc_works [OF g al]
  obtain k where k: "len r \<le> k" "good s' (l(p \<mapsto> k))" "l p = None" using w by blast
  have "length ds \<le> m \<and> (\<forall>i < length ds. byte s' (q + i) = ds ! i)" if "L q = Some ds" "l q = Some m" "q \<noteq> p" for q ds m
  proof -
    have d: "length ds \<le> m" "\<forall>i < length ds. byte s (q + i) = ds ! i" using ag that by (auto simp: agrees_def)
    have "byte s' (q + i) = byte s (q + i)" if "i < length ds" for i
    proof -
      have "q + i < 4294967296" "q \<le> q + i \<and> q + i < q + m" using d(1) that inside [OF g \<open>l q = Some m\<close>] top [OF g] by auto
      then show ?thesis using w \<open>l q = Some m\<close> by blast
    qed
    then show ?thesis using d by simp
  qed
  then have "agrees s' (L(p \<mapsto> cs)) (l(p \<mapsto> k))" using ag k cs by (auto simp: agrees_def)
  then show ?thesis by blast
qed

lemma agrees_release:
  assumes ag: "agrees s L l" and re: "release p s = Some (True, s')"
  shows "agrees s' (L(p := None)) (l(p := None))"
proof -
  have g: "good s l" using ag by (simp add: agrees_def)
  note w = release_works [OF g re]
  have "length ds \<le> m \<and> (\<forall>i < length ds. byte s' (q + i) = ds ! i)" if "L q = Some ds" "l q = Some m" "q \<noteq> p" for q ds m
  proof -
    have d: "length ds \<le> m" "\<forall>i < length ds. byte s (q + i) = ds ! i" using ag that by (auto simp: agrees_def)
    have "byte s' (q + i) = byte s (q + i)" if "i < length ds" for i
    proof -
      have "q + i < 4294967296" "q \<le> q + i \<and> q + i < q + m"
        using d(1) that inside [OF g \<open>l q = Some m\<close>] top [OF g] by auto
      then show ?thesis using w \<open>l q = Some m\<close> \<open>q \<noteq> p\<close> by blast
    qed
    then show ?thesis using d by simp
  qed
  then show ?thesis using ag w by (auto simp: agrees_def)
qed

lemma agrees_poke:
  assumes ag: "agrees s L l" and p: "L p = Some cs" "i < length cs"
  shows "agrees (poke (p + i) v s) (L(p \<mapsto> cs[i := v])) l"
proof -
  have g: "good s l" using ag by (simp add: agrees_def)
  obtain n where n: "l p = Some n" using ag p by (fastforce simp: agrees_def dom_def)
  have c: "length cs \<le> n" "byte s (p + j) = cs ! j" if "j < length cs" for j using ag p n that by (auto simp: agrees_def)
  have lt: "p + j < 4294967296" if "j < length cs" for j using inside [OF g n] top [OF g] c(1) [OF that] that by linarith
  have "byte (poke (p + i) v s) (q + j) = ds ! j" if "L q = Some ds" "l q = Some m" "q \<noteq> p" "j < length ds" for q ds m j
  proof -
    have d: "length ds \<le> m" "byte s (q + j) = ds ! j" using ag that by (auto simp: agrees_def)
    have "p + n \<le> q \<or> q + m \<le> p" using disjoint [OF g n that(2)] that(3) by simp
    then have "p + i \<noteq> q + j" using c(1) [OF p(2)] that(4) p(2) d(1) by linarith
    moreover have "q + j < 4294967296" using d(1) that(4) inside [OF g that(2)] top [OF g] by linarith
    ultimately show ?thesis using d(2) lt [OF p(2)] by (simp add: poke_byte)
  qed
  moreover have "byte (poke (p + i) v s) (p + j) = cs[i := v] ! j" if "j < length cs" for j
    using c(2) [OF that] lt [OF that] lt [OF p(2)] that by (auto simp: poke_byte nth_list_update)
  moreover have "good (poke (p + i) v s) l" using poke_good [OF g n, of i v] c(1) [OF p(2)] p(2) by simp
  ultimately show ?thesis using ag n p by (auto simp: agrees_def)
qed

end

definition heap_good :: "u32 \<Rightarrow> heap \<Rightarrow> (nat \<rightharpoonup> nat) \<Rightarrow> bool" where
  "heap_good arena h l \<longleftrightarrow> arena_placed arena \<and> (\<exists>bs. heap_wf arena h bs \<and> l = live (unat arena) bs)"

definition heap_byte :: "heap \<Rightarrow> nat \<Rightarrow> u8" where
  "heap_byte h t = heap_memory h (of_nat t)"

definition heap_poke :: "nat \<Rightarrow> u8 \<Rightarrow> heap \<Rightarrow> heap" where
  "heap_poke t v h = h\<lparr>heap_memory := (heap_memory h)(of_nat t := v)\<rparr>"

definition as_nat :: "(u32 \<times> heap) option \<Rightarrow> (nat \<times> heap) option" where
  "as_nat = map_option (\<lambda>(p, h). (unat p, h))"

lemma good_kept:
  assumes "heap_wf arena h bs"
  shows "t < unat arena \<or> unat arena + KHEAP_ARENA_SIZE \<le> t \<or> (\<exists>q k. live (unat arena) bs q = Some k \<and> q \<le> t \<and> t < q + k) \<longleftrightarrow>
    kept (unat arena) bs t"
  using assms by (simp add: kept_def heap_wf_def blocks_ok_def)

text \<open>\<open>kmalloc\<close> in terms of the contract, whatever the request.\<close>

lemma kmalloc_cases:
  assumes ar: "arena_placed arena" and wf: "heap_wf arena h bs"
  obtains "kmalloc arena sz h = Some (0, h)"
    | p h' k cs where "kmalloc arena sz h = Some (of_nat p, h')" "0 < p" "p < 4294967296" "heap_wf arena h' cs" "unat sz \<le> k"
      "p + k \<le> unat arena + KHEAP_ARENA_SIZE" "live (unat arena) cs = (live (unat arena) bs)(p \<mapsto> k)" "live (unat arena) bs p = None"
      "\<And>t. t < 4294967296 \<Longrightarrow> kept (unat arena) bs t \<Longrightarrow> heap_memory h' (of_nat t) = heap_memory h (of_nat t)"
proof (cases "sz = 0 \<or> sz > 0xFFFFFFF0 \<or> alloc_blocks (align16 (unat sz)) bs = None")
  case True
  from kmalloc_refused [OF ar wf this] show ?thesis by (rule that(1))
next
  case False
  then obtain off cs where al: "alloc_blocks (align16 (unat sz)) bs = Some (off, cs)" and sz: "sz \<noteq> 0" "sz \<le> 0xFFFFFFF0" by auto
  have a: "unat arena + KHEAP_ARENA_SIZE < 4294967296" using ar by (simp add: arena_placed_def)
  show ?thesis
    by (rule kmalloc_grants [OF ar wf sz al], rule that(2) [of "unat arena + off + BLOCK_SIZE"], assumption)
      (use a in \<open>auto simp del: of_nat_add\<close>)
qed

lemma no_overflow: "cnt \<noteq> 0 \<Longrightarrow> \<not> SIZE_MAX div cnt < sz \<Longrightarrow> unat (cnt * sz) = unat cnt * unat sz" for cnt sz :: u32
proof -
  assume c: "cnt \<noteq> 0" and "\<not> SIZE_MAX div cnt < sz"
  then have "unat sz \<le> 4294967295 div unat cnt" by (simp add: word_less_nat_alt not_less unat_div_distrib)
  then have "unat cnt * unat sz \<le> unat cnt * (4294967295 div unat cnt)" by (rule mult_le_mono2)
  also have "\<dots> \<le> 4294967295" by (rule times_div_less_eq_dividend)
  finally show ?thesis by (simp add: unat_word_ariths)
qed

lemma kcalloc_cases:
  assumes ar: "arena_placed arena" and wf: "heap_wf arena h bs"
  obtains "kcalloc arena cnt sz h = Some (0, h)"
    | p h' k cs where "kcalloc arena cnt sz h = Some (of_nat p, h')" "0 < p" "p < 4294967296" "heap_wf arena h' cs" "unat cnt * unat sz \<le> k"
      "p + k \<le> unat arena + KHEAP_ARENA_SIZE" "live (unat arena) cs = (live (unat arena) bs)(p \<mapsto> k)" "live (unat arena) bs p = None"
      "\<And>t. t < 4294967296 \<Longrightarrow> kept (unat arena) bs t \<Longrightarrow> heap_memory h' (of_nat t) = heap_memory h (of_nat t)"
      "\<And>i. i < unat cnt * unat sz \<Longrightarrow> heap_memory h' (of_nat (p + i)) = 0"
proof (cases "cnt = 0 \<or> sz = 0 \<or> SIZE_MAX div cnt < sz")
  case True
  then show ?thesis by (intro that(1)) (simp add: kcalloc_def)
next
  case False
  let ?n = "unat cnt * unat sz"
  have total: "unat (cnt * sz) = ?n" using False by (intro no_overflow) simp_all
  have kc: "kcalloc arena cnt sz h = kmalloc arena (cnt * sz) h \<bind> (\<lambda>(memory, h). Some (if memory = 0 then (0, h)
      else (memory, h\<lparr>heap_memory := fold (\<lambda>index m. m(memory + of_nat index := 0)) [0..<?n] (heap_memory h)\<rparr>)))"
    unfolding kcalloc_def if_not_P [OF False] Let_def total ..
  show ?thesis
  proof (cases rule: kmalloc_cases [OF ar wf, of "cnt * sz"])
    case 1
    then show ?thesis by (intro that(1)) (simp add: kc)
  next
    case (2 p h' k cs)
    have a: "unat arena + KHEAP_ARENA_SIZE < 4294967296" using ar by (simp add: arena_placed_def)
    let ?m = "fold (\<lambda>index m. m(of_nat p + of_nat index := 0)) [0..<?n] (heap_memory h')"
    have m: "?m (of_nat t) = (if p \<le> t \<and> t < p + ?n then 0 else heap_memory h' (of_nat t))" if "t < 4294967296" for t
      using 2(5,6) a that total by (intro fold_zero) auto
    have k: "live (unat arena) cs p = Some k" using 2(7) by simp
    have "kcalloc arena cnt sz h = Some (of_nat p, h'\<lparr>heap_memory := ?m\<rparr>)"
      using 2(1) of_nat_nonzero32 [OF 2(2,3)] by (simp add: kc)
    moreover have "heap_wf arena (h'\<lparr>heap_memory := ?m\<rparr>) cs"
      using m 2(5) total by (intro heap_payload_write [OF ar 2(4) k]) auto
    moreover have "?m (of_nat t) = heap_memory h (of_nat t)" if t: "t < 4294967296" "kept (unat arena) bs t" for t
    proof -
      have "\<not> (p \<le> t \<and> t < p + k)"
      proof
        assume i: "p \<le> t \<and> t < p + k"
        from t(2) [folded good_kept [OF wf]] consider "t < unat arena" | "unat arena + KHEAP_ARENA_SIZE \<le> t"
          | q j where "live (unat arena) bs q = Some j" "q \<le> t" "t < q + j" by blast
        then show False
        proof cases
          case (3 q j)
          then have "live (unat arena) cs q = Some j" "q \<noteq> p" using 2(7,8) by auto
          from live_disjoint [OF k this(1)] this(2) i 3 show False by auto
        qed (use i 2(6) live_range [OF k] in auto)
      qed
      then show ?thesis using m [OF t(1)] 2(9) [OF t] 2(5) total by auto
    qed
    moreover have "?m (of_nat (p + i)) = 0" if "i < ?n" for i
      using m [of "p + i"] that 2(5,6) a total by (simp del: of_nat_add)
    ultimately show ?thesis using 2 total by (intro that(2) [of p "h'\<lparr>heap_memory := ?m\<rparr>" cs k]) (simp_all del: of_nat_add)
  qed
qed

lemma kfree_cases:
  assumes ar: "arena_placed arena" and wf: "heap_wf arena h bs"
  obtains "kfree arena p h = Some (False, h)" "live (unat arena) bs (unat p) = None"
    | h' cs where "kfree arena p h = Some (True, h')" "live (unat arena) bs (unat p) \<noteq> None" "heap_wf arena h' cs"
      "live (unat arena) cs = (live (unat arena) bs)(unat p := None)"
      "\<And>t. t < 4294967296 \<Longrightarrow> kept (unat arena) cs t \<Longrightarrow> heap_memory h' (of_nat t) = heap_memory h (of_nat t)"
proof (cases "live (unat arena) bs (unat p)")
  case None
  then show ?thesis using kfree_refused [OF ar wf] that(1) by simp
next
  case (Some n)
  then obtain xs ys where bs: "bs = xs @ (False, n) # ys" "unat p = unat arena + span xs + BLOCK_SIZE" by (auto simp: live_split)
  obtain h' where k: "kfree arena (of_nat (unat p)) h = Some (True, h')" "heap_wf arena h' (freed xs n ys)"
    "\<And>t. t < 4294967296 \<Longrightarrow> kept (unat arena) (freed xs n ys) t \<Longrightarrow> heap_memory h' (of_nat t) = heap_memory h (of_nat t)"
    using kfree_releases [OF ar wf [unfolded bs(1)] bs(2)] by blast
  have "kfree arena p h = Some (True, h')" using k(1) by simp
  from that(2) [OF this _ k(2) _ k(3)] Some live_freed [of "unat arena" xs n ys] bs show ?thesis by simp
qed

text \<open>The laws that do not depend on how the memory was asked for.\<close>

lemma heap_good_facts:
  assumes "heap_good arena h l"
  shows "l p = Some n \<Longrightarrow> unat arena \<le> p \<and> p + n \<le> unat arena + KHEAP_ARENA_SIZE"
    and "l p = Some n \<Longrightarrow> l q = Some k \<Longrightarrow> p \<noteq> q \<Longrightarrow> p + n \<le> q \<or> q + k \<le> p"
    and "l p = Some n \<Longrightarrow> i < n \<Longrightarrow> heap_good arena (heap_poke (p + i) v h) l"
    and "unat arena + KHEAP_ARENA_SIZE < 4294967296"
proof -
  obtain bs where ar: "arena_placed arena" and wf: "heap_wf arena h bs" and l: "l = live (unat arena) bs"
    using assms by (auto simp: heap_good_def)
  show "l p = Some n \<Longrightarrow> unat arena \<le> p \<and> p + n \<le> unat arena + KHEAP_ARENA_SIZE"
    using live_range [of "unat arena" bs p n] wf by (auto simp: l heap_wf_def blocks_ok_def)
  show "l p = Some n \<Longrightarrow> l q = Some k \<Longrightarrow> p \<noteq> q \<Longrightarrow> p + n \<le> q \<or> q + k \<le> p"
    using live_disjoint [of "unat arena" bs p n q k] by (auto simp: l)
  show top: "unat arena + KHEAP_ARENA_SIZE < 4294967296" using ar by (simp add: arena_placed_def)
  show "heap_good arena (heap_poke (p + i) v h) l" if "l p = Some n" "i < n"
  proof -
    have n: "live (unat arena) bs p = Some n" using that l by simp
    have lt: "p + i < 4294967296" using live_range [OF n] that(2) top wf by (simp add: heap_wf_def blocks_ok_def)
    have "((heap_memory h)(of_nat (p + i) := v)) (of_nat t) = heap_memory h (of_nat t)" if "t < 4294967296" "t < p \<or> p + n \<le> t" for t
      using of_nat_eq32 [OF that(1) lt] that(2) \<open>i < n\<close> by (auto simp del: of_nat_add)
    then have "heap_wf arena (heap_poke (p + i) v h) bs" unfolding heap_poke_def by (rule heap_payload_write [OF ar wf n])
    then show ?thesis using ar l by (auto simp: heap_good_def)
  qed
qed

lemma heap_poke_byte: "t < 4294967296 \<Longrightarrow> u < 4294967296 \<Longrightarrow> heap_byte (heap_poke t v h) u = (if u = t then v else heap_byte h u)"
  by (simp add: heap_byte_def heap_poke_def of_nat_eq32)

lemma heap_release:
  assumes "heap_good arena h l"
  shows "kfree arena (of_nat p) h = Some (False, h') \<Longrightarrow> h' = h \<and> (p < 4294967296 \<longrightarrow> l p = None)"
    and "p < 4294967296 \<Longrightarrow> kfree arena (of_nat p) h = Some (True, h') \<Longrightarrow> l p \<noteq> None \<and> heap_good arena h' (l(p := None)) \<and>
      (\<forall>t < 4294967296. t < unat arena \<or> unat arena + KHEAP_ARENA_SIZE \<le> t \<or> (\<exists>q k. q \<noteq> p \<and> l q = Some k \<and> q \<le> t \<and> t < q + k) \<longrightarrow>
        heap_byte h' t = heap_byte h t)"
proof -
  obtain bs where ar: "arena_placed arena" and wf: "heap_wf arena h bs" and l: "l = live (unat arena) bs"
    using assms by (auto simp: heap_good_def)
  show "kfree arena (of_nat p) h = Some (False, h') \<Longrightarrow> h' = h \<and> (p < 4294967296 \<longrightarrow> l p = None)"
    by (cases rule: kfree_cases [OF ar wf, of "of_nat p"]) (auto simp: l unat_of_nat32)
  assume p: "p < 4294967296" and f: "kfree arena (of_nat p) h = Some (True, h')"
  show "l p \<noteq> None \<and> heap_good arena h' (l(p := None)) \<and>
      (\<forall>t < 4294967296. t < unat arena \<or> unat arena + KHEAP_ARENA_SIZE \<le> t \<or> (\<exists>q k. q \<noteq> p \<and> l q = Some k \<and> q \<le> t \<and> t < q + k) \<longrightarrow>
        heap_byte h' t = heap_byte h t)"
  proof (cases rule: kfree_cases [OF ar wf, of "of_nat p"])
    case 1
    then show ?thesis using f by simp
  next
    case (2 h'' cs)
    then have cs: "live (unat arena) cs = l(p := None)" "h'' = h'" "l p \<noteq> None" using f p by (simp_all add: l unat_of_nat32)
    have "kept (unat arena) cs t" if "t < unat arena \<or> unat arena + KHEAP_ARENA_SIZE \<le> t \<or>
        (\<exists>q k. q \<noteq> p \<and> l q = Some k \<and> q \<le> t \<and> t < q + k)" for t
      unfolding good_kept [OF 2(3), symmetric] cs(1) using that by auto
    then show ?thesis using 2(3,5) cs ar unfolding heap_good_def heap_byte_def by (metis (no_types))
  qed
qed

definition heap_free :: "u32 \<Rightarrow> nat \<Rightarrow> heap \<Rightarrow> (bool \<times> heap) option" where
  "heap_free arena p h = (if p < 4294967296 then kfree arena (of_nat p) h else Some (False, h))"

lemma heap_free:
  assumes "heap_good arena h l"
  shows "heap_free arena p h = Some (False, h') \<Longrightarrow> h' = h \<and> l p = None"
    and "heap_free arena p h = Some (True, h') \<Longrightarrow> l p \<noteq> None \<and> heap_good arena h' (l(p := None)) \<and>
      (\<forall>t < 4294967296. t < unat arena \<or> unat arena + KHEAP_ARENA_SIZE \<le> t \<or> (\<exists>q k. q \<noteq> p \<and> l q = Some k \<and> q \<le> t \<and> t < q + k) \<longrightarrow>
        heap_byte h' t = heap_byte h t)"
proof -
  have big: "l p = None" if "\<not> p < 4294967296"
    using heap_good_facts(1,4) [OF assms] that by (cases "l p") fastforce+
  show "heap_free arena p h = Some (False, h') \<Longrightarrow> h' = h \<and> l p = None"
    using heap_release(1) [OF assms, of p h'] big by (simp add: heap_free_def split: if_splits)
  assume f: "heap_free arena p h = Some (True, h')"
  then have "p < 4294967296" "kfree arena (of_nat p) h = Some (True, h')" by (simp_all add: heap_free_def split: if_splits)
  then show "l p \<noteq> None \<and> heap_good arena h' (l(p := None)) \<and>
      (\<forall>t < 4294967296. t < unat arena \<or> unat arena + KHEAP_ARENA_SIZE \<le> t \<or> (\<exists>q k. q \<noteq> p \<and> l q = Some k \<and> q \<le> t \<and> t < q + k) \<longrightarrow>
        heap_byte h' t = heap_byte h t)"
    by (rule heap_release(2) [OF assms])
qed

interpretation kmalloc_heap: heap_allocator "heap_good arena" heap_byte heap_poke "unat arena" "unat arena + KHEAP_ARENA_SIZE" unat
  "\<lambda>sz h. as_nat (kmalloc arena sz h)" "heap_free arena" for arena
proof (unfold_locales, goal_cases)
  case (3 h l sz h')
  obtain bs where ar: "arena_placed arena" and wf: "heap_wf arena h bs" and l: "l = live (unat arena) bs"
    using 3(1) by (auto simp: heap_good_def)
  show ?case
    using 3(2) by (cases rule: kmalloc_cases [OF ar wf, of sz]) (auto simp: as_nat_def unat_of_nat32)
next
  case (4 h l sz p h')
  obtain bs where ar: "arena_placed arena" and wf: "heap_wf arena h bs" and l: "l = live (unat arena) bs"
    using 4(1) by (auto simp: heap_good_def)
  show ?case
  proof (cases rule: kmalloc_cases [OF ar wf, of sz])
    case 1
    then show ?thesis using 4(2,3) by (simp add: as_nat_def)
  next
    case (2 q h'' k cs)
    then have "q = p" "h'' = h'" using 4(2) by (simp_all add: as_nat_def unat_of_nat32)
    then have g: "heap_good arena h' (l(p \<mapsto> k))" and b: "\<And>t. t < 4294967296 \<Longrightarrow> kept (unat arena) bs t \<Longrightarrow> heap_byte h' t = heap_byte h t"
      using 2(4,7,9) ar by (auto simp: heap_good_def heap_byte_def l)
    show ?thesis unfolding l good_kept [OF wf] using g b 2(5,8) \<open>q = p\<close> l by blast
  qed
next
  case (1 h l p n)
  then show ?case by (rule heap_good_facts(1))
next
  case (2 h l p n q k)
  then show ?case by (rule heap_good_facts(2))
next
  case (5 h l p h')
  then show ?case by (rule heap_free(1))
next
  case (6 h l p h')
  then show ?case by (rule heap_free(2))
next
  case (7 h l p n i v)
  then show ?case by (rule heap_good_facts(3))
next
  case (8 t u v h)
  then show ?case by (rule heap_poke_byte)
next
  case (9 h l)
  then show ?case by (rule heap_good_facts(4))
qed

interpretation kcalloc_heap: heap_allocator "heap_good arena" heap_byte heap_poke "unat arena" "unat arena + KHEAP_ARENA_SIZE"
  "\<lambda>(cnt, sz). unat cnt * unat sz" "\<lambda>(cnt, sz) h. as_nat (kcalloc arena cnt sz h)"
  "heap_free arena" for arena
proof (unfold_locales, goal_cases)
  case (3 h l r h')
  obtain bs where ar: "arena_placed arena" and wf: "heap_wf arena h bs" and l: "l = live (unat arena) bs"
    using 3(1) by (auto simp: heap_good_def)
  show ?case
    using 3(2) by (cases rule: kcalloc_cases [OF ar wf, of "fst r" "snd r"]) (auto simp: as_nat_def unat_of_nat32 case_prod_beta)
next
  case (4 h l r p h')
  obtain bs where ar: "arena_placed arena" and wf: "heap_wf arena h bs" and l: "l = live (unat arena) bs"
    using 4(1) by (auto simp: heap_good_def)
  show ?case
  proof (cases rule: kcalloc_cases [OF ar wf, of "fst r" "snd r"])
    case 1
    then show ?thesis using 4(2,3) by (simp add: as_nat_def case_prod_beta)
  next
    case (2 q h'' k cs)
    then have "q = p" "h'' = h'" using 4(2) by (simp_all add: as_nat_def unat_of_nat32 case_prod_beta)
    then have g: "heap_good arena h' (l(p \<mapsto> k))" and b: "\<And>t. t < 4294967296 \<Longrightarrow> kept (unat arena) bs t \<Longrightarrow> heap_byte h' t = heap_byte h t"
      using 2(4,7,9) ar by (auto simp: heap_good_def heap_byte_def l)
    show ?thesis unfolding l good_kept [OF wf] case_prod_beta using g b 2(5,8) \<open>q = p\<close> l by blast
  qed
next
  case (1 h l p n)
  then show ?case by (rule heap_good_facts(1))
next
  case (2 h l p n q k)
  then show ?case by (rule heap_good_facts(2))
next
  case (5 h l p h')
  then show ?case by (rule heap_free(1))
next
  case (6 h l p h')
  then show ?case by (rule heap_free(2))
next
  case (7 h l p n i v)
  then show ?case by (rule heap_good_facts(3))
next
  case (8 t u v h)
  then show ?case by (rule heap_poke_byte)
next
  case (9 h l)
  then show ?case by (rule heap_good_facts(4))
qed

section \<open>Clients\<close>

text \<open>
  What clients of the heap can do, with a record of what each of their allocations should hold:
  allocate, with or without zeroing, write inside an allocation, and pass any address
  at all to \<open>kfree\<close>. \<open>m0\<close> is the memory before \<open>kheap_init\<close>.
\<close>

definition bytes_at :: "heap \<Rightarrow> nat \<Rightarrow> nat \<Rightarrow> u8 list" where
  "bytes_at h p n = map (\<lambda>i. heap_byte h (p + i)) [0..<n]"

inductive heap_client :: "u32 \<Rightarrow> memory \<Rightarrow> heap \<Rightarrow> (nat \<rightharpoonup> u8 list) \<Rightarrow> bool" for arena m0 where
  start: "heap_memory h = m0 \<Longrightarrow> heap_client arena m0 (snd (kheap_init arena h)) Map.empty"
| malloc: "heap_client arena m0 h L \<Longrightarrow> kmalloc arena sz h = Some (p, h') \<Longrightarrow>
    heap_client arena m0 h' (if p = 0 then L else L(unat p \<mapsto> bytes_at h' (unat p) (unat sz)))"
| calloc: "heap_client arena m0 h L \<Longrightarrow> kcalloc arena cnt sz h = Some (p, h') \<Longrightarrow>
    heap_client arena m0 h' (if p = 0 then L else L(unat p \<mapsto> replicate (unat cnt * unat sz) 0))"
| free: "heap_client arena m0 h L \<Longrightarrow> kfree arena p h = Some (ok, h') \<Longrightarrow>
    heap_client arena m0 h' (if ok then L(unat p := None) else L)"
| store: "heap_client arena m0 h L \<Longrightarrow> L p = Some bytes \<Longrightarrow> i < length bytes \<Longrightarrow>
    heap_client arena m0 (h\<lparr>heap_memory := (heap_memory h)(of_nat (p + i) := v)\<rparr>) (L(p \<mapsto> bytes[i := v]))"

definition outside_same :: "u32 \<Rightarrow> memory \<Rightarrow> heap \<Rightarrow> bool" where
  "outside_same arena m0 h \<longleftrightarrow> (\<forall>t < 4294967296. t < unat arena \<or> unat arena + KHEAP_ARENA_SIZE \<le> t \<longrightarrow> heap_byte h t = m0 (of_nat t))"

lemma unat_pos: "p \<noteq> 0 \<Longrightarrow> unat p \<noteq> 0" for p :: u32
  by (simp add: unat_eq_zero)

lemma client_inv:
  assumes ar: "arena_placed arena" and "heap_client arena m0 h L"
  shows "(\<exists>l. kmalloc_heap.agrees arena h L l) \<and> outside_same arena m0 h"
  using assms(2)
proof induction
  case (start h)
  obtain h' where h': "kheap_init arena h = (True, h')" "heap_wf arena h' [(True, KHEAP_ARENA_SIZE - BLOCK_SIZE)]"
    "\<And>t. t < 4294967296 \<Longrightarrow> t < unat arena \<or> unat arena + KHEAP_ARENA_SIZE \<le> t \<Longrightarrow> heap_memory h' (of_nat t) = heap_memory h (of_nat t)"
    using kheap_init_spec [OF ar] by blast
  have "heap_good arena h' Map.empty" using ar h'(2) by (auto simp: heap_good_def intro!: exI [of _ "[(True, KHEAP_ARENA_SIZE - BLOCK_SIZE)]"])
  then have "kmalloc_heap.agrees arena h' Map.empty Map.empty" by (simp add: kmalloc_heap.agrees_def)
  moreover have "outside_same arena m0 h'" using h'(3) start by (simp add: outside_same_def heap_byte_def)
  ultimately show ?case using h'(1) by auto
next
  case (malloc h L sz p h')
  then obtain l where ag: "kmalloc_heap.agrees arena h L l" and o: "outside_same arena m0 h" by blast
  have g: "heap_good arena h l" using ag by (simp add: kmalloc_heap.agrees_def)
  have k: "as_nat (kmalloc arena sz h) = Some (unat p, h')" using malloc(2) by (simp add: as_nat_def)
  show ?case
  proof (cases "p = 0")
    case True
    then show ?thesis using kmalloc_heap.alloc_null [OF g] k ag o by auto
  next
    case False
    have "\<exists>l'. kmalloc_heap.agrees arena h' (L(unat p \<mapsto> bytes_at h' (unat p) (unat sz))) l'"
      by (rule kmalloc_heap.agrees_alloc [OF ag k unat_pos [OF False]]) (simp_all add: bytes_at_def)
    moreover have "outside_same arena m0 h'" using kmalloc_heap.alloc_works [OF g k unat_pos [OF False]] o by (simp add: outside_same_def)
    ultimately show ?thesis unfolding if_not_P [OF False] by blast
  qed
next
  case (calloc h L cnt sz p h')
  then obtain l where ag: "kmalloc_heap.agrees arena h L l" and o: "outside_same arena m0 h" by blast
  have g: "heap_good arena h l" using ag by (simp add: kmalloc_heap.agrees_def)
  have k: "(case (cnt, sz) of (cnt, sz) \<Rightarrow> \<lambda>h. as_nat (kcalloc arena cnt sz h)) h = Some (unat p, h')" using calloc(2) by (simp add: as_nat_def)
  show ?case
  proof (cases "p = 0")
    case True
    then show ?thesis using kcalloc_heap.alloc_null [OF g] k ag o by auto
  next
    case False
    obtain bs where wf: "heap_wf arena h bs" using g by (auto simp: heap_good_def)
    have z: "heap_byte h' (unat p + i) = 0" if "i < unat cnt * unat sz" for i
      using that calloc(2) False
      by (cases rule: kcalloc_cases [OF ar wf, of cnt sz]) (auto simp: heap_byte_def unat_of_nat32 simp del: of_nat_add)
    have "\<exists>l'. kcalloc_heap.agrees arena h' (L(unat p \<mapsto> replicate (unat cnt * unat sz) 0)) l'"
      by (rule kcalloc_heap.agrees_alloc [OF ag k unat_pos [OF False]]) (simp_all add: z)
    moreover have "outside_same arena m0 h'" using kcalloc_heap.alloc_works [OF g k unat_pos [OF False]] o by (simp add: outside_same_def)
    ultimately show ?thesis unfolding if_not_P [OF False] by blast
  qed
next
  case (free h L p ok h')
  then obtain l where ag: "kmalloc_heap.agrees arena h L l" and o: "outside_same arena m0 h" by blast
  have g: "heap_good arena h l" using ag by (simp add: kmalloc_heap.agrees_def)
  have k: "heap_free arena (unat p) h = Some (ok, h')" using free(2) unat_less_width(3) [of p] by (simp add: heap_free_def)
  show ?case
  proof (cases ok)
    case True
    then have k': "heap_free arena (unat p) h = Some (True, h')" using k by simp
    have "outside_same arena m0 h'" using kmalloc_heap.release_works [OF g k'] o by (simp add: outside_same_def)
    with kmalloc_heap.agrees_release [OF ag k'] show ?thesis unfolding if_P [OF True] by blast
  next
    case False
    then show ?thesis using kmalloc_heap.release_null [OF g, of "unat p" h'] k ag o by auto
  qed
next
  case (store h L p bytes i v)
  then obtain l where ag: "kmalloc_heap.agrees arena h L l" and o: "outside_same arena m0 h" by blast
  have g: "heap_good arena h l" using ag by (simp add: kmalloc_heap.agrees_def)
  obtain n where n: "l p = Some n" "length bytes \<le> n" using ag store(2) by (fastforce simp: kmalloc_heap.agrees_def dom_def)
  have r: "unat arena \<le> p + i" "p + i < unat arena + KHEAP_ARENA_SIZE" "unat arena + KHEAP_ARENA_SIZE < 4294967296"
    using heap_good_facts(1) [OF g n(1)] heap_good_facts(4) [OF g] n(2) store(3) by linarith+
  have "kmalloc_heap.agrees arena (heap_poke (p + i) v h) (L(p \<mapsto> bytes[i := v])) l"
    by (rule kmalloc_heap.agrees_poke [OF ag store(2,3)])
  moreover have "outside_same arena m0 (heap_poke (p + i) v h)" using o r by (auto simp: outside_same_def heap_poke_byte)
  ultimately show ?case unfolding heap_poke_def by blast
qed

lemma all_free_single:
  assumes "blocks_ok bs" and "live a bs = Map.empty"
  shows "bs = [(True, KHEAP_ARENA_SIZE - BLOCK_SIZE)]"
proof -
  obtain f n cs where bs: "bs = (f, n) # cs" using assms(1) by (cases bs) (auto simp: blocks_ok_def)
  have f using assms(2) fun_cong [of _ _ "a + BLOCK_SIZE"] by (cases f) (auto simp: bs fun_eq_iff split: if_splits)
  moreover have "cs = []"
  proof (cases cs)
    case (Cons b ds)
    obtain g k where b: "b = (g, k)" by force
    have "\<not> g" using assms(1) \<open>f\<close> by (auto simp: bs Cons b blocks_ok_def)
    then have "live a bs (a + BLOCK_SIZE + n + BLOCK_SIZE) \<noteq> None" using \<open>f\<close> by (simp add: bs Cons b)
    then show ?thesis using assms(2) by simp
  qed
  ultimately show ?thesis using assms(1) by (auto simp: bs blocks_ok_def)
qed

text \<open>A heap before and after initialization, and after one allocation.\<close>

definition example_heap :: heap where
  "example_heap = \<lparr>heap_memory = (\<lambda>_. 0xAA), first_block = 0, heap_initialized = False\<rparr>"

definition fresh_heap :: heap where
  "fresh_heap = snd (kheap_init 0x200000 example_heap)"

lemma example_arena: "arena_placed 0x200000"
  by (simp add: arena_placed_def)

lemma fresh_heap: "heap_wf 0x200000 fresh_heap [(True, 262112)]"
  by (rule kheap_init_spec [OF example_arena, of example_heap]) (simp add: fresh_heap_def)

lemma one_allocation:
  obtains h where "kmalloc 0x200000 4 fresh_heap = Some (0x200020, h)" "heap_wf 0x200000 h [(False, 16), (True, 262064)]"
  by (rule kmalloc_grants [OF example_arena fresh_heap, of 4 0 "[(False, 16), (True, 262064)]"])
    (simp_all add: align16_def taken_def)

section \<open>Properties\<close>

text \<open>
  (C5) Isolation of heap clients. Whatever sequence of \<open>kmalloc\<close>, \<open>kcalloc\<close>, writes inside allocations and
  \<open>kfree\<close> of arbitrary addresses follows \<open>kheap_init\<close>: the heap passes its own check; every
  allocation lies in the arena, 16-byte aligned, disjoint from every other, and holds exactly what its owner last
  stored there, zeros after \<open>kcalloc\<close>; \<open>kfree\<close> accepts exactly the addresses that are
  allocated; and no byte outside the arena has changed.
\<close>

theorem heap_client_isolated:
  assumes ar: "arena_placed arena" and cl: "heap_client arena m0 h L"
  shows "kheap_validate arena h
    \<and> (\<forall>p bytes. L p = Some bytes \<longrightarrow> unat arena + BLOCK_SIZE \<le> p \<and> p + length bytes \<le> unat arena + KHEAP_ARENA_SIZE \<and>
        p mod 16 = 0 \<and> bytes_at h p (length bytes) = bytes)
    \<and> (\<forall>p q bytes others. L p = Some bytes \<and> L q = Some others \<and> p \<noteq> q \<longrightarrow> p + length bytes \<le> q \<or> q + length others \<le> p)
    \<and> (\<forall>p. \<exists>h'. kfree arena p h = Some (unat p \<in> dom L, h'))
    \<and> (\<forall>t < 4294967296. t < unat arena \<or> unat arena + KHEAP_ARENA_SIZE \<le> t \<longrightarrow> heap_memory h (of_nat t) = m0 (of_nat t))"
proof -
  obtain l where ag: "kmalloc_heap.agrees arena h L l" and o: "outside_same arena m0 h" using client_inv [OF ar cl] by blast
  then obtain bs where wf: "heap_wf arena h bs" and l: "l = live (unat arena) bs" and d: "dom L = dom l"
    by (auto simp: kmalloc_heap.agrees_def heap_good_def)
  have g: "heap_good arena h l" using ag by (simp add: kmalloc_heap.agrees_def)
  have own: "\<exists>n. l p = Some n \<and> length bytes \<le> n \<and> bytes_at h p (length bytes) = bytes" if Lp: "L p = Some bytes" for p bytes
  proof -
    obtain n where n: "l p = Some n" using d Lp by blast
    then have "length bytes \<le> n" "\<forall>i < length bytes. heap_byte h (p + i) = bytes ! i"
      using ag Lp unfolding kmalloc_heap.agrees_def by blast+
    then show ?thesis using n by (auto simp: bytes_at_def intro!: nth_equalityI)
  qed
  have "kheap_validate arena h" using inspect_heap_iff [OF ar, of h] wf by (auto simp: kheap_validate_def)
  moreover have "unat arena + BLOCK_SIZE \<le> p \<and> p + length bytes \<le> unat arena + KHEAP_ARENA_SIZE \<and> p mod 16 = 0 \<and>
      bytes_at h p (length bytes) = bytes" if Lp: "L p = Some bytes" for p bytes
  proof -
    obtain n where n: "live (unat arena) bs p = Some n" "length bytes \<le> n" "bytes_at h p (length bytes) = bytes"
      using own [OF Lp] l by auto
    then obtain xs ys where "bs = xs @ (False, n) # ys" "p = unat arena + span xs + BLOCK_SIZE" by (auto simp: live_split)
    moreover have "span xs mod 16 = 0" using wf calculation(1) by (intro span16) (simp add: heap_wf_def blocks_ok_def)
    ultimately have "p mod 16 = 0" using ar by (simp add: arena_placed_def mod_eq_0_iff_dvd)
    then show ?thesis using live_range [OF n(1)] n(2,3) wf by (simp add: heap_wf_def blocks_ok_def)
  qed
  moreover have "p + length bytes \<le> q \<or> q + length others \<le> p" if "L p = Some bytes" "L q = Some others" "p \<noteq> q" for p q bytes others
    using own [OF that(1)] own [OF that(2)] heap_good_facts(2) [OF g] that(3) by fastforce
  moreover have "\<exists>h'. kfree arena p h = Some (unat p \<in> dom L, h')" for p
    by (cases rule: kfree_cases [OF ar wf, of p]) (auto simp: d l)
  moreover have "heap_memory h (of_nat t) = m0 (of_nat t)"
    if "t < 4294967296" "t < unat arena \<or> unat arena + KHEAP_ARENA_SIZE \<le> t" for t
    using o that unfolding outside_same_def heap_byte_def by blast
  ultimately show ?thesis by blast
qed

theorem heap_client_isolated_witness:
  "\<exists>h bytes. kheap_validate 0x200000 h \<and> length bytes = 4 \<and> bytes ! 3 = 7 \<and> bytes_at h 0x200020 4 = bytes \<and>
     (\<exists>h'. kfree 0x200000 0x200024 h = Some (False, h')) \<and> (\<exists>h'. kfree 0x200000 0x200020 h = Some (True, h')) \<and>
     heap_memory h 0 = 0xAA"
proof -
  obtain h0 where h0: "kmalloc 0x200000 4 fresh_heap = Some (0x200020, h0)" using one_allocation by blast
  define h where "h = h0\<lparr>heap_memory := (heap_memory h0)(of_nat (0x200020 + 3) := 7)\<rparr>"
  define bytes where "bytes = (bytes_at h0 0x200020 4)[3 := 7]"
  have len: "length (bytes_at h0 0x200020 4) = 4" by (simp add: bytes_at_def)
  have "heap_client 0x200000 (\<lambda>_. 0xAA) fresh_heap Map.empty"
    unfolding fresh_heap_def by (rule heap_client.start) (simp add: example_heap_def)
  from heap_client.malloc [OF this h0] have c: "heap_client 0x200000 (\<lambda>_. 0xAA) h0 [0x200020 \<mapsto> bytes_at h0 0x200020 4]" by simp
  have "heap_client 0x200000 (\<lambda>_. 0xAA) h ([0x200020 \<mapsto> bytes_at h0 0x200020 4](0x200020 \<mapsto> bytes))"
    unfolding h_def bytes_def by (rule heap_client.store [OF c]) (simp_all add: len)
  from heap_client_isolated [OF example_arena this] have i: "kheap_validate 0x200000 h"
    "bytes_at h 0x200020 (length bytes) = bytes" "\<exists>h'. kfree 0x200000 0x200024 h = Some (False, h')"
    "\<exists>h'. kfree 0x200000 0x200020 h = Some (True, h')" "heap_memory h (of_nat 0) = 0xAA"
    by (auto dest: spec [of _ "0x200024"] spec [of _ "0x200020"] spec [of _ 0])
  have "length bytes = 4" "bytes ! 3 = 7" by (simp_all add: bytes_def len)
  then show ?thesis using i by (intro exI [of _ h] exI [of _ bytes]) simp
qed

text \<open>
  (C34) \<open>kmalloc\<close> always returns, and allocates first-fit. A request of 0 bytes, one that cannot be rounded up, or
  one larger than every free block gives a null pointer and changes nothing; any other gets the
  first free block large enough for the size rounded up to 16, split when the rest can hold a block of
  its own, and no byte of a live allocation or outside the arena changes.
\<close>

theorem kmalloc_exact:
  assumes ar: "arena_placed arena" and wf: "heap_wf arena h bs"
  shows "\<exists>p h'. kmalloc arena bytes h = Some (p, h') \<and>
    (if bytes = 0 \<or> bytes > 0xFFFFFFF0 \<or> (\<forall>(f, n) \<in> set bs. f \<longrightarrow> n < align16 (unat bytes))
     then p = 0 \<and> h' = h
     else \<exists>xs n ys. bs = xs @ (True, n) # ys \<and> align16 (unat bytes) \<le> n \<and> (\<forall>(f, n) \<in> set xs. f \<longrightarrow> n < align16 (unat bytes)) \<and>
       unat p = unat arena + span xs + BLOCK_SIZE \<and>
       heap_wf arena h' (xs @ taken (align16 (unat bytes)) n @ ys) \<and>
       (\<forall>t < 4294967296. kept (unat arena) bs t \<longrightarrow> heap_memory h' (of_nat t) = heap_memory h (of_nat t)))"
proof (cases "bytes = 0 \<or> bytes > 0xFFFFFFF0 \<or> alloc_blocks (align16 (unat bytes)) bs = None")
  case True
  moreover have "(\<forall>(f, n) \<in> set bs. f \<longrightarrow> n < align16 (unat bytes)) = (alloc_blocks (align16 (unat bytes)) bs = None)"
    by (cases rule: alloc_blocks_cases [of "align16 (unat bytes)" bs]) (auto simp: not_le)
  ultimately show ?thesis using kmalloc_refused [OF ar wf, of bytes] by auto
next
  case False
  then obtain off cs where al: "alloc_blocks (align16 (unat bytes)) bs = Some (off, cs)" and sz: "bytes \<noteq> 0" "bytes \<le> 0xFFFFFFF0" by auto
  obtain xs n ys where x: "bs = xs @ (True, n) # ys" "align16 (unat bytes) \<le> n" "\<forall>b \<in> set xs. \<not> fits (align16 (unat bytes)) b"
      "off = span xs" "cs = xs @ taken (align16 (unat bytes)) n @ ys"
    using al by (cases rule: alloc_blocks_cases [of "align16 (unat bytes)" bs]) auto
  obtain h' k where g: "kmalloc arena bytes h = Some (of_nat (unat arena + off + BLOCK_SIZE), h')" "heap_wf arena h' cs"
      "off + BLOCK_SIZE + k \<le> KHEAP_ARENA_SIZE"
      "\<And>t. t < 4294967296 \<Longrightarrow> kept (unat arena) bs t \<Longrightarrow> heap_memory h' (of_nat t) = heap_memory h (of_nat t)"
    using kmalloc_grants [OF ar wf sz al] by metis
  have u: "unat (of_nat (unat arena + off + BLOCK_SIZE) :: u32) = unat arena + span xs + BLOCK_SIZE"
    using g(3) ar x(4) by (subst unat_of_nat32) (auto simp: arena_placed_def)
  have fit: "\<not> (\<forall>(f, n) \<in> set bs. f \<longrightarrow> n < align16 (unat bytes))" using x(1,2) by auto
  have "\<forall>(f, n) \<in> set xs. f \<longrightarrow> n < align16 (unat bytes)" using x(3) by (auto simp: not_le)
  with g u x sz fit show ?thesis by (intro exI [of _ "of_nat (unat arena + off + BLOCK_SIZE)"] exI [of _ h']) (auto simp del: of_nat_add)
qed

theorem kmalloc_exact_witness:
  "\<exists>h'. kmalloc 0x200000 20 fresh_heap = Some (0x200020, h') \<and> heap_wf 0x200000 h' [(False, 32), (True, 262048)] \<and>
     kmalloc 0x200000 0 fresh_heap = Some (0, fresh_heap) \<and> kmalloc 0x200000 0x40000 fresh_heap = Some (0, fresh_heap)"
proof -
  note e = kmalloc_exact [OF example_arena fresh_heap]
  obtain p h' xs n ys where k: "kmalloc 0x200000 20 fresh_heap = Some (p, h')" "[(True, 262112)] = xs @ (True, n) # ys"
      "unat p = unat (0x200000 :: u32) + span xs + BLOCK_SIZE" "heap_wf 0x200000 h' (xs @ taken (align16 20) n @ ys)"
    using e [of 20] by (auto simp: align16_def)
  then have "xs = [] \<and> n = 262112 \<and> ys = []" by (cases xs) auto
  with k have "p = 0x200020" "heap_wf 0x200000 h' [(False, 32), (True, 262048)]"
    by (simp_all add: word_unat_eq_iff align16_def taken_def)
  then show ?thesis using k(1) e [of 0] e [of "0x40000"] by (auto simp: align16_def)
qed

text \<open>
  (C35) \<open>kfree\<close> always returns, and answers true exactly for the address of a live allocation. It then removes
  that allocation alone, leaves no two free blocks next to each other, and once nothing is allocated the arena is again one
  single free block. Every other address, null and addresses inside blocks included, is refused with nothing changed.
\<close>

theorem kfree_exact:
  assumes ar: "arena_placed arena" and wf: "heap_wf arena h bs"
  shows "\<exists>h' cs. kfree arena p h = Some (unat p \<in> dom (live (unat arena) bs), h') \<and> heap_wf arena h' cs \<and>
      (if unat p \<in> dom (live (unat arena) bs)
       then live (unat arena) cs = (live (unat arena) bs)(unat p := None) \<and>
         (live (unat arena) cs = Map.empty \<longrightarrow> cs = [(True, KHEAP_ARENA_SIZE - BLOCK_SIZE)]) \<and>
         (\<forall>t < 4294967296. kept (unat arena) cs t \<longrightarrow> heap_memory h' (of_nat t) = heap_memory h (of_nat t))
       else h' = h \<and> cs = bs)"
proof (cases rule: kfree_cases [OF ar wf, of p])
  case 1
  then show ?thesis using wf by auto
next
  case (2 h' cs)
  have "cs = [(True, KHEAP_ARENA_SIZE - BLOCK_SIZE)]" if "live (unat arena) cs = Map.empty"
    using all_free_single [of cs "unat arena"] 2(3) that by (simp add: heap_wf_def)
  with 2 show ?thesis by (intro exI [of _ h'] exI [of _ cs]) auto
qed

theorem kfree_exact_witness:
  "\<exists>h h2. kfree 0x200000 0x200020 h = Some (True, h2) \<and> heap_wf 0x200000 h2 [(True, 262112)] \<and>
     kfree 0x200000 0x200030 h = Some (False, h) \<and> kfree 0x200000 0 h = Some (False, h)"
proof -
  obtain h where wf: "heap_wf 0x200000 h [(False, 16), (True, 262064)]" using one_allocation by blast
  show ?thesis
    using kfree_exact [OF example_arena wf, of "0x200020"] kfree_exact [OF example_arena wf, of "0x200030"]
      kfree_exact [OF example_arena wf, of 0]
    by - (rule exI [of _ h], auto)
qed

text \<open>
  (C36) The heap's self-check is exact. For arbitrary contents of memory \<open>kheap_validate\<close> accepts if and only if the arena is tiled, from its first byte
  to its last, by headers with the right magic, state, links and aligned sizes, with no two
  neighbouring free blocks; and the statistics it reports are the free bytes, the largest free block
  and the number of allocations of that tiling.
\<close>

theorem heap_validate_exact:
  assumes ar: "arena_placed arena"
  shows "(kheap_validate arena h \<longleftrightarrow> (\<exists>bs. heap_wf arena h bs))
    \<and> (heap_wf arena h bs \<longrightarrow> kheap_get_stats arena True h = Some \<lparr>total_bytes = 262112, free_bytes = of_nat (free_sum bs),
        largest_free_block = of_nat (largest bs), allocated_blocks = of_nat (live_count bs)\<rparr>)
    \<and> kheap_get_stats arena False h = None"
  using inspect_heap_iff [OF ar, of h]
  by (auto simp: kheap_validate_def kheap_get_stats_def stats_of_def measured_stats_def)

theorem heap_validate_exact_witness:
  "kheap_validate 0x200000 fresh_heap \<and> kheap_get_stats 0x200000 True fresh_heap =
     Some \<lparr>total_bytes = 262112, free_bytes = 262112, largest_free_block = 262112, allocated_blocks = 0\<rparr> \<and>
   \<not> kheap_validate 0x200000 example_heap"
  using heap_validate_exact [OF example_arena, of fresh_heap "[(True, 262112)]"] heap_validate_exact [OF example_arena, of example_heap "[]"] fresh_heap
  by (auto simp: measure_defs heap_wf_def example_heap_def)

end
