(* ===== verification/Task.thy ===== *)
theory Task
  imports Byte_Memory
begin

text \<open>
  The cooperative scheduler, \<open>kernel/task/task.c\<close>, and the switch between stacks in
  \<open>boot/context_switch.S\<close>. The addresses of \<open>task_stacks\<close>, \<open>task_exit\<close> and \<open>task_trampoline\<close> are
  arguments. A call that leaves its caller's stack returns a \<open>Switch\<close>, with the place where the
  caller's stack pointer is saved, and a call that ends in \<open>task_stop\<close> is \<open>Stopped\<close>.
\<close>

section \<open>State\<close>

abbreviation TASK_MAX_TASKS :: nat where "TASK_MAX_TASKS \<equiv> 8"
abbreviation TASK_STACK_SIZE :: nat where "TASK_STACK_SIZE \<equiv> 16384"
abbreviation TASK_INVALID_ID :: u32 where "TASK_INVALID_ID \<equiv> 0xFFFFFFFF"
abbreviation EFLAGS_RESERVED :: u32 where "EFLAGS_RESERVED \<equiv> 0x2"
abbreviation EFLAGS_TRAP :: u32 where "EFLAGS_TRAP \<equiv> 0x100"
abbreviation EFLAGS_INTERRUPT :: u32 where "EFLAGS_INTERRUPT \<equiv> 0x200"
abbreviation EFLAGS_DIRECTION :: u32 where "EFLAGS_DIRECTION \<equiv> 0x400"
abbreviation EFLAGS_NESTED_TASK :: u32 where "EFLAGS_NESTED_TASK \<equiv> 0x4000"
abbreviation EFLAGS_VIRTUAL_8086 :: u32 where "EFLAGS_VIRTUAL_8086 \<equiv> 0x20000"

datatype task_state = TASK_STATE_UNUSED | TASK_STATE_READY | TASK_STATE_RUNNING | TASK_STATE_FINISHED

record task_control_block =
  tcb_state :: task_state
  tcb_entry :: u32
  tcb_argument :: u32
  tcb_stack_pointer :: u32

record scheduler =
  tasks :: "task_control_block list"
  task_memory :: memory
  bootstrap_stack_pointer :: u32
  current_task_id :: u32
  round_robin_cursor :: u32
  remaining_dispatches :: u32
  switch_count :: u32
  finished_count :: u32
  scheduler_initialized :: bool
  scheduler_running :: bool
  eflags :: u32

datatype saved_in = Bootstrap_Slot | Task_Slot u32

datatype 'r outcome = Returned 'r scheduler | Switch saved_in u32 u32 scheduler | Stopped

definition interrupt_state_save_and_disable :: "scheduler \<Rightarrow> u32 \<times> scheduler" where
  "interrupt_state_save_and_disable s = (eflags s, s\<lparr>eflags := eflags s AND NOT EFLAGS_INTERRUPT\<rparr>)"

definition interrupt_state_restore :: "u32 \<Rightarrow> scheduler \<Rightarrow> scheduler" where
  "interrupt_state_restore flags s =
     (if flags AND EFLAGS_INTERRUPT \<noteq> 0 then s\<lparr>eflags := eflags s OR EFLAGS_INTERRUPT\<rparr>
      else s\<lparr>eflags := eflags s AND NOT EFLAGS_INTERRUPT\<rparr>)"

section \<open>Choosing and preparing tasks\<close>

definition task_at :: "scheduler \<Rightarrow> u32 \<Rightarrow> task_control_block" where
  "task_at s tid = tasks s ! unat tid"

definition set_state :: "u32 \<Rightarrow> task_state \<Rightarrow> scheduler \<Rightarrow> scheduler" where
  "set_state tid st s = s\<lparr>tasks := (tasks s)[unat tid := (task_at s tid)\<lparr>tcb_state := st\<rparr>]\<rparr>"

definition find_next_ready :: "u32 \<Rightarrow> scheduler \<Rightarrow> u32" where
  "find_next_ready after s =
     (let start = (if after \<noteq> TASK_INVALID_ID then (after + 1) mod of_nat TASK_MAX_TASKS else 0) in
      case find (\<lambda>candidate. tcb_state (task_at s candidate) = TASK_STATE_READY)
        (map (\<lambda>offset. (start + of_nat offset) mod of_nat TASK_MAX_TASKS) [0..<TASK_MAX_TASKS]) of
        Some candidate \<Rightarrow> candidate
      | None \<Rightarrow> TASK_INVALID_ID)"

definition activate_task :: "u32 \<Rightarrow> scheduler \<Rightarrow> bool \<times> scheduler" where
  "activate_task tid s =
     (if tid \<ge> of_nat TASK_MAX_TASKS \<or> tcb_state (task_at s tid) \<noteq> TASK_STATE_READY \<or> remaining_dispatches s = 0
      then (False, s)
      else (True, (set_state tid TASK_STATE_RUNNING s)\<lparr>current_task_id := tid, round_robin_cursor := tid,
        remaining_dispatches := remaining_dispatches s - 1, switch_count := switch_count s + 1\<rparr>))"

definition initial_task_eflags :: "u32 \<Rightarrow> u32" where
  "initial_task_eflags creator_flags =
     (let unsafe = EFLAGS_TRAP OR EFLAGS_DIRECTION OR EFLAGS_NESTED_TASK OR EFLAGS_VIRTUAL_8086
      in (creator_flags OR EFLAGS_RESERVED) AND NOT unsafe)"

definition prepare_initial_stack :: "u32 \<Rightarrow> u32 \<Rightarrow> u32 \<Rightarrow> u32 \<Rightarrow> u32 \<Rightarrow> scheduler \<Rightarrow> scheduler" where
  "prepare_initial_stack stacks exit_address trampoline tid creator_flags s =
     (let top = stacks + tid * of_nat TASK_STACK_SIZE + of_nat TASK_STACK_SIZE;
          top = top AND NOT 0xF;
          (stack, m) = fold push32
            [exit_address, trampoline, initial_task_eflags creator_flags, 0, 0, 0, 0] (top, task_memory s)
      in s\<lparr>task_memory := m, tasks := (tasks s)[unat tid := (task_at s tid)\<lparr>tcb_stack_pointer := stack\<rparr>]\<rparr>)"

section \<open>The interface\<close>

definition switch_to_bootstrap :: "u32 \<Rightarrow> u32 \<Rightarrow> scheduler \<Rightarrow> 'r outcome" where
  "switch_to_bootstrap prev previous_flags s =
     (let s = s\<lparr>current_task_id := TASK_INVALID_ID, scheduler_running := False\<rparr>
      in Switch (Task_Slot prev) (bootstrap_stack_pointer s) previous_flags s)"

definition task_system_init :: "scheduler \<Rightarrow> scheduler" where
  "task_system_init s =
     (let (flags, s) = interrupt_state_save_and_disable s in
      if scheduler_running s then interrupt_state_restore flags s
      else
        let s = s\<lparr>tasks := fold (\<lambda>tid ts. ts[tid := \<lparr>tcb_state = TASK_STATE_UNUSED, tcb_entry = 0, tcb_argument = 0,
                    tcb_stack_pointer = 0\<rparr>]) [0..<TASK_MAX_TASKS] (tasks s),
                  bootstrap_stack_pointer := 0, current_task_id := TASK_INVALID_ID, round_robin_cursor := TASK_INVALID_ID,
                  remaining_dispatches := 0, switch_count := 0, finished_count := 0, scheduler_running := False,
                  scheduler_initialized := True\<rparr>
        in interrupt_state_restore flags s)"

definition task_create :: "u32 \<Rightarrow> u32 \<Rightarrow> u32 \<Rightarrow> u32 \<Rightarrow> u32 \<Rightarrow> scheduler \<Rightarrow> u32 \<times> scheduler" where
  "task_create stacks exit_address trampoline entry_point argument s =
     (let (flags, s) = interrupt_state_save_and_disable s in
      if \<not> scheduler_initialized s \<or> scheduler_running s \<or> entry_point = 0
      then (TASK_INVALID_ID, interrupt_state_restore flags s)
      else
        let tid = (case find (\<lambda>candidate. tcb_state (tasks s ! candidate) = TASK_STATE_UNUSED) [0..<TASK_MAX_TASKS] of
            Some candidate \<Rightarrow> of_nat candidate | None \<Rightarrow> TASK_INVALID_ID) in
        if tid = TASK_INVALID_ID then (TASK_INVALID_ID, interrupt_state_restore flags s)
        else
          let s = s\<lparr>tasks := (tasks s)[unat tid := (task_at s tid)\<lparr>tcb_entry := entry_point, tcb_argument := argument\<rparr>]\<rparr>;
              s = prepare_initial_stack stacks exit_address trampoline tid flags s;
              s = set_state tid TASK_STATE_READY s
          in (tid, interrupt_state_restore flags s))"

text \<open>\<open>task_run\<close> up to the switch to the first task, and from the moment the bootstrap stack is resumed.\<close>

definition task_run :: "u32 \<Rightarrow> scheduler \<Rightarrow> bool outcome" where
  "task_run switch_budget s =
     (let (flags, s) = interrupt_state_save_and_disable s in
      if \<not> scheduler_initialized s \<or> scheduler_running s then Returned False (interrupt_state_restore flags s)
      else
        let next = find_next_ready (round_robin_cursor s) s in
        if next = TASK_INVALID_ID then Returned True (interrupt_state_restore flags s)
        else if switch_budget = 0 then Returned False (interrupt_state_restore flags s)
        else
          let s = s\<lparr>remaining_dispatches := switch_budget, scheduler_running := True\<rparr>;
              (activated, s) = activate_task next s in
          if \<not> activated then Returned False (interrupt_state_restore flags (s\<lparr>scheduler_running := False\<rparr>))
          else Switch Bootstrap_Slot (tcb_stack_pointer (task_at s next)) flags s)"

definition task_run_resumed :: "scheduler \<Rightarrow> bool \<times> scheduler" where
  "task_run_resumed s =
     (let (flags, s) = interrupt_state_save_and_disable s;
          complete = (find_next_ready (round_robin_cursor s) s = TASK_INVALID_ID)
      in (complete, interrupt_state_restore flags s))"

definition not_in_task :: "scheduler \<Rightarrow> bool" where
  "not_in_task s \<longleftrightarrow> \<not> scheduler_initialized s \<or> \<not> scheduler_running s \<or> current_task_id s \<ge> of_nat TASK_MAX_TASKS \<or>
     tcb_state (task_at s (current_task_id s)) \<noteq> TASK_STATE_RUNNING"

definition task_yield :: "scheduler \<Rightarrow> unit outcome" where
  "task_yield s =
     (let (flags, s) = interrupt_state_save_and_disable s in
      if not_in_task s then Returned () (interrupt_state_restore flags s)
      else
        let prev = current_task_id s;
            s = set_state prev TASK_STATE_READY s;
            next = find_next_ready prev s in
        if next \<noteq> TASK_INVALID_ID \<and> remaining_dispatches s \<noteq> 0 then
          let (activated, s) = activate_task next s in
          if \<not> activated then Stopped
          else if next = prev then Returned () (interrupt_state_restore flags s)
          else Switch (Task_Slot prev) (tcb_stack_pointer (task_at s next)) flags s
        else switch_to_bootstrap prev flags s)"

definition task_exit :: "scheduler \<Rightarrow> unit outcome" where
  "task_exit s =
     (let (flags, s) = interrupt_state_save_and_disable s in
      if not_in_task s then Stopped
      else
        let prev = current_task_id s;
            s = (set_state prev TASK_STATE_FINISHED s)\<lparr>finished_count := finished_count s + 1\<rparr>;
            next = find_next_ready prev s in
        if next \<noteq> TASK_INVALID_ID \<and> remaining_dispatches s \<noteq> 0 then
          let (activated, s) = activate_task next s in
          if \<not> activated then Stopped
          else Switch (Task_Slot prev) (tcb_stack_pointer (task_at s next)) flags s
        else switch_to_bootstrap prev flags s)"

text \<open>Where a new task starts: what it calls first, \<open>None\<close> when it stops instead.\<close>

definition task_trampoline :: "scheduler \<Rightarrow> (u32 \<times> u32) option" where
  "task_trampoline s =
     (let tid = current_task_id s in
      if tid \<ge> of_nat TASK_MAX_TASKS \<or> tcb_state (task_at s tid) \<noteq> TASK_STATE_RUNNING \<or> tcb_entry (task_at s tid) = 0
      then None else Some (tcb_entry (task_at s tid), tcb_argument (task_at s tid)))"

definition task_current_id :: "scheduler \<Rightarrow> u32" where
  "task_current_id s =
     (if \<not> scheduler_running s \<or> current_task_id s \<ge> of_nat TASK_MAX_TASKS then TASK_INVALID_ID else current_task_id s)"

definition task_switch_count :: "scheduler \<Rightarrow> u32" where
  "task_switch_count s = switch_count s"

definition task_finished_count :: "scheduler \<Rightarrow> u32" where
  "task_finished_count s = finished_count s"

section \<open>The switch\<close>

text \<open>The registers a switch exchanges.\<close>

record cpu =
  esp :: u32
  ebp :: u32
  ebx :: u32
  esi :: u32
  edi :: u32
  eip :: u32

definition save_stack_pointer :: "saved_in \<Rightarrow> u32 \<Rightarrow> scheduler \<Rightarrow> scheduler" where
  "save_stack_pointer slot sp s =
     (case slot of
        Bootstrap_Slot \<Rightarrow> s\<lparr>bootstrap_stack_pointer := sp\<rparr>
      | Task_Slot tid \<Rightarrow> s\<lparr>tasks := (tasks s)[unat tid := (task_at s tid)\<lparr>tcb_stack_pointer := sp\<rparr>]\<rparr>)"

text \<open>On entry \<open>esp\<close> points to the return address; the three arguments of the call are \<open>slot\<close>, \<open>new_sp\<close>
  and \<open>flags\<close>.\<close>

definition task_context_switch :: "saved_in \<Rightarrow> u32 \<Rightarrow> u32 \<Rightarrow> scheduler \<times> cpu \<Rightarrow> scheduler \<times> cpu" where
  "task_context_switch slot new_sp flags = (\<lambda>(s, c).
     let (sp, m) = fold push32 [flags, ebp c, ebx c, esi c, edi c] (esp c, task_memory s);
         s = save_stack_pointer slot sp (s\<lparr>task_memory := m\<rparr>);
         sp = new_sp;
         (new_edi, sp) = pop32 m sp;
         (new_esi, sp) = pop32 m sp;
         (new_ebx, sp) = pop32 m sp;
         (new_ebp, sp) = pop32 m sp;
         (new_eflags, sp) = pop32 m sp;
         (new_eip, sp) = pop32 m sp
     in (s\<lparr>eflags := new_eflags\<rparr>, \<lparr>esp = sp, ebp = new_ebp, ebx = new_ebx, esi = new_esi, edi = new_edi, eip = new_eip\<rparr>))"

section \<open>The next ready task\<close>

abbreviation state_of :: "scheduler \<Rightarrow> nat \<Rightarrow> task_state" where
  "state_of s k \<equiv> tcb_state (tasks s ! k)"

definition first_slot :: "u32 \<Rightarrow> nat" where
  "first_slot after = (if after = TASK_INVALID_ID then 0 else (unat after + 1) mod TASK_MAX_TASKS)"

lemma candidate_slot:
  "unat ((((if after \<noteq> TASK_INVALID_ID then (after + 1) mod of_nat TASK_MAX_TASKS else 0) :: u32) + of_nat k) mod of_nat TASK_MAX_TASKS) =
    (first_slot after + k) mod TASK_MAX_TASKS" if "k < TASK_MAX_TASKS"
proof -
  let ?st = "(if after \<noteq> TASK_INVALID_ID then (after + 1) mod of_nat TASK_MAX_TASKS else 0) :: u32"
  have st: "unat ?st = first_slot after" "unat ?st < 8"
  proof -
    have "unat (after + 1) = unat after + 1" if "after \<noteq> TASK_INVALID_ID"
    proof -
      have "unat after \<noteq> 4294967295" using that by (auto simp: word_unat_eq_iff)
      then show ?thesis using unat_less_width(3) [of after] by (simp add: unat_add_no_wrap)
    qed
    then show "unat ?st = first_slot after" by (simp add: first_slot_def unat_mod_distrib)
    then show "unat ?st < 8" by (simp add: first_slot_def)
  qed
  have "unat (?st + of_nat k) = unat ?st + k"
    using st(2) that by (simp add: unat_add_no_wrap unat_of_nat32)
  then show ?thesis using st(1) by (simp add: unat_mod_distrib)
qed

lemma find_next_ready_cases:
  obtains "find_next_ready after s = TASK_INVALID_ID" "\<forall>k < TASK_MAX_TASKS. state_of s k \<noteq> TASK_STATE_READY"
    | d where "d < TASK_MAX_TASKS" "unat (find_next_ready after s) = (first_slot after + d) mod TASK_MAX_TASKS"
      "state_of s ((first_slot after + d) mod TASK_MAX_TASKS) = TASK_STATE_READY" "find_next_ready after s \<noteq> TASK_INVALID_ID"
      "\<forall>j < d. state_of s ((first_slot after + j) mod TASK_MAX_TASKS) \<noteq> TASK_STATE_READY"
proof -
  let ?c = "\<lambda>k. (((if after \<noteq> TASK_INVALID_ID then (after + 1) mod of_nat TASK_MAX_TASKS else 0) :: u32) + of_nat k) mod of_nat TASK_MAX_TASKS"
  let ?P = "\<lambda>c. tcb_state (task_at s c) = TASK_STATE_READY"
  have P: "?P (?c k) \<longleftrightarrow> state_of s ((first_slot after + k) mod TASK_MAX_TASKS) = TASK_STATE_READY" if "k < TASK_MAX_TASKS" for k
    by (simp only: task_at_def candidate_slot [OF that])
  have def: "find_next_ready after s = (case find ?P (map ?c [0..<TASK_MAX_TASKS]) of Some c \<Rightarrow> c | None \<Rightarrow> TASK_INVALID_ID)"
    by (simp only: find_next_ready_def Let_def)
  show ?thesis
  proof (cases "find ?P (map ?c [0..<TASK_MAX_TASKS])")
    case None
    have "state_of s k \<noteq> TASK_STATE_READY" if k: "k < TASK_MAX_TASKS" for k
    proof -
      define d where "d = (k + TASK_MAX_TASKS - first_slot after) mod TASK_MAX_TASKS"
      have "first_slot after < 8" by (simp add: first_slot_def)
      then have "(first_slot after + d) mod TASK_MAX_TASKS = k" "d < TASK_MAX_TASKS"
        using k by (auto simp: d_def mod_add_right_eq)
      moreover have "\<not> ?P (?c d)" using None \<open>d < TASK_MAX_TASKS\<close> by (auto simp: find_None_iff simp del: upt_rec_numeral)
      ultimately show ?thesis using P [of d] by simp
    qed
    then show ?thesis using None that(1) by (simp add: def)
  next
    case (Some c)
    then obtain d where d: "d < TASK_MAX_TASKS" "?P (?c d)" "c = ?c d" "\<forall>j < d. \<not> ?P (?c j)"
      by (auto simp: find_Some_iff simp del: upt_rec_numeral)
    have f: "find_next_ready after s = ?c d" using Some d(3) by (simp add: def)
    then have u: "unat (find_next_ready after s) = (first_slot after + d) mod TASK_MAX_TASKS" using candidate_slot [OF d(1)] by simp
    have "unat (find_next_ready after s) < 8" by (simp add: u)
    then have "find_next_ready after s \<noteq> TASK_INVALID_ID" by auto
    moreover have "state_of s ((first_slot after + d) mod TASK_MAX_TASKS) = TASK_STATE_READY" using d(2) P [OF d(1)] by blast
    moreover have "\<forall>j < d. state_of s ((first_slot after + j) mod TASK_MAX_TASKS) \<noteq> TASK_STATE_READY"
      using d(4) P d(1) by (meson less_trans)
    ultimately show ?thesis using d(1) u by (intro that(2)) auto
  qed
qed

lemma none_ready: "find_next_ready after s = TASK_INVALID_ID \<longleftrightarrow> (\<forall>k < TASK_MAX_TASKS. state_of s k \<noteq> TASK_STATE_READY)"
proof (cases rule: find_next_ready_cases [of after s])
  case (2 d)
  then show ?thesis by (auto intro!: exI [of _ "(first_slot after + d) mod TASK_MAX_TASKS"])
qed simp

section \<open>Invariant\<close>

definition finished_tasks :: "scheduler \<Rightarrow> nat set" where
  "finished_tasks s = {k. k < TASK_MAX_TASKS \<and> state_of s k = TASK_STATE_FINISHED}"

definition sched_core :: "scheduler \<Rightarrow> bool" where
  "sched_core s \<longleftrightarrow> length (tasks s) = TASK_MAX_TASKS \<and>
     (\<forall>k < TASK_MAX_TASKS. state_of s k \<in> {TASK_STATE_READY, TASK_STATE_RUNNING} \<longrightarrow> tcb_entry (tasks s ! k) \<noteq> 0) \<and>
     finished_count s = of_nat (card (finished_tasks s))"

definition only_running :: "scheduler \<Rightarrow> nat option \<Rightarrow> bool" where
  "only_running s r \<longleftrightarrow> (\<forall>k < TASK_MAX_TASKS. state_of s k = TASK_STATE_RUNNING \<longleftrightarrow> r = Some k)"

definition sched_wf :: "scheduler \<Rightarrow> bool" where
  "sched_wf s \<longleftrightarrow> sched_core s \<and>
     (if scheduler_running s then scheduler_initialized s \<and> unat (current_task_id s) < TASK_MAX_TASKS \<and>
        round_robin_cursor s = current_task_id s \<and> only_running s (Some (unat (current_task_id s)))
      else current_task_id s = TASK_INVALID_ID \<and> only_running s None)"

text \<open>What the invariant does not depend on.\<close>

lemma sched_wf_frame [simp]:
  "sched_wf (s\<lparr>eflags := e\<rparr>) = sched_wf s" "sched_wf (s\<lparr>task_memory := m\<rparr>) = sched_wf s"
  "sched_wf (s\<lparr>bootstrap_stack_pointer := b\<rparr>) = sched_wf s" "sched_core (s\<lparr>eflags := e\<rparr>) = sched_core s"
  "only_running (s\<lparr>eflags := e\<rparr>) r = only_running s r"
  by (simp_all add: sched_wf_def sched_core_def only_running_def finished_tasks_def)

lemma restore_simps [simp]:
  "sched_wf (interrupt_state_restore f s) = sched_wf s" "tasks (interrupt_state_restore f s) = tasks s"
  "scheduler_running (interrupt_state_restore f s) = scheduler_running s"
  "scheduler_initialized (interrupt_state_restore f s) = scheduler_initialized s"
  "current_task_id (interrupt_state_restore f s) = current_task_id s"
  "round_robin_cursor (interrupt_state_restore f s) = round_robin_cursor s"
  "switch_count (interrupt_state_restore f s) = switch_count s"
  "remaining_dispatches (interrupt_state_restore f s) = remaining_dispatches s"
  by (simp_all add: interrupt_state_restore_def)

lemma nth_set_state:
  "k < length (tasks s) \<Longrightarrow> tasks (set_state tid st s) ! k = (if k = unat tid then (tasks s ! k)\<lparr>tcb_state := st\<rparr> else tasks s ! k)"
  by (simp add: set_state_def task_at_def nth_list_update)

lemma set_state_simps [simp]:
  "length (tasks (set_state tid st s)) = length (tasks s)" "scheduler_running (set_state tid st s) = scheduler_running s"
  "scheduler_initialized (set_state tid st s) = scheduler_initialized s" "current_task_id (set_state tid st s) = current_task_id s"
  "round_robin_cursor (set_state tid st s) = round_robin_cursor s" "switch_count (set_state tid st s) = switch_count s"
  "remaining_dispatches (set_state tid st s) = remaining_dispatches s" "finished_count (set_state tid st s) = finished_count s"
  "eflags (set_state tid st s) = eflags s" "bootstrap_stack_pointer (set_state tid st s) = bootstrap_stack_pointer s"
  by (simp_all add: set_state_def)

lemma finished_set_state:
  assumes "length (tasks s) = TASK_MAX_TASKS" and "unat tid < TASK_MAX_TASKS" "state_of s (unat tid) \<noteq> TASK_STATE_FINISHED"
  shows "finished_tasks (set_state tid st s) =
    (if st = TASK_STATE_FINISHED then insert (unat tid) (finished_tasks s) else finished_tasks s)"
    and "unat tid \<notin> finished_tasks s"
  using assms by (auto simp: finished_tasks_def nth_set_state split: if_splits)

lemma finite_finished [simp]: "finite (finished_tasks s)"
  by (simp add: finished_tasks_def)

lemma core_set_state:
  assumes "sched_core s" "unat tid < TASK_MAX_TASKS" "state_of s (unat tid) \<in> {TASK_STATE_READY, TASK_STATE_RUNNING}"
  shows "st \<noteq> TASK_STATE_FINISHED \<Longrightarrow> sched_core (set_state tid st s)"
    and "sched_core ((set_state tid TASK_STATE_FINISHED s)\<lparr>finished_count := finished_count s + 1\<rparr>)"
proof -
  have len: "length (tasks s) = TASK_MAX_TASKS" and nf: "state_of s (unat tid) \<noteq> TASK_STATE_FINISHED"
    using assms by (auto simp: sched_core_def)
  note f = finished_set_state [OF len assms(2) nf]
  show "st \<noteq> TASK_STATE_FINISHED \<Longrightarrow> sched_core (set_state tid st s)"
    using assms len f(1) [of st] by (auto simp: sched_core_def nth_set_state)
  have "finished_tasks ((set_state tid TASK_STATE_FINISHED s)\<lparr>finished_count := finished_count s + 1\<rparr>) =
      insert (unat tid) (finished_tasks s)"
    using f(1) [of TASK_STATE_FINISHED] by (simp add: finished_tasks_def)
  then show "sched_core ((set_state tid TASK_STATE_FINISHED s)\<lparr>finished_count := finished_count s + 1\<rparr>)"
    using assms len f(2) by (auto simp: sched_core_def nth_set_state)
qed

text \<open>Dispatching from a state in which no task runs.\<close>

lemma activate_ok:
  assumes core: "sched_core s" and none: "only_running s None" and r: "scheduler_running s" "scheduler_initialized s"
    and n: "unat n < TASK_MAX_TASKS" "state_of s (unat n) = TASK_STATE_READY" and b: "remaining_dispatches s \<noteq> 0"
  obtains s' where "activate_task n s = (True, s')" "sched_wf s'" "scheduler_running s'" "current_task_id s' = n"
    "switch_count s' = switch_count s + 1" "remaining_dispatches s' = remaining_dispatches s - 1"
    "\<And>k. k < TASK_MAX_TASKS \<Longrightarrow> k \<noteq> unat n \<Longrightarrow> tasks s' ! k = tasks s ! k" "eflags s' = eflags s"
proof -
  let ?s = "(set_state n TASK_STATE_RUNNING s)\<lparr>current_task_id := n, round_robin_cursor := n,
        remaining_dispatches := remaining_dispatches s - 1, switch_count := switch_count s + 1\<rparr>"
  have len: "length (tasks s) = TASK_MAX_TASKS" using core by (simp add: sched_core_def)
  have "\<not> of_nat TASK_MAX_TASKS \<le> n" using n(1) by (simp add: word_le_nat_alt)
  then have act: "activate_task n s = (True, ?s)" using n b by (simp add: activate_task_def task_at_def)
  have "sched_core (set_state n TASK_STATE_RUNNING s)" using core_set_state(1) [OF core n(1)] n(2) by simp
  then have "sched_core ?s" by (simp add: sched_core_def finished_tasks_def)
  moreover have "only_running ?s (Some (unat n))" using none len n(1) by (auto simp: only_running_def nth_set_state)
  ultimately have "sched_wf ?s" using r n(1) by (simp add: sched_wf_def)
  with act show ?thesis using len r by (intro that [of ?s]) (simp_all add: nth_set_state)
qed

text \<open>A slot as the scheduler sees it, whatever its stack pointer.\<close>

lemma sched_wf_same_slots:
  assumes "length (tasks s') = length (tasks s)"
    and "\<And>k. k < TASK_MAX_TASKS \<Longrightarrow> state_of s' k = state_of s k \<and> tcb_entry (tasks s' ! k) = tcb_entry (tasks s ! k)"
    and "finished_count s' = finished_count s" "scheduler_running s' = scheduler_running s"
      "scheduler_initialized s' = scheduler_initialized s" "current_task_id s' = current_task_id s"
      "round_robin_cursor s' = round_robin_cursor s"
  shows "sched_wf s' = sched_wf s"
proof -
  have "finished_tasks s' = finished_tasks s" using assms(2) by (auto simp: finished_tasks_def)
  then show ?thesis using assms by (simp add: sched_wf_def sched_core_def only_running_def)
qed

text \<open>A switch changes no state of a task, only where the stack pointers are saved.\<close>

lemma switch_shape:
  obtains m sp' e where "fst (task_context_switch slot sp flags (s, c)) = (save_stack_pointer slot sp' (s\<lparr>task_memory := m\<rparr>))\<lparr>eflags := e\<rparr>"
  unfolding task_context_switch_def Let_def prod.case case_prod_beta fst_conv by blast

lemma switch_frame [simp]:
  fixes slot sp flags s c
  defines "s' \<equiv> fst (task_context_switch slot sp flags (s, c))"
  shows "length (tasks s') = length (tasks s)" "scheduler_running s' = scheduler_running s"
    "scheduler_initialized s' = scheduler_initialized s" "current_task_id s' = current_task_id s"
    "round_robin_cursor s' = round_robin_cursor s" "switch_count s' = switch_count s"
    "remaining_dispatches s' = remaining_dispatches s" "finished_count s' = finished_count s"
    and "k < length (tasks s) \<Longrightarrow> state_of s' k = state_of s k"
    and "k < length (tasks s) \<Longrightarrow> tcb_entry (tasks s' ! k) = tcb_entry (tasks s ! k)"
proof -
  obtain m sp' e where "s' = (save_stack_pointer slot sp' (s\<lparr>task_memory := m\<rparr>))\<lparr>eflags := e\<rparr>"
    unfolding s'_def by (rule switch_shape)
  then show "length (tasks s') = length (tasks s)" "scheduler_running s' = scheduler_running s"
    "scheduler_initialized s' = scheduler_initialized s" "current_task_id s' = current_task_id s"
    "round_robin_cursor s' = round_robin_cursor s" "switch_count s' = switch_count s"
    "remaining_dispatches s' = remaining_dispatches s" "finished_count s' = finished_count s"
    "k < length (tasks s) \<Longrightarrow> state_of s' k = state_of s k"
    "k < length (tasks s) \<Longrightarrow> tcb_entry (tasks s' ! k) = tcb_entry (tasks s ! k)"
    by (cases slot; cases "k = unat (case slot of Task_Slot tid \<Rightarrow> tid)"; simp add: save_stack_pointer_def task_at_def)+
qed

lemma switch_wf: "sched_wf s \<Longrightarrow> sched_wf (fst (task_context_switch slot sp flags (s, c)))"
  by (subst sched_wf_same_slots [of _ s]) (simp_all add: sched_wf_def sched_core_def)

section \<open>Slices\<close>

text \<open>
  The state a call leaves, the switch of stacks included, and the end of a task's slice: the
  running task yields or exits, with some contents of the registers.
\<close>

fun after_call :: "cpu \<Rightarrow> 'r outcome \<Rightarrow> scheduler option" where
  "after_call c (Returned r s) = Some s"
| "after_call c (Switch slot sp flags s) = Some (fst (task_context_switch slot sp flags (s, c)))"
| "after_call c Stopped = None"

definition end_slice :: "bool \<times> cpu \<Rightarrow> scheduler \<Rightarrow> scheduler option" where
  "end_slice = (\<lambda>(exits, c) s. after_call c (if exits then task_exit s else task_yield s))"

lemma not_in_task_iff: "sched_wf s \<Longrightarrow> not_in_task s \<longleftrightarrow> \<not> scheduler_running s"
proof -
  assume "sched_wf s"
  moreover have "unat (current_task_id s) < 8 \<Longrightarrow> \<not> of_nat TASK_MAX_TASKS \<le> current_task_id s" by (simp add: word_le_nat_alt)
  ultimately show ?thesis by (auto simp: sched_wf_def not_in_task_def task_at_def only_running_def)
qed

lemma not_in_task_frame [simp]: "not_in_task (s\<lparr>eflags := e\<rparr>) = not_in_task s"
  by (simp add: not_in_task_def task_at_def)

text \<open>The common end of \<open>task_yield\<close> and \<open>task_exit\<close>, once the caller has left the running state.\<close>

lemma hand_over:
  assumes core: "sched_core s" and none: "only_running s None" and r: "scheduler_running s" "scheduler_initialized s"
    and p: "p = current_task_id s" "unat p < TASK_MAX_TASKS"
  defines "n \<equiv> find_next_ready p s"
  obtains (dispatch) s' d where "n \<noteq> TASK_INVALID_ID" "remaining_dispatches s \<noteq> 0" "activate_task n s = (True, s')" "sched_wf s'"
      "scheduler_running s'" "current_task_id s' = n" "switch_count s' = switch_count s + 1"
      "remaining_dispatches s' = remaining_dispatches s - 1" "\<And>k. k < TASK_MAX_TASKS \<Longrightarrow> k \<noteq> unat n \<Longrightarrow> tasks s' ! k = tasks s ! k"
      "d < TASK_MAX_TASKS" "unat n = (unat p + 1 + d) mod TASK_MAX_TASKS"
      "\<forall>j < d. state_of s ((unat p + 1 + j) mod TASK_MAX_TASKS) \<noteq> TASK_STATE_READY" "state_of s (unat n) = TASK_STATE_READY"
      "eflags s' = eflags s"
    | (back_to_bootstrap) "n = TASK_INVALID_ID \<or> remaining_dispatches s = 0"
      "sched_wf (s\<lparr>current_task_id := TASK_INVALID_ID, scheduler_running := False\<rparr>)"
      "n = TASK_INVALID_ID \<longleftrightarrow> (\<forall>k < TASK_MAX_TASKS. state_of s k \<noteq> TASK_STATE_READY)"
proof (cases "n = TASK_INVALID_ID \<or> remaining_dispatches s = 0")
  case True
  have "sched_wf (s\<lparr>current_task_id := TASK_INVALID_ID, scheduler_running := False\<rparr>)"
    using core none by (simp add: sched_wf_def sched_core_def only_running_def finished_tasks_def)
  moreover have "n = TASK_INVALID_ID \<longleftrightarrow> (\<forall>k < TASK_MAX_TASKS. state_of s k \<noteq> TASK_STATE_READY)"
    unfolding n_def by (rule none_ready)
  ultimately show ?thesis using True by (intro back_to_bootstrap)
next
  case False
  have pi: "p \<noteq> TASK_INVALID_ID" using p(2) by auto
  then have fs: "(first_slot p + j) mod TASK_MAX_TASKS = (unat p + 1 + j) mod TASK_MAX_TASKS" for j
    by (simp add: first_slot_def mod_simps)
  show ?thesis
  proof (cases rule: find_next_ready_cases [of p s])
    case 1
    then show ?thesis using False by (simp add: n_def)
  next
    case (2 d)
    have n: "unat n < TASK_MAX_TASKS" "state_of s (unat n) = TASK_STATE_READY" using 2(2,3) by (simp_all add: n_def)
    obtain s' where a: "activate_task n s = (True, s')" "sched_wf s'" "scheduler_running s'" "current_task_id s' = n"
        "switch_count s' = switch_count s + 1" "remaining_dispatches s' = remaining_dispatches s - 1"
        "\<And>k. k < TASK_MAX_TASKS \<Longrightarrow> k \<noteq> unat n \<Longrightarrow> tasks s' ! k = tasks s ! k" "eflags s' = eflags s"
      using activate_ok [OF core none r n] False by blast
    show ?thesis using False a 2(1,2,5) n(2) by (intro dispatch [of s' d]) (simp_all add: n_def fs)
  qed
qed

text \<open>What the end of a slice does.\<close>

lemma leave_state:
  assumes wf: "sched_wf s" and run: "scheduler_running s"
  defines "p \<equiv> current_task_id s"
  shows "sched_core (set_state p TASK_STATE_READY s)" "only_running (set_state p TASK_STATE_READY s) None"
    "sched_core ((set_state p TASK_STATE_FINISHED s)\<lparr>finished_count := finished_count s + 1\<rparr>)"
    "only_running ((set_state p TASK_STATE_FINISHED s)\<lparr>finished_count := finished_count s + 1\<rparr>) None"
    "unat p < TASK_MAX_TASKS" "length (tasks s) = TASK_MAX_TASKS" "scheduler_initialized s"
proof -
  have w: "sched_core s" "unat p < TASK_MAX_TASKS" "only_running s (Some (unat p))" "scheduler_initialized s"
    using wf run by (simp_all add: sched_wf_def p_def)
  then have len: "length (tasks s) = TASK_MAX_TASKS" and st: "state_of s (unat p) = TASK_STATE_RUNNING"
    by (auto simp: sched_core_def only_running_def)
  show "sched_core (set_state p TASK_STATE_READY s)"
    "sched_core ((set_state p TASK_STATE_FINISHED s)\<lparr>finished_count := finished_count s + 1\<rparr>)"
    using core_set_state [OF w(1,2)] st by simp_all
  show "only_running (set_state p TASK_STATE_READY s) None"
    "only_running ((set_state p TASK_STATE_FINISHED s)\<lparr>finished_count := finished_count s + 1\<rparr>) None"
    using w(3) len by (auto simp: only_running_def nth_set_state)
  show "unat p < TASK_MAX_TASKS" "length (tasks s) = TASK_MAX_TASKS" "scheduler_initialized s" using w len by simp_all
qed

definition left_task :: "bool \<Rightarrow> scheduler \<Rightarrow> scheduler" where
  "left_task exits s = (if exits then (set_state (current_task_id s) TASK_STATE_FINISHED s)\<lparr>finished_count := finished_count s + 1\<rparr>
     else set_state (current_task_id s) TASK_STATE_READY s)"

lemma left_task_simps [simp]:
  "scheduler_running (left_task e s) = scheduler_running s" "scheduler_initialized (left_task e s) = scheduler_initialized s"
  "current_task_id (left_task e s) = current_task_id s" "remaining_dispatches (left_task e s) = remaining_dispatches s"
  "switch_count (left_task e s) = switch_count s" "eflags (left_task e s) = eflags s"
  "bootstrap_stack_pointer (left_task e s) = bootstrap_stack_pointer s"
  by (simp_all add: left_task_def)

lemma nth_left_task:
  "k < length (tasks s) \<Longrightarrow> k \<noteq> unat (current_task_id s) \<Longrightarrow> tasks (left_task e s) ! k = tasks s ! k"
  by (simp add: left_task_def nth_set_state)

text \<open>Both calls disable interrupts, leave the running state and hand over.\<close>

definition hand_over_call :: "bool \<Rightarrow> u32 \<Rightarrow> scheduler \<Rightarrow> unit outcome" where
  "hand_over_call exits flags s =
     (let p = current_task_id s; n = find_next_ready p s in
      if n \<noteq> TASK_INVALID_ID \<and> remaining_dispatches s \<noteq> 0 then
        let (activated, s) = activate_task n s in
        if \<not> activated then Stopped
        else if n = p \<and> \<not> exits then Returned () (interrupt_state_restore flags s)
        else Switch (Task_Slot p) (tcb_stack_pointer (task_at s n)) flags s
      else switch_to_bootstrap p flags s)"

lemma slice_calls:
  assumes "sched_wf s" and "scheduler_running s"
  shows "task_yield s = hand_over_call False (eflags s) (left_task False (s\<lparr>eflags := eflags s AND NOT EFLAGS_INTERRUPT\<rparr>))"
    and "task_exit s = hand_over_call True (eflags s) (left_task True (s\<lparr>eflags := eflags s AND NOT EFLAGS_INTERRUPT\<rparr>))"
proof -
  have "\<not> not_in_task s" using assms by (simp add: not_in_task_iff)
  then show "task_yield s = hand_over_call False (eflags s) (left_task False (s\<lparr>eflags := eflags s AND NOT EFLAGS_INTERRUPT\<rparr>))"
    "task_exit s = hand_over_call True (eflags s) (left_task True (s\<lparr>eflags := eflags s AND NOT EFLAGS_INTERRUPT\<rparr>))"
    by (simp_all add: task_yield_def task_exit_def interrupt_state_save_and_disable_def hand_over_call_def Let_def left_task_def
        case_prod_beta)
qed

lemma end_slice_spec:
  assumes wf: "sched_wf s" and run: "scheduler_running s"
  defines "p \<equiv> unat (current_task_id s)"
  obtains (dispatch) s' d where "end_slice e s = Some s'" "sched_wf s'" "scheduler_running s'" "remaining_dispatches s \<noteq> 0"
      "switch_count s' = switch_count s + 1" "remaining_dispatches s' = remaining_dispatches s - 1"
      "\<And>k. k < TASK_MAX_TASKS \<Longrightarrow> k \<noteq> p \<Longrightarrow> k \<noteq> unat (current_task_id s') \<Longrightarrow> state_of s' k = state_of s k"
      "d < TASK_MAX_TASKS" "unat (current_task_id s') = (p + 1 + d) mod TASK_MAX_TASKS"
      "\<forall>j < d. (p + 1 + j) mod TASK_MAX_TASKS \<noteq> p \<longrightarrow> state_of s ((p + 1 + j) mod TASK_MAX_TASKS) \<noteq> TASK_STATE_READY"
    | (back_to_bootstrap) s' where "end_slice e s = Some s'" "sched_wf s'" "\<not> scheduler_running s'"
      "switch_count s' = switch_count s" "remaining_dispatches s' = remaining_dispatches s"
      "\<And>k. k < TASK_MAX_TASKS \<Longrightarrow> k \<noteq> p \<Longrightarrow> state_of s' k = state_of s k"
      "remaining_dispatches s = 0 \<or> (\<forall>k < TASK_MAX_TASKS. state_of s' k \<noteq> TASK_STATE_READY)"
proof -
  define s0 where "s0 = s\<lparr>eflags := eflags s AND NOT EFLAGS_INTERRUPT\<rparr>"
  have s0: "sched_wf s0" "scheduler_running s0" "current_task_id s0 = current_task_id s" "tasks s0 = tasks s"
    "remaining_dispatches s0 = remaining_dispatches s" "switch_count s0 = switch_count s"
    using wf run by (simp_all add: s0_def)
  note leave = leave_state [OF s0(1,2)]
  define s1 where "s1 = left_task (fst e) s0"
  have s1: "sched_core s1" "only_running s1 None" "scheduler_running s1" "scheduler_initialized s1" "current_task_id s1 = current_task_id s"
    "remaining_dispatches s1 = remaining_dispatches s" "switch_count s1 = switch_count s"
    using leave s0 by (cases "fst e"; simp add: s1_def left_task_def)+
  have keep: "tasks s1 ! k = tasks s ! k" if "k < TASK_MAX_TASKS" "k \<noteq> p" for k
    using nth_left_task [of k s0 "fst e"] that leave(6) s0 by (simp add: s1_def p_def)
  have es: "end_slice e s = after_call (snd e) (hand_over_call (fst e) (eflags s) s1)"
    using slice_calls [OF wf run] by (simp add: end_slice_def s1_def s0_def case_prod_beta)
  have p8: "unat (current_task_id s1) < TASK_MAX_TASKS" using leave(5) s0(3) s1(5) by simp
  show ?thesis
  proof (cases rule: hand_over [OF s1(1-4) refl p8, unfolded s1(5), case_names dispatch back_to_bootstrap])
    case (dispatch s' d)
    let ?n = "find_next_ready (current_task_id s) s1"
    define s2 where "s2 = (if ?n = current_task_id s \<and> \<not> fst e then interrupt_state_restore (eflags s) s'
      else fst (task_context_switch (Task_Slot (current_task_id s)) (tcb_stack_pointer (task_at s' ?n)) (eflags s) (s', snd e)))"
    have len: "length (tasks s') = TASK_MAX_TASKS" using dispatch(4) by (simp add: sched_wf_def sched_core_def)
    have sl: "end_slice e s = Some s2"
      using dispatch(1-3) by (simp add: es hand_over_call_def s1(5) Let_def s2_def)
    have f: "sched_wf s2" "scheduler_running s2" "switch_count s2 = switch_count s'" "remaining_dispatches s2 = remaining_dispatches s'"
      "current_task_id s2 = ?n" "\<And>k. k < TASK_MAX_TASKS \<Longrightarrow> state_of s2 k = state_of s' k"
      using dispatch(4-6) len by (simp_all add: s2_def switch_wf)
    show ?thesis
    proof (rule that(1) [OF sl f(1,2)])
      show "remaining_dispatches s \<noteq> 0" "switch_count s2 = switch_count s + 1" "remaining_dispatches s2 = remaining_dispatches s - 1"
        using dispatch(2,7,8) s1(6,7) f(3,4) by simp_all
      show "d < TASK_MAX_TASKS" "unat (current_task_id s2) = (p + 1 + d) mod TASK_MAX_TASKS"
        using dispatch(10,11) f(5) by (simp_all add: p_def)
      show "\<And>k. k < TASK_MAX_TASKS \<Longrightarrow> k \<noteq> p \<Longrightarrow> k \<noteq> unat (current_task_id s2) \<Longrightarrow> state_of s2 k = state_of s k"
        using dispatch(9) f(5,6) keep by simp
      show "\<forall>j < d. (p + 1 + j) mod TASK_MAX_TASKS \<noteq> p \<longrightarrow> state_of s ((p + 1 + j) mod TASK_MAX_TASKS) \<noteq> TASK_STATE_READY"
      proof (intro allI impI)
        fix j assume "j < d" "(p + 1 + j) mod TASK_MAX_TASKS \<noteq> p"
        then show "state_of s ((p + 1 + j) mod TASK_MAX_TASKS) \<noteq> TASK_STATE_READY"
          using dispatch(12) keep [of "(p + 1 + j) mod TASK_MAX_TASKS"] by (auto simp: p_def)
      qed
    qed
  next
    case back_to_bootstrap
    let ?t = "s1\<lparr>current_task_id := TASK_INVALID_ID, scheduler_running := False\<rparr>"
    define s2 where "s2 = fst (task_context_switch (Task_Slot (current_task_id s)) (bootstrap_stack_pointer s1) (eflags s) (?t, snd e))"
    have len: "length (tasks s1) = TASK_MAX_TASKS" using s1(1) by (simp add: sched_core_def)
    have sl: "end_slice e s = Some s2"
      using back_to_bootstrap(1) by (auto simp: es hand_over_call_def s1(5) switch_to_bootstrap_def Let_def s2_def)
    have f: "sched_wf s2" "\<not> scheduler_running s2" "switch_count s2 = switch_count s" "remaining_dispatches s2 = remaining_dispatches s"
      "\<And>k. k < TASK_MAX_TASKS \<Longrightarrow> state_of s2 k = state_of s1 k"
      using back_to_bootstrap(2) s1(6,7) len by (simp_all add: s2_def switch_wf)
    show ?thesis
      by (rule that(2) [OF sl f(1-4)]) (use back_to_bootstrap(1,3) s1(6) keep f(5) in auto)
  qed
qed

section \<open>Fairness and budget\<close>

text \<open>The states after each slice of a run, until the bootstrap stack is resumed.\<close>

fun run_slices :: "(bool \<times> cpu) list \<Rightarrow> scheduler \<Rightarrow> scheduler list" where
  "run_slices [] s = []"
| "run_slices (e # es) s =
     (if scheduler_running s then case end_slice e s of None \<Rightarrow> [] | Some s' \<Rightarrow> s' # run_slices es s' else [])"

text \<open>How many slots lie between the running task and another one, in the order of the search.\<close>

definition slots_between :: "nat \<Rightarrow> nat \<Rightarrow> nat" where
  "slots_between c k = (if c < k then k - c - 1 else k + 7 - c)"

lemma mod_8: "n < 16 \<Longrightarrow> n mod 8 = (if n < 8 then n else n - 8)" for n :: nat
  by (simp add: le_mod_geq)

lemma slots_between:
  assumes "c < 8" "k < 8" "k \<noteq> c"
  shows "(c + 1 + slots_between c k) mod 8 = k" "slots_between c k < 7"
    "d < slots_between c k \<Longrightarrow> slots_between ((c + 1 + d) mod 8) k = slots_between c k - d - 1 \<and> (c + 1 + d) mod 8 \<noteq> k"
proof -
  show lt: "slots_between c k < 7" using assms by (cases "c < k") (auto simp: slots_between_def)
  show "(c + 1 + slots_between c k) mod 8 = k" using assms mod_8 [of "c + 1 + slots_between c k"] lt by (auto simp: slots_between_def)
  assume d: "d < slots_between c k"
  then have m: "(c + 1 + d) mod 8 = (if c + 1 + d < 8 then c + 1 + d else c + 1 + d - 8)" using assms lt by (intro mod_8) simp
  show "slots_between ((c + 1 + d) mod 8) k = slots_between c k - d - 1 \<and> (c + 1 + d) mod 8 \<noteq> k"
    unfolding m using d assms by (auto simp: slots_between_def split: if_splits)
qed

lemma waiting_task_runs:
  assumes "sched_wf s" "scheduler_running s" "k < TASK_MAX_TASKS" "state_of s k = TASK_STATE_READY"
    and "slots_between (unat (current_task_id s)) k < length es" "length es \<le> unat (remaining_dispatches s)"
  shows "\<exists>t \<in> set (run_slices es s). scheduler_running t \<and> unat (current_task_id t) = k"
  using assms
proof (induction es arbitrary: s)
  case (Cons e es)
  let ?c = "unat (current_task_id s)"
  have w: "?c < 8" "k \<noteq> ?c" "remaining_dispatches s \<noteq> 0"
    using Cons.prems by (auto simp: sched_wf_def only_running_def)
  note sb = slots_between [OF w(1) _ w(2)]
  show ?case
  proof (cases rule: end_slice_spec [OF Cons.prems(1,2), of e, case_names dispatch back_to_bootstrap])
    case (dispatch s' d)
    have d: "d \<le> slots_between ?c k"
    proof (rule ccontr)
      assume "\<not> d \<le> slots_between ?c k"
      then show False using dispatch(10) sb(1) Cons.prems(3,4) w(2) by (metis not_le)
    qed
    have r: "remaining_dispatches s' = remaining_dispatches s - 1" "unat (remaining_dispatches s') = unat (remaining_dispatches s) - 1"
      using dispatch(6) w(3) by (simp_all add: unat_minus_one)
    show ?thesis
    proof (cases "d = slots_between ?c k")
      case True
      then have "unat (current_task_id s') = k" using dispatch(9) sb(1) Cons.prems(3) by simp
      then show ?thesis using dispatch(1,3) Cons.prems(2) by auto
    next
      case False
      then have lt: "slots_between (unat (current_task_id s')) k = slots_between ?c k - d - 1" "unat (current_task_id s') \<noteq> k"
        using sb(3) [of d] d dispatch(9) Cons.prems(3) by auto
      then have "state_of s' k = TASK_STATE_READY" using dispatch(7) [of k] Cons.prems(3,4) w(2) by auto
      then have "\<exists>t \<in> set (run_slices es s'). scheduler_running t \<and> unat (current_task_id t) = k"
        using dispatch(2,3) Cons.prems(3,5,6) lt(1) r(2) d False by (intro Cons.IH) auto
      then show ?thesis using dispatch(1) Cons.prems(2) by auto
    qed
  next
    case (back_to_bootstrap s')
    then have "state_of s' k = TASK_STATE_READY" using w(2) Cons.prems(3,4) by simp
    then show ?thesis using back_to_bootstrap(7) w(3) Cons.prems(3) by blast
  qed
qed simp

text \<open>Dispatches use up the budget one by one.\<close>

lemma budget_kept:
  assumes "sched_wf s" "scheduler_running s" "t \<in> set (run_slices es s)"
  shows "sched_wf t \<and> switch_count t + remaining_dispatches t = switch_count s + remaining_dispatches s \<and>
    unat (remaining_dispatches t) \<le> unat (remaining_dispatches s) \<and>
    (\<not> scheduler_running t \<longrightarrow> remaining_dispatches t = 0 \<or> (\<forall>k < TASK_MAX_TASKS. state_of t k \<noteq> TASK_STATE_READY))"
  using assms
proof (induction es arbitrary: s)
  case (Cons e es)
  show ?case
  proof (cases rule: end_slice_spec [OF Cons.prems(1,2), of e, case_names dispatch back_to_bootstrap])
    case (dispatch s' d)
    have r: "switch_count s' + remaining_dispatches s' = switch_count s + remaining_dispatches s"
      "unat (remaining_dispatches s') \<le> unat (remaining_dispatches s)"
      using dispatch(4-6) by (simp_all add: unat_minus_one)
    from Cons.prems(2,3) dispatch(1) consider "t = s'" | "t \<in> set (run_slices es s')" by auto
    then show ?thesis
    proof cases
      case 2
      from Cons.IH [OF dispatch(2,3) this] show ?thesis using r by auto
    qed (use dispatch(2,3) r in simp)
  next
    case (back_to_bootstrap s')
    have "run_slices es s' = []" using back_to_bootstrap(3) by (cases es) simp_all
    then have "t = s'" using Cons.prems(2,3) back_to_bootstrap(1) by simp
    then show ?thesis using back_to_bootstrap by simp
  qed
qed simp

text \<open>A run comes back to the bootstrap stack before its slices exceed its budget.\<close>

lemma run_comes_back:
  assumes "sched_wf s" "scheduler_running s" "unat (remaining_dispatches s) < length es"
  shows "run_slices es s \<noteq> [] \<and> \<not> scheduler_running (last (run_slices es s)) \<and>
    length (run_slices es s) \<le> unat (remaining_dispatches s) + 1"
  using assms
proof (induction es arbitrary: s)
  case (Cons e es)
  show ?case
  proof (cases rule: end_slice_spec [OF Cons.prems(1,2), of e, case_names dispatch back_to_bootstrap])
    case (dispatch s' d)
    have "unat (remaining_dispatches s') + 1 = unat (remaining_dispatches s)"
      using dispatch(4,6) by (simp add: unat_minus_one unat_eq_zero) (metis Suc_pred gr0I unat_eq_zero)
    then show ?thesis using Cons.IH [OF dispatch(2,3)] Cons.prems(2,3) dispatch(1) by auto
  next
    case (back_to_bootstrap s')
    have "run_slices es s' = []" using back_to_bootstrap(3) by (cases es) simp_all
    then show ?thesis using Cons.prems(2) back_to_bootstrap(1,3) by simp
  qed
qed simp

section \<open>The other calls\<close>

lemma interrupt_bit: "e AND EFLAGS_INTERRUPT = 0 \<longleftrightarrow> \<not> bit e 9" for e :: u32
  using and_exp_eq_0_iff_not_bit [of e 9] by simp

lemma interrupt_mask: "bit EFLAGS_INTERRUPT n \<longleftrightarrow> n = 9"
proof -
  have "EFLAGS_INTERRUPT = push_bit 9 1" by (simp add: push_bit_eq_mult)
  then show ?thesis by (simp only: bit_push_bit_iff bit_1_iff) auto
qed

text \<open>A call that returns gives the interrupt flag back as it found it.\<close>

lemma restore_saved:
  "interrupt_state_restore (eflags s) (s\<lparr>eflags := eflags s AND NOT EFLAGS_INTERRUPT\<rparr>) = s"
proof -
  have "(e AND NOT EFLAGS_INTERRUPT) OR EFLAGS_INTERRUPT = e" if "bit e 9" for e :: u32
    by (rule bit_eqI) (use that in \<open>simp only: bit_or_iff bit_and_iff bit_not_iff interrupt_mask, auto\<close>)
  moreover have "e AND NOT EFLAGS_INTERRUPT = e" if "\<not> bit e 9" for e :: u32
    by (rule bit_eqI) (use that in \<open>simp only: bit_and_iff bit_not_iff interrupt_mask, auto\<close>)
  ultimately show ?thesis by (cases "bit (eflags s) 9") (simp_all add: interrupt_state_restore_def interrupt_bit and.assoc)
qed

lemma find_next_ready_frame [simp]:
  "find_next_ready a (s\<lparr>eflags := e\<rparr>) = find_next_ready a s"
  "find_next_ready a (s\<lparr>remaining_dispatches := r, scheduler_running := b\<rparr>) = find_next_ready a s"
  by (simp_all add: find_next_ready_def task_at_def)

lemma task_run_cases:
  assumes wf: "sched_wf s"
  obtains (refused) "\<not> scheduler_initialized s \<or> scheduler_running s" "task_run budget s = Returned False s"
    | (idle) "scheduler_initialized s" "\<not> scheduler_running s" "\<forall>k < TASK_MAX_TASKS. state_of s k \<noteq> TASK_STATE_READY"
      "task_run budget s = Returned True s"
    | (no_budget) "scheduler_initialized s" "\<not> scheduler_running s" "\<exists>k < TASK_MAX_TASKS. state_of s k = TASK_STATE_READY"
      "budget = 0" "task_run budget s = Returned False s"
    | (starts) s' n where "scheduler_initialized s" "\<not> scheduler_running s" "budget \<noteq> 0"
      "task_run budget s = Switch Bootstrap_Slot (tcb_stack_pointer (task_at s' n)) (eflags s) s'" "sched_wf s'"
      "scheduler_running s'" "current_task_id s' = n" "switch_count s' = switch_count s + 1" "remaining_dispatches s' = budget - 1"
proof -
  define s0 where "s0 = s\<lparr>eflags := eflags s AND NOT EFLAGS_INTERRUPT\<rparr>"
  let ?n = "find_next_ready (round_robin_cursor s) s"
  define s1 where "s1 = s0\<lparr>remaining_dispatches := budget, scheduler_running := True\<rparr>"
  have restore: "interrupt_state_restore (eflags s) s0 = s" unfolding s0_def by (rule restore_saved)
  have save: "interrupt_state_save_and_disable s = (eflags s, s0)" by (simp add: interrupt_state_save_and_disable_def s0_def)
  have s0: "scheduler_initialized s0 = scheduler_initialized s" "scheduler_running s0 = scheduler_running s"
    "round_robin_cursor s0 = round_robin_cursor s" "find_next_ready a s0 = find_next_ready a s" for a by (simp_all add: s0_def)
  note unfold = task_run_def [of budget s, unfolded save Let_def prod.case s0 restore]
  show ?thesis
  proof (cases "\<not> scheduler_initialized s \<or> scheduler_running s")
    case True
    then show ?thesis by (intro refused) (auto simp: unfold)
  next
    case False
    show ?thesis
    proof (cases rule: find_next_ready_cases [of "round_robin_cursor s" s])
      case 1
      then show ?thesis using False by (intro idle) (auto simp: unfold)
    next
      case (2 d)
      have n: "unat ?n < TASK_MAX_TASKS" "state_of s (unat ?n) = TASK_STATE_READY" using 2 by simp_all
      show ?thesis
      proof (cases "budget = 0")
        case True
        have "task_run budget s = Returned False s" using True False 2(4) unfolding unfold by simp
        then show ?thesis using True False n by (intro no_budget) auto
      next
        case nz: False
        have "sched_core s1" "only_running s1 None" "scheduler_running s1" "scheduler_initialized s1"
          "state_of s1 (unat ?n) = TASK_STATE_READY" "remaining_dispatches s1 \<noteq> 0"
          using wf False n(2) nz by (auto simp: s1_def s0_def sched_wf_def sched_core_def only_running_def finished_tasks_def)
        then obtain s' where a: "activate_task ?n s1 = (True, s')" "sched_wf s'" "scheduler_running s'" "current_task_id s' = ?n"
            "switch_count s' = switch_count s1 + 1" "remaining_dispatches s' = remaining_dispatches s1 - 1"
          using activate_ok [of s1 ?n] n(1) by metis
        then have "task_run budget s = Switch Bootstrap_Slot (tcb_stack_pointer (task_at s' ?n)) (eflags s) s'"
          using False 2(4) nz by (simp add: unfold flip: s1_def)
        then show ?thesis using False nz a by (intro starts [of s' ?n]) (simp_all add: s1_def s0_def)
      qed
    qed
  qed
qed

lemma task_run_resumed_eq: "task_run_resumed s = ((\<forall>k < TASK_MAX_TASKS. state_of s k \<noteq> TASK_STATE_READY), s)"
  by (simp only: task_run_resumed_def interrupt_state_save_and_disable_def Let_def prod.case find_next_ready_frame none_ready restore_saved)
    simp

definition unused_slot :: task_control_block where
  "unused_slot = \<lparr>tcb_state = TASK_STATE_UNUSED, tcb_entry = 0, tcb_argument = 0, tcb_stack_pointer = 0\<rparr>"

lemma task_system_init_tasks:
  assumes "length (tasks s) = TASK_MAX_TASKS" "\<not> scheduler_running s"
  shows "tasks (task_system_init s) = replicate TASK_MAX_TASKS unused_slot"
proof -
  have "fold (\<lambda>tid ts. ts[tid := unused_slot]) [0..<TASK_MAX_TASKS] (tasks s) = replicate TASK_MAX_TASKS unused_slot"
    using assms(1) by (subst fold_fill_upt) (auto simp: map_replicate_const simp del: upt_rec_numeral)
  then show ?thesis
    using assms(2)
    by (simp add: task_system_init_def interrupt_state_save_and_disable_def Let_def unused_slot_def del: upt_rec_numeral replicate.simps)
qed

lemma task_init_wf:
  assumes "sched_wf s"
  shows "sched_wf (task_system_init s)"
proof (cases "scheduler_running s")
  case True
  then show ?thesis using assms by (simp add: task_system_init_def interrupt_state_save_and_disable_def Let_def)
next
  case False
  have "tasks (task_system_init s) = replicate TASK_MAX_TASKS unused_slot"
    using assms False by (intro task_system_init_tasks) (simp_all add: sched_wf_def sched_core_def)
  moreover have "finished_count (task_system_init s) = 0" "\<not> scheduler_running (task_system_init s)"
    "current_task_id (task_system_init s) = TASK_INVALID_ID"
    using False by (simp_all add: task_system_init_def interrupt_state_save_and_disable_def Let_def interrupt_state_restore_def)
  ultimately show ?thesis
    by (simp add: sched_wf_def sched_core_def only_running_def finished_tasks_def unused_slot_def cong: conj_cong del: replicate.simps)
qed

lemma task_create_cases:
  assumes wf: "sched_wf s"
  obtains (refused) "task_create stacks xa ta entry_point arg s = (TASK_INVALID_ID, s)"
      "\<not> scheduler_initialized s \<or> scheduler_running s \<or> entry_point = 0 \<or> (\<forall>k < TASK_MAX_TASKS. state_of s k \<noteq> TASK_STATE_UNUSED)"
    | (made) k where "k < TASK_MAX_TASKS" "state_of s k = TASK_STATE_UNUSED" "\<forall>j < k. state_of s j \<noteq> TASK_STATE_UNUSED"
      "scheduler_initialized s" "\<not> scheduler_running s" "entry_point \<noteq> 0"
      "task_create stacks xa ta entry_point arg s = (of_nat k, interrupt_state_restore (eflags s) (set_state (of_nat k) TASK_STATE_READY
        (prepare_initial_stack stacks xa ta (of_nat k) (eflags s)
          (s\<lparr>eflags := eflags s AND NOT EFLAGS_INTERRUPT, tasks := (tasks s)[k := (tasks s ! k)\<lparr>tcb_entry := entry_point, tcb_argument := arg\<rparr>]\<rparr>))))"
proof -
  define s0 where "s0 = s\<lparr>eflags := eflags s AND NOT EFLAGS_INTERRUPT\<rparr>"
  have save: "interrupt_state_save_and_disable s = (eflags s, s0)" by (simp add: interrupt_state_save_and_disable_def s0_def)
  have restore: "interrupt_state_restore (eflags s) s0 = s" unfolding s0_def by (rule restore_saved)
  have s0: "scheduler_initialized s0 = scheduler_initialized s" "scheduler_running s0 = scheduler_running s" "tasks s0 = tasks s"
    by (simp_all add: s0_def)
  note unfold = task_create_def [of stacks xa ta entry_point arg s, unfolded save Let_def prod.case s0 restore]
  show ?thesis
  proof (cases "\<not> scheduler_initialized s \<or> scheduler_running s \<or> entry_point = 0")
    case True
    then show ?thesis by (intro refused) (auto simp: unfold simp del: upt_rec_numeral)
  next
    case False
    show ?thesis
    proof (cases "find (\<lambda>c. state_of s c = TASK_STATE_UNUSED) [0..<TASK_MAX_TASKS]")
      case None
      have "task_create stacks xa ta entry_point arg s = (TASK_INVALID_ID, s)"
        using None False unfolding unfold by (simp del: upt_rec_numeral)
      moreover have "\<forall>k < TASK_MAX_TASKS. state_of s k \<noteq> TASK_STATE_UNUSED" using None by (auto simp: find_None_iff simp del: upt_rec_numeral)
      ultimately show ?thesis by (intro refused) blast+
    next
      case (Some k)
      then have k: "k < TASK_MAX_TASKS" "state_of s k = TASK_STATE_UNUSED" "\<forall>j < k. state_of s j \<noteq> TASK_STATE_UNUSED"
        by (auto simp: find_Some_iff simp del: upt_rec_numeral)
      have u: "unat (of_nat k :: u32) = k" "(of_nat k :: u32) \<noteq> TASK_INVALID_ID" using k(1) by (auto simp: unat_of_nat32 word_unat_eq_iff)
      have "task_create stacks xa ta entry_point arg s = (of_nat k, interrupt_state_restore (eflags s) (set_state (of_nat k) TASK_STATE_READY
        (prepare_initial_stack stacks xa ta (of_nat k) (eflags s)
          (s\<lparr>eflags := eflags s AND NOT EFLAGS_INTERRUPT, tasks := (tasks s)[k := (tasks s ! k)\<lparr>tcb_entry := entry_point, tcb_argument := arg\<rparr>]\<rparr>))))"
        using Some False u unfolding unfold by (simp add: task_at_def s0_def del: upt_rec_numeral)
      then show ?thesis using k False by (intro made [of k]) simp_all
    qed
  qed
qed

lemma task_create_wf:
  assumes wf: "sched_wf s"
  shows "sched_wf (snd (task_create stacks xa ta entry_point arg s))"
  using wf
proof (cases rule: task_create_cases [of s stacks xa ta entry_point arg, case_names refused made])
  case (made k)
  let ?s = "snd (task_create stacks xa ta entry_point arg s)"
  have u: "unat (of_nat k :: u32) = k" using made(1) by (simp add: unat_of_nat32)
  have len: "length (tasks s) = TASK_MAX_TASKS" using wf by (simp add: sched_wf_def sched_core_def)
  have f: "scheduler_running ?s = scheduler_running s" "scheduler_initialized ?s = scheduler_initialized s"
    "current_task_id ?s = current_task_id s" "round_robin_cursor ?s = round_robin_cursor s" "finished_count ?s = finished_count s"
    "length (tasks ?s) = length (tasks s)"
    by (simp_all add: made(7) prepare_initial_stack_def case_prod_beta Let_def interrupt_state_restore_def)
  have t: "state_of ?s j = (if j = k then TASK_STATE_READY else state_of s j)"
    "tcb_entry (tasks ?s ! j) = (if j = k then entry_point else tcb_entry (tasks s ! j))" if "j < TASK_MAX_TASKS" for j
    using that len u by (simp_all add: made(7) prepare_initial_stack_def case_prod_beta Let_def nth_set_state nth_list_update task_at_def)
  have "finished_tasks ?s = finished_tasks s" using t(1) made(2) by (auto simp: finished_tasks_def split: if_splits)
  then show ?thesis
    using wf f t made(2,5,6) by (auto simp: sched_wf_def sched_core_def only_running_def split: if_splits)
qed (use wf in simp)

section \<open>Reachable schedulers\<close>

text \<open>
  What the calls of the interface, each with the switch it ends in, make of the static storage of
  the image. Code outside the scheduler changes memory and flags at will.
\<close>

definition task_static :: "scheduler" where
  "task_static = \<lparr>tasks = replicate TASK_MAX_TASKS \<lparr>tcb_state = TASK_STATE_UNUSED, tcb_entry = 0, tcb_argument = 0, tcb_stack_pointer = 0\<rparr>,
     task_memory = (\<lambda>_. 0), bootstrap_stack_pointer = 0, current_task_id = TASK_INVALID_ID, round_robin_cursor = TASK_INVALID_ID,
     remaining_dispatches = 0, switch_count = 0, finished_count = 0, scheduler_initialized = False, scheduler_running = False,
     eflags = EFLAGS_RESERVED\<rparr>"

inductive sched_reach :: "scheduler \<Rightarrow> bool" where
  reach_static: "sched_reach task_static"
| reach_elsewhere: "sched_reach s \<Longrightarrow> sched_reach (s\<lparr>task_memory := m, eflags := e\<rparr>)"
| reach_init: "sched_reach s \<Longrightarrow> sched_reach (task_system_init s)"
| reach_create: "sched_reach s \<Longrightarrow> sched_reach (snd (task_create stacks xa ta entry_point arg s))"
| reach_run: "sched_reach s \<Longrightarrow> after_call c (task_run budget s) = Some s' \<Longrightarrow> sched_reach s'"
| reach_yield: "sched_reach s \<Longrightarrow> after_call c (task_yield s) = Some s' \<Longrightarrow> sched_reach s'"
| reach_exit: "sched_reach s \<Longrightarrow> after_call c (task_exit s) = Some s' \<Longrightarrow> sched_reach s'"
| reach_resumed: "sched_reach s \<Longrightarrow> sched_reach (snd (task_run_resumed s))"

lemma static_wf: "sched_wf task_static"
  by (simp add: task_static_def sched_wf_def sched_core_def only_running_def finished_tasks_def nth_replicate cong: conj_cong del: replicate.simps)

lemma not_running_slice:
  assumes "sched_wf s" "\<not> scheduler_running s"
  shows "task_yield s = Returned () s" "task_exit s = Stopped"
  using assms
  by (simp_all only: task_yield_def task_exit_def interrupt_state_save_and_disable_def Let_def prod.case not_in_task_frame
      not_in_task_iff restore_saved) simp_all

lemma slice_wf:
  assumes wf: "sched_wf s" and "end_slice e s = Some s'"
  shows "sched_wf s'"
proof (cases "scheduler_running s")
  case True
  show ?thesis by (cases rule: end_slice_spec [OF wf True, of e]) (use assms in simp_all)
next
  case False
  then show ?thesis using assms not_running_slice [OF wf] by (auto simp: end_slice_def case_prod_beta split: if_splits)
qed

lemma run_wf:
  assumes wf: "sched_wf s" and "after_call c (task_run budget s) = Some s'"
  shows "sched_wf s'"
  by (cases rule: task_run_cases [OF wf, of budget]) (use assms in \<open>auto simp: switch_wf\<close>)

lemma reach_wf: "sched_reach s \<Longrightarrow> sched_wf s"
proof (induction rule: sched_reach.induct)
  case (reach_yield s c s')
  then show ?case using slice_wf [of s "(False, c)"] by (simp add: end_slice_def)
next
  case (reach_exit s c s')
  then show ?case using slice_wf [of s "(True, c)"] by (simp add: end_slice_def)
next
  case (reach_elsewhere s e m)
  have "sched_wf ((s\<lparr>task_memory := m\<rparr>)\<lparr>eflags := e\<rparr>)" using reach_elsewhere(2) by (simp only: sched_wf_frame)
  then show ?case by simp
qed (simp_all add: static_wf task_init_wf task_create_wf run_wf task_run_resumed_eq)

section \<open>Stacks\<close>

text \<open>Leaving a stack: the frame on it, and where its pointer is kept.\<close>

definition saved_pointer :: "saved_in \<Rightarrow> scheduler \<Rightarrow> u32" where
  "saved_pointer slot s = (case slot of Bootstrap_Slot \<Rightarrow> bootstrap_stack_pointer s | Task_Slot tid \<Rightarrow> tcb_stack_pointer (task_at s tid))"

lemma switch_out:
  assumes "20 \<le> unat (esp c)" and "\<And>tid. slot = Task_Slot tid \<Longrightarrow> unat tid < length (tasks s)"
    and s'_def: "s' = fst (task_context_switch slot new_sp flags (s, c))"
  shows "saved_pointer slot s' = esp c - 20"
    and "load32 (task_memory s') (esp c - 20) = edi c" "load32 (task_memory s') (esp c - 16) = esi c"
    "load32 (task_memory s') (esp c - 12) = ebx c" "load32 (task_memory s') (esp c - 8) = ebp c"
    "load32 (task_memory s') (esp c - 4) = flags"
    and "\<And>z. z < 4294967296 \<Longrightarrow> z < unat (esp c) - 20 \<or> unat (esp c) \<le> z \<Longrightarrow> task_memory s' (of_nat z) = task_memory s (of_nat z)"
proof -
  let ?x = "unat (esp c)" and ?vs = "[flags, ebp c, ebx c, esi c, edi c]"
  have x: "?x \<le> 4294967295" using unat_less_width(3) [of "esp c"] by simp
  obtain m' where m': "fold push32 ?vs (of_nat ?x, task_memory s) = (of_nat (?x - 4 * length ?vs), m')"
    "\<And>i. i < length ?vs \<Longrightarrow> load32 m' (of_nat (?x - 4 * (i + 1))) = ?vs ! i"
    "\<And>z. z < 4294967296 \<Longrightarrow> z < ?x - 4 * length ?vs \<or> ?x \<le> z \<Longrightarrow> m' (of_nat z) = task_memory s (of_nat z)"
    by (rule push_all [of ?vs ?x "task_memory s"]) (use assms(1) x in simp_all)
  have sp: "(of_nat (?x - k) :: u32) = esp c - of_nat k" if "k \<le> 20" for k using assms(1) that by (simp add: of_nat_diff)
  have s': "\<exists>e. s' = (save_stack_pointer slot (esp c - 20) (s\<lparr>task_memory := m'\<rparr>))\<lparr>eflags := e\<rparr>"
    unfolding s'_def task_context_switch_def prod.case Let_def case_prod_beta fst_conv
    using m'(1) sp [of 20] by auto
  then have mem: "task_memory s' = m'" by (auto simp: save_stack_pointer_def split: saved_in.split)
  show "saved_pointer slot s' = esp c - 20"
    using s' assms(2) by (cases slot) (auto simp: saved_pointer_def save_stack_pointer_def task_at_def)
  show "load32 (task_memory s') (esp c - 20) = edi c" "load32 (task_memory s') (esp c - 16) = esi c"
    "load32 (task_memory s') (esp c - 12) = ebx c" "load32 (task_memory s') (esp c - 8) = ebp c"
    "load32 (task_memory s') (esp c - 4) = flags"
    using m'(2) [of 4] m'(2) [of 3] m'(2) [of 2] m'(2) [of 1] m'(2) [of 0] sp [of 20] sp [of 16] sp [of 12] sp [of 8] sp [of 4]
    by (simp_all add: mem)
  show "\<And>z. z < 4294967296 \<Longrightarrow> z < unat (esp c) - 20 \<or> unat (esp c) \<le> z \<Longrightarrow> task_memory s' (of_nat z) = task_memory s (of_nat z)"
    using m'(3) by (simp add: mem)
qed

text \<open>Entering a stack: the frame on it is taken off.\<close>

lemma switch_in:
  assumes "20 \<le> unat (esp c)" and y: "y + 24 \<le> 4294967296" and "y + 24 \<le> unat (esp c) - 20 \<or> unat (esp c) \<le> y"
  shows "snd (task_context_switch slot (of_nat y) flags (s, c)) =
      \<lparr>esp = of_nat (y + 24), ebp = load32 (task_memory s) (of_nat (y + 12)), ebx = load32 (task_memory s) (of_nat (y + 8)),
       esi = load32 (task_memory s) (of_nat (y + 4)), edi = load32 (task_memory s) (of_nat y),
       eip = load32 (task_memory s) (of_nat (y + 20))\<rparr>"
    and "eflags (fst (task_context_switch slot (of_nat y) flags (s, c))) = load32 (task_memory s) (of_nat (y + 16))"
proof -
  let ?x = "unat (esp c)" and ?vs = "[flags, ebp c, ebx c, esi c, edi c]"
  have x: "?x \<le> 4294967295" using unat_less_width(3) [of "esp c"] by simp
  obtain m' where m': "fold push32 ?vs (of_nat ?x, task_memory s) = (of_nat (?x - 4 * length ?vs), m')"
    "\<And>z. z < 4294967296 \<Longrightarrow> z < ?x - 4 * length ?vs \<or> ?x \<le> z \<Longrightarrow> m' (of_nat z) = task_memory s (of_nat z)"
    by (rule push_all [of ?vs ?x "task_memory s"]) (use assms(1) x in simp_all)
  have f: "snd (fold push32 ?vs (esp c, task_memory s)) = m'" using m'(1) by simp
  have ld: "load32 m' (of_nat (y + k)) = load32 (task_memory s) (of_nat (y + k))" if "k \<le> 20" for k
    by (rule load_cong) (use that y assms(3) m'(2) in auto)
  have ofs: "(of_nat y :: u32) + 4 = of_nat (y + 4)" "(of_nat (y + 4) :: u32) + 4 = of_nat (y + 8)" "(of_nat (y + 8) :: u32) + 4 = of_nat (y + 12)"
    "(of_nat (y + 12) :: u32) + 4 = of_nat (y + 16)" "(of_nat (y + 16) :: u32) + 4 = of_nat (y + 20)" "(of_nat (y + 20) :: u32) + 4 = of_nat (y + 24)"
    by simp_all
  note unfold = task_context_switch_def prod.case Let_def case_prod_beta fst_conv snd_conv pop32_def f ofs
    ld [of 0, simplified add_0_right] ld [of 4] ld [of 8] ld [of 12] ld [of 16] ld [of 20]
  show "snd (task_context_switch slot (of_nat y) flags (s, c)) =
      \<lparr>esp = of_nat (y + 24), ebp = load32 (task_memory s) (of_nat (y + 12)), ebx = load32 (task_memory s) (of_nat (y + 8)),
       esi = load32 (task_memory s) (of_nat (y + 4)), edi = load32 (task_memory s) (of_nat y),
       eip = load32 (task_memory s) (of_nat (y + 20))\<rparr>"
    by (simp only: unfold)
  show "eflags (fst (task_context_switch slot (of_nat y) flags (s, c))) = load32 (task_memory s) (of_nat (y + 16))"
    by (simp only: unfold) simp
qed

text \<open>The first frame of a task.\<close>

lemma stack_aligned: "stacks AND 0xF = 0 \<Longrightarrow> 16 dvd unat stacks + n * TASK_STACK_SIZE" for stacks :: u32
proof -
  assume "stacks AND 0xF = 0"
  moreover have "unat stacks mod 2 ^ 4 = unat (stacks AND 0xF)" unfolding mask_numerals(3) by (rule unat_and_mask [symmetric])
  ultimately have "16 dvd unat stacks" by (simp add: mod_eq_0_iff_dvd)
  then show ?thesis by simp
qed

lemma prepare_initial_stack_spec:
  assumes st: "stacks AND 0xF = 0" "unat stacks + TASK_MAX_TASKS * TASK_STACK_SIZE \<le> 4294967295"
    and k: "k < TASK_MAX_TASKS" and len: "length (tasks s) = TASK_MAX_TASKS"
  defines "b \<equiv> unat stacks + k * TASK_STACK_SIZE"
  obtains m where "prepare_initial_stack stacks xa ta (of_nat k) flags s =
      s\<lparr>task_memory := m, tasks := (tasks s)[k := (tasks s ! k)\<lparr>tcb_stack_pointer := of_nat (b + 16356)\<rparr>]\<rparr>"
    "load32 m (of_nat (b + 16356)) = 0" "load32 m (of_nat (b + 16360)) = 0" "load32 m (of_nat (b + 16364)) = 0"
    "load32 m (of_nat (b + 16368)) = 0" "load32 m (of_nat (b + 16372)) = initial_task_eflags flags"
    "load32 m (of_nat (b + 16376)) = ta" "load32 m (of_nat (b + 16380)) = xa"
    "\<And>z. z < 4294967296 \<Longrightarrow> z < b + 16356 \<or> b + 16384 \<le> z \<Longrightarrow> m (of_nat z) = task_memory s (of_nat z)"
proof -
  let ?x = "b + TASK_STACK_SIZE" and ?vs = "[xa, ta, initial_task_eflags flags, 0, 0, 0, 0]"
  have x: "?x \<le> 4294967295" "4 * length ?vs \<le> ?x" using st(2) k by (simp_all add: b_def)
  have al: "16 dvd ?x" using stack_aligned [OF st(1), of "k + 1"] by (simp add: b_def algebra_simps)
  have sum: "stacks + of_nat k * of_nat TASK_STACK_SIZE + of_nat TASK_STACK_SIZE = of_nat ?x" by (simp add: b_def)
  have "unat ((of_nat ?x :: u32) AND NOT 0xF) = ?x div 2 ^ 4 * 2 ^ 4"
    unfolding mask_numerals(3) unat_and_not_mask using x(1) by (simp only: unat_of_nat32)
  also have "\<dots> = ?x" using al by simp
  finally have top: "(of_nat ?x :: u32) AND NOT 0xF = of_nat ?x" using x(1) by (simp only: word_unat_eq_iff unat_of_nat32)
  obtain m' where m': "fold push32 ?vs (of_nat ?x, task_memory s) = (of_nat (?x - 4 * length ?vs), m')"
    "\<And>i. i < length ?vs \<Longrightarrow> load32 m' (of_nat (?x - 4 * (i + 1))) = ?vs ! i"
    "\<And>z. z < 4294967296 \<Longrightarrow> z < ?x - 4 * length ?vs \<or> ?x \<le> z \<Longrightarrow> m' (of_nat z) = task_memory s (of_nat z)"
    by (rule push_all [of ?vs ?x "task_memory s"]) (use x in simp_all)
  have u: "unat (of_nat k :: u32) = k" using k by (simp add: unat_of_nat32)
  have sp: "?x - 4 * length ?vs = b + 16356" by simp
  have "prepare_initial_stack stacks xa ta (of_nat k) flags s =
      s\<lparr>task_memory := m', tasks := (tasks s)[k := (tasks s ! k)\<lparr>tcb_stack_pointer := of_nat (b + 16356)\<rparr>]\<rparr>"
    by (simp only: prepare_initial_stack_def Let_def sum top m'(1) prod.case task_at_def u sp)
  moreover have l: "load32 m' (of_nat (b + (16380 - 4 * i))) = ?vs ! i" if "i < 7" for i
  proof -
    have "?x - 4 * (i + 1) = b + (16380 - 4 * i)" using that by simp
    then show ?thesis using m'(2) [of i] that by (simp del: of_nat_add)
  qed
  moreover have k': "m' (of_nat z) = task_memory s (of_nat z)" if "z < 4294967296" "z < b + 16356 \<or> b + 16384 \<le> z" for z
    using m'(3) [of z] that by auto
  ultimately show ?thesis
    using l [of 6] l [of 5] l [of 4] l [of 3] l [of 2] l [of 1] l [of 0] k'
    by (intro that [of m']) (simp_all del: of_nat_add)
qed

section \<open>Properties\<close>

text \<open>
  (C7) In every reachable scheduler exactly the current task is \<open>RUNNING\<close>, and only while the
  scheduler runs; every task that may run has an entry point, so the trampoline calls it; the count
  of finished tasks is exact. A yield therefore never stops the machine, an exit only outside a
  task, and neither leaves the reachable states.
\<close>

lemma task_states_consistent:
  assumes "sched_reach s"
  shows "(\<forall>k < TASK_MAX_TASKS. tcb_state (tasks s ! k) = TASK_STATE_RUNNING \<longleftrightarrow> scheduler_running s \<and> k = unat (task_current_id s)) \<and>
    (scheduler_running s \<longrightarrow> (\<exists>entry_point arg. task_trampoline s = Some (entry_point, arg) \<and> entry_point \<noteq> 0)) \<and>
    task_finished_count s = of_nat (card {k. k < TASK_MAX_TASKS \<and> tcb_state (tasks s ! k) = TASK_STATE_FINISHED}) \<and>
    task_yield s \<noteq> Stopped \<and> (task_exit s = Stopped \<longleftrightarrow> \<not> scheduler_running s)"
proof -
  have wf: "sched_wf s" using assms by (rule reach_wf)
  have cur: "task_current_id s = current_task_id s" "\<not> of_nat TASK_MAX_TASKS \<le> current_task_id s" if "scheduler_running s"
    using wf that by (simp_all add: sched_wf_def task_current_id_def word_le_nat_alt)
  have "\<forall>k < TASK_MAX_TASKS. tcb_state (tasks s ! k) = TASK_STATE_RUNNING \<longleftrightarrow> scheduler_running s \<and> k = unat (task_current_id s)"
    using wf cur by (cases "scheduler_running s") (auto simp: sched_wf_def only_running_def)
  moreover have "scheduler_running s \<longrightarrow> (\<exists>entry_point arg. task_trampoline s = Some (entry_point, arg) \<and> entry_point \<noteq> 0)"
    using wf cur by (auto simp: sched_wf_def sched_core_def only_running_def task_trampoline_def task_at_def Let_def)
  moreover have "task_finished_count s = of_nat (card {k. k < TASK_MAX_TASKS \<and> tcb_state (tasks s ! k) = TASK_STATE_FINISHED})"
    using wf by (simp add: sched_wf_def sched_core_def task_finished_count_def finished_tasks_def)
  moreover have "task_yield s \<noteq> Stopped \<and> (task_exit s = Stopped \<longleftrightarrow> \<not> scheduler_running s)"
  proof (cases "scheduler_running s")
    case True
    have "end_slice e s \<noteq> None" for e by (cases rule: end_slice_spec [OF wf True, of e]) simp_all
    from this [of "(False, c)" for c] this [of "(True, c)" for c] show ?thesis using True by (auto simp: end_slice_def)
  qed (simp add: not_running_slice [OF wf])
  ultimately show ?thesis by blast
qed

theorem task_states_consistent_witness:
  "tcb_state (tasks (task_system_init task_static) ! 3) \<noteq> TASK_STATE_RUNNING \<and> task_exit (task_system_init task_static) = Stopped"
proof -
  have "\<not> scheduler_running (task_system_init task_static)"
    by (simp add: task_system_init_def task_static_def interrupt_state_save_and_disable_def Let_def)
  then show ?thesis using task_states_consistent [OF reach_init [OF reach_static]] by simp
qed

text \<open>
  (C8) Fairness: whatever the tasks do at the end of their slices, a task that is \<open>READY\<close> while
  another one runs is dispatched before seven further slices have ended, if the budget allows them.
\<close>

lemma ready_task_dispatched:
  assumes "sched_wf s" "scheduler_running s" "k < TASK_MAX_TASKS" "tcb_state (tasks s ! k) = TASK_STATE_READY"
    and "length es = 7" "7 \<le> unat (remaining_dispatches s)"
  shows "\<exists>t \<in> set (run_slices es s). scheduler_running t \<and> unat (task_current_id t) = k"
proof -
  have "k \<noteq> unat (current_task_id s)" "unat (current_task_id s) < 8" using assms(1-4) by (auto simp: sched_wf_def only_running_def)
  then have "slots_between (unat (current_task_id s)) k < 7" using assms(3) by (simp add: slots_between(2))
  then obtain t where t: "t \<in> set (run_slices es s)" "scheduler_running t" "unat (current_task_id t) = k"
    using waiting_task_runs [OF assms(1-4), of es] assms(5,6) by auto
  moreover have "\<not> of_nat TASK_MAX_TASKS \<le> current_task_id t" using t(3) assms(3) by (simp add: word_le_nat_alt)
  ultimately show ?thesis by (auto simp: task_current_id_def)
qed

text \<open>A scheduler whose first task runs while the sixth waits.\<close>

definition two_tasks :: "scheduler" where
  "two_tasks = task_static\<lparr>tasks := (tasks task_static)
       [0 := \<lparr>tcb_state = TASK_STATE_RUNNING, tcb_entry = 0x1000, tcb_argument = 0, tcb_stack_pointer = 0x8000\<rparr>,
        5 := \<lparr>tcb_state = TASK_STATE_READY, tcb_entry = 0x2000, tcb_argument = 0, tcb_stack_pointer = 0xC000\<rparr>],
     current_task_id := 0, round_robin_cursor := 0, remaining_dispatches := 9, switch_count := 1, scheduler_initialized := True,
     scheduler_running := True\<rparr>"

lemma all_less_8: "(\<forall>k < 8. P k) \<longleftrightarrow> P 0 \<and> P 1 \<and> P 2 \<and> P 3 \<and> P 4 \<and> P 5 \<and> P 6 \<and> P 7" for P :: "nat \<Rightarrow> bool"
  by (simp add: numeral_eq_Suc All_less_Suc) blast

lemma two_tasks_states:
  "map tcb_state (tasks two_tasks) = [TASK_STATE_RUNNING, TASK_STATE_UNUSED, TASK_STATE_UNUSED, TASK_STATE_UNUSED, TASK_STATE_UNUSED,
     TASK_STATE_READY, TASK_STATE_UNUSED, TASK_STATE_UNUSED]"
  "map tcb_entry (tasks two_tasks) = [0x1000, 0, 0, 0, 0, 0x2000, 0, 0]"
  by (simp_all add: two_tasks_def task_static_def numeral_eq_Suc)

lemma two_tasks_wf: "sched_wf two_tasks"
proof -
  have len: "length (tasks two_tasks) = 8" using arg_cong [OF two_tasks_states(1), of length] by simp
  have st: "state_of two_tasks k = [TASK_STATE_RUNNING, TASK_STATE_UNUSED, TASK_STATE_UNUSED, TASK_STATE_UNUSED, TASK_STATE_UNUSED,
     TASK_STATE_READY, TASK_STATE_UNUSED, TASK_STATE_UNUSED] ! k"
    and en: "tcb_entry (tasks two_tasks ! k) = [0x1000, 0, 0, 0, 0, 0x2000, 0, 0] ! k" if "k < 8" for k
    using that len by (simp_all flip: two_tasks_states)
  have "finished_tasks two_tasks = {}"
    using st all_less_8 [of "\<lambda>k. state_of two_tasks k \<noteq> TASK_STATE_FINISHED"] by (auto simp: finished_tasks_def)
  then show ?thesis
    unfolding sched_wf_def sched_core_def only_running_def all_less_8
    by (simp add: st en len) (simp add: two_tasks_def task_static_def)
qed

theorem ready_task_dispatched_witness:
  "\<exists>t \<in> set (run_slices (replicate 7 (False, \<lparr>esp = 0x7000, ebp = 0, ebx = 0, esi = 0, edi = 0, eip = 0\<rparr>)) two_tasks).
     scheduler_running t \<and> unat (task_current_id t) = 5"
  by (rule ready_task_dispatched [OF two_tasks_wf]) (simp_all add: two_tasks_def task_static_def)

text \<open>
  (C9) A run ends and keeps its budget: from the switch into its first task, whatever the tasks do,
  the bootstrap stack is resumed before the slices exceed the budget, no state on the way has made
  more dispatches than the budget, and the result is true exactly when no task is \<open>READY\<close> any more;
  a false result means that the budget is used up. A run that does not start says why.
\<close>

lemma task_run_bounded:
  assumes "sched_wf s" "scheduler_initialized s" "\<not> scheduler_running s" and "length es = unat budget"
  shows "case task_run budget s of
      Returned r s' \<Rightarrow> s' = s \<and> (r \<longleftrightarrow> (\<forall>k < TASK_MAX_TASKS. tcb_state (tasks s ! k) \<noteq> TASK_STATE_READY)) \<and> (\<not> r \<longrightarrow> budget = 0)
    | Switch slot sp flags s1 \<Rightarrow> slot = Bootstrap_Slot \<and> flags = eflags s \<and>
        (let ss = run_slices es (fst (task_context_switch slot sp flags (s1, c))); t = last ss in
         ss \<noteq> [] \<and> length ss \<le> unat budget \<and> (\<forall>u \<in> set ss. unat (task_switch_count u - task_switch_count s) \<le> unat budget) \<and>
         \<not> scheduler_running t \<and> snd (task_run_resumed t) = t \<and>
         (fst (task_run_resumed t) \<longleftrightarrow> (\<forall>k < TASK_MAX_TASKS. tcb_state (tasks t ! k) \<noteq> TASK_STATE_READY)) \<and>
         (\<not> fst (task_run_resumed t) \<longrightarrow> task_switch_count t = task_switch_count s + budget))
    | Stopped \<Rightarrow> False"
proof (cases rule: task_run_cases [OF assms(1), of budget, case_names refused idle no_budget starts])
  case (starts s' n)
  let ?s = "fst (task_context_switch Bootstrap_Slot (tcb_stack_pointer (task_at s' n)) (eflags s) (s', c))"
  let ?ss = "run_slices es ?s"
  have w: "sched_wf ?s" "scheduler_running ?s" using starts(5,6) by (simp_all add: switch_wf)
  have b: "unat (remaining_dispatches ?s) + 1 = unat budget"
    using starts(3,9) by (simp add: unat_minus_one unat_eq_zero) (metis Suc_pred gr0I unat_eq_zero)
  have ends: "?ss \<noteq> [] \<and> \<not> scheduler_running (last ?ss) \<and> length ?ss \<le> unat budget"
    using run_comes_back [OF w, of es] b assms(4) by simp
  have step: "switch_count u + remaining_dispatches u = switch_count s + budget" "unat (remaining_dispatches u) \<le> unat budget"
    "\<not> scheduler_running u \<longrightarrow> remaining_dispatches u = 0 \<or> (\<forall>k < TASK_MAX_TASKS. state_of u k \<noteq> TASK_STATE_READY)" if "u \<in> set ?ss" for u
    using budget_kept [OF w that] starts(8,9) b by auto
  have "unat (switch_count u - switch_count s) \<le> unat budget" if "u \<in> set ?ss" for u
  proof -
    have "switch_count u - switch_count s = budget - remaining_dispatches u" using step(1) [OF that] by (simp add: algebra_simps)
    then show ?thesis using step(2) [OF that] by (simp add: unat_sub_no_wrap word_le_nat_alt)
  qed
  moreover have "last ?ss \<in> set ?ss" using ends by simp
  ultimately show ?thesis
    using ends step(1,3) [of "last ?ss"] by (auto simp: starts(4) Let_def task_run_resumed_eq task_switch_count_def)
qed (use assms in auto)

definition idle_tasks :: "scheduler" where
  "idle_tasks = (set_state 0 TASK_STATE_READY two_tasks)\<lparr>scheduler_running := False, current_task_id := TASK_INVALID_ID\<rparr>"

lemma idle_tasks_wf: "sched_wf idle_tasks"
proof -
  have "current_task_id two_tasks = 0" "scheduler_running two_tasks" by (simp_all add: two_tasks_def)
  then have "sched_core (set_state 0 TASK_STATE_READY two_tasks)" "only_running (set_state 0 TASK_STATE_READY two_tasks) None"
    using leave_state(1,2) [OF two_tasks_wf] by simp_all
  then show ?thesis by (simp add: idle_tasks_def sched_wf_def sched_core_def only_running_def finished_tasks_def)
qed

theorem task_run_bounded_witness:
  fixes c :: cpu
  defines "c \<equiv> \<lparr>esp = 0x7000, ebp = 0, ebx = 0, esi = 0, edi = 0, eip = 0\<rparr>"
  shows "case task_run 3 idle_tasks of
      Returned r s' \<Rightarrow> s' = idle_tasks \<and> r
    | Switch slot sp flags s1 \<Rightarrow> slot = Bootstrap_Slot \<and>
        (let ss = run_slices (replicate 3 (False, c)) (fst (task_context_switch slot sp flags (s1, c))) in
         ss \<noteq> [] \<and> length ss \<le> 3 \<and> \<not> scheduler_running (last ss))
    | Stopped \<Rightarrow> False"
proof -
  have "scheduler_initialized idle_tasks" "\<not> scheduler_running idle_tasks" by (simp_all add: idle_tasks_def two_tasks_def)
  from task_run_bounded [OF idle_tasks_wf this, of "replicate 3 (False, c)" 3 c] show ?thesis
    by (cases "task_run 3 idle_tasks") (simp_all add: Let_def)
qed

text \<open>
  (C10) A switch and the switch back are invisible to the code that called: when a stack that was
  left is entered again, with its frame and its saved pointer as they were left, every register the
  caller may rely on, its stack pointer, its return address and its flags are what they were,
  whatever other stacks and registers were in use in between.
\<close>

lemma context_switch_round_trip:
  assumes "20 \<le> unat (esp c)" "unat (esp c) + 4 \<le> 4294967295"
    and slot: "case slot of Bootstrap_Slot \<Rightarrow> True | Task_Slot tid \<Rightarrow> unat tid < length (tasks s)"
    and out: "task_context_switch slot other_sp flags (s, c) = (s', c')"
    and frame: "\<forall>z < unat (esp c) + 4. unat (esp c) - 20 \<le> z \<longrightarrow> task_memory t (of_nat z) = task_memory s' (of_nat z)"
    and kept: "saved_pointer slot t = saved_pointer slot s'"
    and other: "20 \<le> unat (esp d)" "unat (esp c) + 4 \<le> unat (esp d) - 20 \<or> unat (esp d) \<le> unat (esp c) - 20"
    and again: "task_context_switch slot' (saved_pointer slot t) flags' (t, d) = (t', d')"
  shows "d' = c\<lparr>esp := esp c + 4, eip := load32 (task_memory s) (esp c)\<rparr> \<and> eflags t' = flags"
proof -
  let ?x = "unat (esp c)" and ?y = "unat (esp c) - 20"
  have s': "s' = fst (task_context_switch slot other_sp flags (s, c))" using out by simp
  have tid: "\<And>tid. slot = Task_Slot tid \<Longrightarrow> unat tid < length (tasks s)" using slot by simp
  note left = switch_out [OF assms(1) tid s']
  have sp: "(of_nat (?y + k) :: u32) = esp c - (20 - of_nat k)" for k using assms(1) by (simp add: of_nat_diff)
  have ptr: "saved_pointer slot t = of_nat ?y" using kept left(1) sp [of 0] by simp
  have ld: "load32 (task_memory t) (of_nat (?y + k)) = load32 (task_memory s') (of_nat (?y + k))" if "k \<le> 20" for k
    by (rule load_cong) (use that assms(1,2) frame in auto)
  have ret: "load32 (task_memory s') (of_nat ?x) = load32 (task_memory s) (of_nat ?x)"
    by (rule load_cong) (use assms(1,2) left(7) in auto)
  have y: "?y + 24 \<le> 4294967296" "?y + 24 \<le> unat (esp d) - 20 \<or> unat (esp d) \<le> ?y" using assms(1,2) other by auto
  have d': "d' = snd (task_context_switch slot' (of_nat ?y) flags' (t, d))" and "t' = fst (task_context_switch slot' (of_nat ?y) flags' (t, d))"
    using again by (simp_all add: ptr)
  then have "eflags t' = load32 (task_memory t) (of_nat (?y + 16))" by (simp only: switch_in(2) [OF other(1) y])
  then have "eflags t' = flags" using left(6) ld [of 16] sp [of 16] by (simp del: of_nat_add)
  moreover have "d' = c\<lparr>esp := esp c + 4, eip := load32 (task_memory s) (esp c)\<rparr>"
    using d' left(2-5) ret ld [of 0] ld [of 4] ld [of 8] ld [of 12] ld [of 20]
      sp [of 0] sp [of 4] sp [of 8] sp [of 12] sp [of 20] sp [of 24]
    unfolding switch_in(1) [OF other(1) y] by (simp del: of_nat_add)
  ultimately show ?thesis by blast
qed

theorem context_switch_round_trip_witness:
  fixes c d :: cpu and s :: scheduler
  defines "c \<equiv> \<lparr>esp = 0x8000, ebp = 1, ebx = 2, esi = 3, edi = 4, eip = 5\<rparr>"
    and "d \<equiv> \<lparr>esp = 0xC000, ebp = 6, ebx = 7, esi = 8, edi = 9, eip = 10\<rparr>"
    and "s \<equiv> fst (task_context_switch (Task_Slot 0) 0xB000 0x202 (two_tasks, c))"
  shows "snd (task_context_switch (Task_Slot 5) (saved_pointer (Task_Slot 0) s) 2 (s, d)) =
    c\<lparr>esp := 0x8004, eip := load32 (task_memory two_tasks) 0x8000\<rparr>"
proof -
  have len: "length (tasks two_tasks) = 8" using arg_cong [OF two_tasks_states(1), of length] by simp
  have "snd (task_context_switch (Task_Slot 5) (saved_pointer (Task_Slot 0) s) 2 (s, d)) =
      c\<lparr>esp := esp c + 4, eip := load32 (task_memory two_tasks) (esp c)\<rparr> \<and>
    eflags (fst (task_context_switch (Task_Slot 5) (saved_pointer (Task_Slot 0) s) 2 (s, d))) = 0x202"
    by (rule context_switch_round_trip [where slot = "Task_Slot 0" and other_sp = "0xB000" and s = two_tasks and s' = s and t = s and d = d
          and c' = "snd (task_context_switch (Task_Slot 0) 0xB000 0x202 (two_tasks, c))"])
      (simp_all add: c_def d_def s_def len)
  then show ?thesis by (simp add: c_def)
qed

lemma initial_flags_bits:
  "n < 32 \<Longrightarrow> bit (initial_task_eflags f) n \<longleftrightarrow> n = 1 \<or> bit f n \<and> n \<notin> {8, 10, 14, 17}"
proof -
  assume n: "n < 32"
  have "bit (2 ^ k :: u32) n \<longleftrightarrow> n = k" for k using n by (auto simp: bit_exp_iff)
  from this [of 1] this [of 8] this [of 10] this [of 14] this [of 17]
  have "bit EFLAGS_RESERVED n \<longleftrightarrow> n = 1" "bit EFLAGS_TRAP n \<longleftrightarrow> n = 8" "bit EFLAGS_DIRECTION n \<longleftrightarrow> n = 10"
    "bit EFLAGS_NESTED_TASK n \<longleftrightarrow> n = 14" "bit EFLAGS_VIRTUAL_8086 n \<longleftrightarrow> n = 17"
    by simp_all
  then show ?thesis using n by (simp only: initial_task_eflags_def Let_def bit_and_iff bit_or_iff bit_not_iff) auto
qed

text \<open>The first switch to a stack prepared as \<open>prepare_initial_stack\<close> leaves it.\<close>

lemma first_entry:
  assumes m: "load32 m (of_nat y) = 0" "load32 m (of_nat (y + 4)) = 0" "load32 m (of_nat (y + 8)) = 0" "load32 m (of_nat (y + 12)) = 0"
      "load32 m (of_nat (y + 16)) = initial_task_eflags f" "load32 m (of_nat (y + 20)) = ta" "load32 m (of_nat (y + 24)) = xa"
    and y: "y + 28 \<le> 4294967295" "(y + 28) mod 16 = 0" and s': "task_memory s' = m"
    and c: "20 \<le> unat (esp c)" "unat (esp c) \<le> y \<or> y + 28 \<le> unat (esp c) - 20"
  shows "case task_context_switch slot (of_nat y) flags (s', c) of (t, d) \<Rightarrow>
    d = \<lparr>esp = of_nat (y + 24), ebp = 0, ebx = 0, esi = 0, edi = 0, eip = ta\<rparr> \<and> (unat (esp d) + 4) mod 16 = 0 \<and>
    load32 m (esp d) = xa \<and> (\<forall>n < 32. bit (eflags t) n \<longleftrightarrow> n = 1 \<or> bit f n \<and> n \<notin> {8, 10, 14, 17})"
proof -
  obtain t d where td: "task_context_switch slot (of_nat y) flags (s', c) = (t, d)" by fastforce
  have c': "y + 24 \<le> 4294967296" "y + 24 \<le> unat (esp c) - 20 \<or> unat (esp c) \<le> y" using y(1) c(2) by auto
  have d: "d = \<lparr>esp = of_nat (y + 24), ebp = 0, ebx = 0, esi = 0, edi = 0, eip = ta\<rparr>"
    using switch_in(1) [OF c(1) c', of slot flags s'] m s' td by (simp del: of_nat_add)
  have e: "eflags t = initial_task_eflags f" using switch_in(2) [OF c(1) c', of slot flags s'] m s' td by (simp del: of_nat_add)
  have "unat (esp d) = y + 24" using y(1) unat_of_nat32 [of "y + 24"] by (simp add: d del: of_nat_add)
  then have "(unat (esp d) + 4) mod 16 = 0" using y(2) by (simp add: add.commute)
  then show ?thesis using d e m(7) by (simp add: td initial_flags_bits del: of_nat_add)
qed

text \<open>
  (C18) \<open>task_create\<close> refuses, changing nothing, outside its conditions. Otherwise it makes the lowest
  unused slot \<open>READY\<close>, changes nothing else but the top 28 bytes of that slot's own stack, and the
  first switch to the new task enters the trampoline with clear registers, a stack aligned as a
  called function expects, \<open>task_exit\<close> as the return address and flags that keep the creator's
  interrupt flag and have trap, direction, nested-task and virtual-8086 clear.
\<close>

lemma task_create_exact:
  assumes wf: "sched_wf s" and stacks: "stacks AND 0xF = 0" "unat stacks + TASK_MAX_TASKS * TASK_STACK_SIZE \<le> 4294967295"
  shows "if \<not> scheduler_initialized s \<or> scheduler_running s \<or> entry_point = 0 \<or> (\<forall>k < TASK_MAX_TASKS. tcb_state (tasks s ! k) \<noteq> TASK_STATE_UNUSED)
    then task_create stacks xa ta entry_point arg s = (TASK_INVALID_ID, s)
    else \<exists>k m sp. k < TASK_MAX_TASKS \<and> tcb_state (tasks s ! k) = TASK_STATE_UNUSED \<and> (\<forall>j < k. tcb_state (tasks s ! j) \<noteq> TASK_STATE_UNUSED) \<and>
      task_create stacks xa ta entry_point arg s = (of_nat k, s\<lparr>task_memory := m, tasks := (tasks s)[k :=
        \<lparr>tcb_state = TASK_STATE_READY, tcb_entry = entry_point, tcb_argument = arg, tcb_stack_pointer = of_nat sp\<rparr>]\<rparr>) \<and>
      sp + 28 = unat stacks + (k + 1) * TASK_STACK_SIZE \<and>
      (\<forall>z < 4294967296. z < sp \<or> sp + 28 \<le> z \<longrightarrow> m (of_nat z) = task_memory s (of_nat z)) \<and>
      (\<forall>s' slot flags c. task_memory s' = m \<longrightarrow> 20 \<le> unat (esp c) \<longrightarrow> unat (esp c) \<le> sp \<or> sp + 28 \<le> unat (esp c) - 20 \<longrightarrow>
        (case task_context_switch slot (of_nat sp) flags (s', c) of (t, d) \<Rightarrow>
          d = \<lparr>esp = of_nat (sp + 24), ebp = 0, ebx = 0, esi = 0, edi = 0, eip = ta\<rparr> \<and> (unat (esp d) + 4) mod 16 = 0 \<and>
          load32 m (esp d) = xa \<and> (\<forall>n < 32. bit (eflags t) n \<longleftrightarrow> n = 1 \<or> bit (eflags s) n \<and> n \<notin> {8, 10, 14, 17})))"
proof (cases rule: task_create_cases [OF wf, of stacks xa ta entry_point arg, case_names refused made])
  case (made k)
  let ?before = "s\<lparr>eflags := eflags s AND NOT EFLAGS_INTERRUPT, tasks := (tasks s)[k := (tasks s ! k)\<lparr>tcb_entry := entry_point, tcb_argument := arg\<rparr>]\<rparr>"
  define b where "b = unat stacks + k * TASK_STACK_SIZE"
  have len: "length (tasks s) = TASK_MAX_TASKS" using wf by (simp add: sched_wf_def sched_core_def)
  have u: "unat (of_nat k :: u32) = k" using made(1) by (simp add: unat_of_nat32)
  obtain m where m: "prepare_initial_stack stacks xa ta (of_nat k) (eflags s) ?before =
      ?before\<lparr>task_memory := m, tasks := (tasks ?before)[k := (tasks ?before ! k)\<lparr>tcb_stack_pointer := of_nat (b + 16356)\<rparr>]\<rparr>"
    "load32 m (of_nat (b + 16356)) = 0" "load32 m (of_nat (b + 16360)) = 0" "load32 m (of_nat (b + 16364)) = 0"
    "load32 m (of_nat (b + 16368)) = 0" "load32 m (of_nat (b + 16372)) = initial_task_eflags (eflags s)"
    "load32 m (of_nat (b + 16376)) = ta" "load32 m (of_nat (b + 16380)) = xa"
    "\<And>z. z < 4294967296 \<Longrightarrow> z < b + 16356 \<or> b + 16384 \<le> z \<Longrightarrow> m (of_nat z) = task_memory ?before (of_nat z)"
    using prepare_initial_stack_spec [OF stacks made(1), of ?before xa ta "eflags s"] len unfolding b_def by auto
  define made_tasks where "made_tasks = (tasks s)[k :=
    \<lparr>tcb_state = TASK_STATE_READY, tcb_entry = entry_point, tcb_argument = arg, tcb_stack_pointer = of_nat (b + 16356)\<rparr>]"
  let ?after = "s\<lparr>task_memory := m, tasks := made_tasks\<rparr>"
  have "set_state (of_nat k) TASK_STATE_READY (prepare_initial_stack stacks xa ta (of_nat k) (eflags s) ?before) =
      ?after\<lparr>eflags := eflags ?after AND NOT EFLAGS_INTERRUPT\<rparr>"
    unfolding m(1) made_tasks_def using made(1) len
    by (cases "tasks s ! k", intro scheduler.equality) (simp_all add: set_state_def task_at_def u del: of_nat_add)
  then have made_eq: "task_create stacks xa ta entry_point arg s = (of_nat k, ?after)"
    using made(7) restore_saved [of ?after] by simp
  have al: "(b + 16384) mod 16 = 0"
    using stack_aligned [OF stacks(1), of "k + 1"] by (simp add: b_def algebra_simps mod_eq_0_iff_dvd)
  have "\<exists>m sp. task_create stacks xa ta entry_point arg s = (of_nat k, s\<lparr>task_memory := m, tasks := (tasks s)[k :=
        \<lparr>tcb_state = TASK_STATE_READY, tcb_entry = entry_point, tcb_argument = arg, tcb_stack_pointer = of_nat sp\<rparr>]\<rparr>) \<and>
      sp + 28 = unat stacks + (k + 1) * TASK_STACK_SIZE \<and>
      (\<forall>z < 4294967296. z < sp \<or> sp + 28 \<le> z \<longrightarrow> m (of_nat z) = task_memory s (of_nat z)) \<and>
      (\<forall>s' slot flags c. task_memory s' = m \<longrightarrow> 20 \<le> unat (esp c) \<longrightarrow> unat (esp c) \<le> sp \<or> sp + 28 \<le> unat (esp c) - 20 \<longrightarrow>
        (case task_context_switch slot (of_nat sp) flags (s', c) of (t, d) \<Rightarrow>
          d = \<lparr>esp = of_nat (sp + 24), ebp = 0, ebx = 0, esi = 0, edi = 0, eip = ta\<rparr> \<and> (unat (esp d) + 4) mod 16 = 0 \<and>
          load32 m (esp d) = xa \<and> (\<forall>n < 32. bit (eflags t) n \<longleftrightarrow> n = 1 \<or> bit (eflags s) n \<and> n \<notin> {8, 10, 14, 17})))"
  proof (intro exI [of _ m] exI [of _ "b + 16356"] conjI allI impI)
    show "b + 16356 + 28 = unat stacks + (k + 1) * TASK_STACK_SIZE" by (simp add: b_def)
    show "m (of_nat z) = task_memory s (of_nat z)" if "z < 4294967296" "z < b + 16356 \<or> b + 16356 + 28 \<le> z" for z
      using m(9) [of z] that by (simp add: add.commute)
    fix s' :: scheduler and slot flags and c :: cpu
    assume "task_memory s' = m" "20 \<le> unat (esp c)" "unat (esp c) \<le> b + 16356 \<or> b + 16356 + 28 \<le> unat (esp c) - 20"
    moreover have "b + 16356 + 28 \<le> 4294967295" using stacks(2) made(1) by (simp add: b_def)
    ultimately show "case task_context_switch slot (of_nat (b + 16356)) flags (s', c) of (t, d) \<Rightarrow>
          d = \<lparr>esp = of_nat (b + 16356 + 24), ebp = 0, ebx = 0, esi = 0, edi = 0, eip = ta\<rparr> \<and> (unat (esp d) + 4) mod 16 = 0 \<and>
          load32 m (esp d) = xa \<and> (\<forall>n < 32. bit (eflags t) n \<longleftrightarrow> n = 1 \<or> bit (eflags s) n \<and> n \<notin> {8, 10, 14, 17})"
      using m(2-8) al by (intro first_entry) (simp_all add: add.assoc del: of_nat_add)
  qed (use made_eq in \<open>simp add: made_tasks_def\<close>)
  moreover have neg: "\<not> (\<not> scheduler_initialized s \<or> scheduler_running s \<or> entry_point = 0 \<or> (\<forall>k < TASK_MAX_TASKS. state_of s k \<noteq> TASK_STATE_UNUSED))"
    using made(1,2,4-6) by blast
  ultimately show ?thesis using made(1-3) unfolding if_not_P [OF neg] by blast
qed simp

theorem task_create_exact_witness:
  "fst (task_create 0x100000 0x2000 0x3000 0x4000 7 (task_system_init task_static)) = 0 \<and>
   task_create 0x100000 0x2000 0x3000 0x4000 7 task_static = (TASK_INVALID_ID, task_static)"
proof -
  let ?s = "task_system_init task_static"
  have wf: "sched_wf ?s" by (rule task_init_wf [OF static_wf])
  have "tasks ?s = replicate TASK_MAX_TASKS unused_slot" by (rule task_system_init_tasks) (simp_all add: task_static_def)
  then have st: "state_of ?s 0 = TASK_STATE_UNUSED" "scheduler_initialized ?s" "\<not> scheduler_running ?s"
    by (simp_all add: task_system_init_def task_static_def interrupt_state_save_and_disable_def Let_def unused_slot_def)
  have "\<not> scheduler_initialized task_static" by (simp add: task_static_def)
  then have "task_create 0x100000 0x2000 0x3000 0x4000 7 task_static = (TASK_INVALID_ID, task_static)"
    using task_create_exact [OF static_wf, of "0x100000" "0x4000" "0x2000" "0x3000" 7] by simp
  moreover have "\<not> (\<not> scheduler_initialized ?s \<or> scheduler_running ?s \<or> (0x4000 :: u32) = 0 \<or> (\<forall>k < TASK_MAX_TASKS. state_of ?s k \<noteq> TASK_STATE_UNUSED))"
    using st by (auto intro!: exI [of _ 0])
  from task_create_exact [OF wf, of "0x100000" "0x4000" "0x2000" "0x3000" 7, unfolded if_not_P [OF this]]
  obtain k where "fst (task_create 0x100000 0x2000 0x3000 0x4000 7 ?s) = of_nat k" "\<forall>j < k. state_of ?s j \<noteq> TASK_STATE_UNUSED"
    by (elim exE conjE meta_impE) simp_all
  moreover from this(2) st(1) have "k = 0" by (cases k) auto
  ultimately show ?thesis by simp
qed

end
