(* ===== verification/Seq_Ring.thy ===== *)
theory Seq_Ring
  imports Kernel_Prelude
begin

text \<open>
  Bounded FIFO queues. The keyboard queue (\<open>kernel/arch/x86/keyboard.c\<close>) and the message
  queues (\<open>kernel/ipc/ipc.c\<close>) use the same device: an array of a power-of-two capacity indexed
  by two free-running 32-bit sequence numbers. \<open>seq_ring\<close> is that representation and its
  abstraction to a list; \<open>bounded_fifo\<close> is the contract a client of such a queue relies on.
\<close>

section \<open>Sequence-numbered rings\<close>

text \<open>The contents between the read and the write sequence number, oldest first.\<close>

definition ring_list :: "'a list \<Rightarrow> u32 \<Rightarrow> u32 \<Rightarrow> 'a list" where
  "ring_list arr r w = map (\<lambda>i. arr ! (unat (r + word_of_nat i) mod length arr)) [0..<unat (w - r)]"

lemma length_ring_list [simp]: "length (ring_list arr r w) = unat (w - r)"
  by (simp add: ring_list_def)

lemma ring_list_empty [simp]: "ring_list arr r r = []"
  by (simp add: ring_list_def)

locale seq_ring =
  fixes cap :: nat
  assumes cap_pos: "0 < cap" and cap_dvd: "cap dvd 2 ^ 32" and cap_small: "cap < 2 ^ 32"
begin

lemma slot_index: "unat (r + word_of_nat i :: u32) mod cap = (unat r + i) mod cap"
proof -
  have "unat (r + word_of_nat i :: u32) = (unat r + i) mod 2 ^ 32"
    by (simp add: unat_word_ariths unat_of_nat mod_add_right_eq)
  then show ?thesis
    using cap_dvd by (simp add: mod_mod_cancel)
qed

lemma slot_distinct:
  assumes "i < k" and "k < cap"
  shows "(n + i) mod cap \<noteq> (n + k) mod cap"
proof
  assume "(n + i) mod cap = (n + k) mod cap"
  then have "cap dvd (n + k) - (n + i)" using assms by (intro mod_eq_dvd_iff_nat [THEN iffD1]) auto
  then have "cap dvd k - i" by simp
  with assms show False by (auto dest!: dvd_imp_le)
qed

lemma unat_succ_diff:
  assumes "unat (w - r :: u32) < cap"
  shows "unat (w + 1 - r) = Suc (unat (w - r))"
proof -
  have "unat ((w - r) + 1) = unat (w - r) + 1"
    using assms cap_small by (simp add: unat_add_no_wrap)
  then show ?thesis by (simp add: algebra_simps)
qed

lemma unat_pred_diff: "r \<noteq> w \<Longrightarrow> unat (w - r :: u32) = Suc (unat (w - (r + 1)))"
  by (rule unat_diff_step)

lemma write_index: "unat w mod cap = (unat r + unat (w - r :: u32)) mod cap"
  using slot_index [of r "unat (w - r)"] by simp

lemma ring_push:
  assumes len: "length arr = cap" and room: "unat (w - r) < cap"
  shows "ring_list (arr[unat w mod cap := x]) r (w + 1) = ring_list arr r w @ [x]"
proof (rule nth_equalityI)
  show "length (ring_list (arr[unat w mod cap := x]) r (w + 1)) = length (ring_list arr r w @ [x])"
    by (simp add: unat_succ_diff [OF room])
  fix i assume "i < length (ring_list (arr[unat w mod cap := x]) r (w + 1))"
  then have i: "i < Suc (unat (w - r))" by (simp add: unat_succ_diff [OF room])
  then have lhs: "ring_list (arr[unat w mod cap := x]) r (w + 1) ! i =
      arr[unat w mod cap := x] ! ((unat r + i) mod cap)"
    by (simp add: ring_list_def unat_succ_diff [OF room] len slot_index nth_append less_Suc_eq del: upt_Suc)
  show "ring_list (arr[unat w mod cap := x]) r (w + 1) ! i = (ring_list arr r w @ [x]) ! i"
  proof (cases "i < unat (w - r)")
    case True
    then have "(unat r + i) mod cap \<noteq> unat w mod cap"
      unfolding write_index [of w r] using slot_distinct room by blast
    with True lhs show ?thesis
      by (simp add: nth_append ring_list_def len slot_index)
  next
    case False
    then have "i = unat (w - r)" using i by simp
    then show ?thesis
      using lhs write_index [of w r] cap_pos by (simp add: nth_append len)
  qed
qed

lemma ring_pop:
  assumes "length arr = cap" and "r \<noteq> w"
  shows "ring_list arr r w = arr ! (unat r mod cap) # ring_list arr (r + 1) w"
proof -
  have "ring_list arr r w = map (\<lambda>i. arr ! ((unat r + i) mod cap)) [0..<Suc (unat (w - (r + 1)))]"
    using assms unat_pred_diff [of r w] by (simp add: ring_list_def slot_index del: upt_Suc)
  also have "\<dots> = arr ! (unat r mod cap) # map (\<lambda>i. arr ! ((unat r + Suc i) mod cap)) [0..<unat (w - (r + 1))]"
    by (simp add: upt_conv_Cons map_Suc_upt [symmetric] o_def del: upt_Suc)
  also have "map (\<lambda>i. arr ! ((unat r + Suc i) mod cap)) [0..<unat (w - (r + 1))] = ring_list arr (r + 1) w"
    using slot_index [of r "Suc _"] assms(1) by (simp add: ring_list_def add.assoc)
  finally show ?thesis .
qed

end

section \<open>The FIFO contract\<close>

text \<open>
  A run of a queue's client: what each push carries is decided by the producer, pops happen
  whenever the consumer asks. The result lists the accepted items as they were stored and
  the delivered ones, both in order.
\<close>

datatype 'm fifo_op = Push 'm | Pop

fun fifo_run :: "('m \<Rightarrow> 'q \<Rightarrow> bool \<times> 'q) \<Rightarrow> ('q \<Rightarrow> ('a \<times> 'q) option) \<Rightarrow> ('m \<Rightarrow> 'a) \<Rightarrow>
    'm fifo_op list \<Rightarrow> 'q \<Rightarrow> 'a list \<times> 'a list \<times> 'q" where
  "fifo_run push pop stored [] q = ([], [], q)"
| "fifo_run push pop stored (Push m # ops) q =
     (let (ok, q1) = push m q; (ins, outs, q2) = fifo_run push pop stored ops q1
      in (if ok then stored m # ins else ins, outs, q2))"
| "fifo_run push pop stored (Pop # ops) q =
     (case pop q of None \<Rightarrow> fifo_run push pop stored ops q
      | Some (x, q1) \<Rightarrow> let (ins, outs, q2) = fifo_run push pop stored ops q1 in (ins, x # outs, q2))"

locale bounded_fifo =
  fixes inv :: "'q \<Rightarrow> bool"
    and contents :: "'q \<Rightarrow> 'a list"
    and capacity :: nat
    and accepts :: "'m \<Rightarrow> bool"
    and stored :: "'m \<Rightarrow> 'a"
    and push :: "'m \<Rightarrow> 'q \<Rightarrow> bool \<times> 'q"
    and pop :: "'q \<Rightarrow> ('a \<times> 'q) option"
  assumes bound: "inv q \<Longrightarrow> length (contents q) \<le> capacity"
    and push_inv: "inv q \<Longrightarrow> inv (snd (push m q))"
    and push_accepts: "inv q \<Longrightarrow> fst (push m q) \<longleftrightarrow> accepts m \<and> length (contents q) < capacity"
    and push_contents: "inv q \<Longrightarrow> contents (snd (push m q)) =
      (if fst (push m q) then contents q @ [stored m] else contents q)"
    and pop_empty: "inv q \<Longrightarrow> contents q = [] \<Longrightarrow> pop q = None"
    and pop_first: "inv q \<Longrightarrow> contents q = x # xs \<Longrightarrow>
      \<exists>q'. pop q = Some (x, q') \<and> contents q' = xs \<and> inv q'"
begin

lemma pop_cases:
  assumes "inv q"
  obtains "contents q = []" "pop q = None"
    | x q' where "pop q = Some (x, q')" "contents q = x # contents q'" "inv q'"
  using pop_empty [OF assms] pop_first [OF assms] by (cases "contents q") auto

text \<open>Nothing is lost, duplicated or reordered: the accepted items are the delivered ones followed
  by what is still queued.\<close>

lemma fifo_run_order:
  assumes "inv q" and "fifo_run push pop stored ops q = (ins, outs, q')"
  shows "inv q' \<and> contents q @ ins = outs @ contents q'"
  using assms
proof (induction ops arbitrary: q ins outs q')
  case Nil
  then show ?case by simp
next
  case (Cons op ops)
  show ?case
  proof (cases op)
    case (Push m)
    obtain ok q1 where p: "push m q = (ok, q1)" by fastforce
    obtain ins1 outs1 q2 where r: "fifo_run push pop stored ops q1 = (ins1, outs1, q2)"
      by (metis prod_cases3)
    have "inv q1" "contents q1 = (if ok then contents q @ [stored m] else contents q)"
      using push_inv [OF Cons.prems(1), of m] push_contents [OF Cons.prems(1), of m] p by simp_all
    with Cons.IH [OF _ r] Cons.prems(2) Push p r show ?thesis by (auto split: if_splits)
  next
    case Pop
    from Cons.prems(1) show ?thesis
    proof (cases rule: pop_cases)
      case 1
      with Cons.IH [OF Cons.prems(1), of ins outs q'] Cons.prems(2) Pop show ?thesis by simp
    next
      case (2 x q1)
      obtain ins1 outs1 q2 where r: "fifo_run push pop stored ops q1 = (ins1, outs1, q2)"
        by (metis prod_cases3)
      with 2 Cons.IH [OF 2(3) r] Cons.prems(2) Pop show ?thesis by auto
    qed
  qed
qed

end

end
