(* ===== verification/Ipc.thy ===== *)
theory Ipc
  imports Seq_Ring
begin

text \<open>
  Message passing, \<open>kernel/ipc/ipc.c\<close>: eight endpoints, each a bounded FIFO of copied
  messages over free-running sequence numbers.
\<close>

section \<open>State and operations\<close>

abbreviation IPC_MAX_ENDPOINTS :: nat where "IPC_MAX_ENDPOINTS \<equiv> 8"
abbreviation IPC_QUEUE_DEPTH :: nat where "IPC_QUEUE_DEPTH \<equiv> 8"
abbreviation IPC_PAYLOAD_MAX :: nat where "IPC_PAYLOAD_MAX \<equiv> 32"
abbreviation IPC_INVALID_ENDPOINT :: u32 where "IPC_INVALID_ENDPOINT \<equiv> - 1"

record ipc_message =
  msg_sender :: u32
  msg_type :: u32
  msg_length :: u32
  msg_payload :: "u8 list"

record ipc_endpoint_state =
  ep_allocated :: bool
  ep_read_sequence :: u32
  ep_write_sequence :: u32
  ep_rejected_messages :: u32
  ep_queue :: "ipc_message list"

type_synonym ipc_state = "ipc_endpoint_state list"

definition message_clear :: "ipc_message \<Rightarrow> ipc_message" where
  "message_clear m = m\<lparr>msg_sender := 0, msg_type := 0, msg_length := 0,
     msg_payload := fold (\<lambda>index p. p[index := 0]) [0..<IPC_PAYLOAD_MAX] (msg_payload m)\<rparr>"

definition endpoint_is_valid :: "u32 \<Rightarrow> ipc_state \<Rightarrow> bool" where
  "endpoint_is_valid endpoint eps \<longleftrightarrow>
     unat endpoint < IPC_MAX_ENDPOINTS \<and> ep_allocated (eps ! unat endpoint)"

definition endpoint_reset :: "ipc_endpoint_state \<Rightarrow> ipc_endpoint_state" where
  "endpoint_reset e = e\<lparr>ep_allocated := False, ep_read_sequence := 0, ep_write_sequence := 0,
     ep_rejected_messages := 0,
     ep_queue := fold (\<lambda>slot q. q[slot := message_clear (q ! slot)]) [0..<IPC_QUEUE_DEPTH] (ep_queue e)\<rparr>"

definition ipc_init :: "ipc_state \<Rightarrow> ipc_state" where
  "ipc_init eps =
     fold (\<lambda>endpoint eps. eps[endpoint := endpoint_reset (eps ! endpoint)]) [0..<IPC_MAX_ENDPOINTS] eps"

text \<open>The search loop of \<open>ipc_endpoint_create\<close> from endpoint \<open>i\<close> on.\<close>

function endpoint_scan :: "nat \<Rightarrow> ipc_state \<Rightarrow> u32 \<times> ipc_state" where
  "endpoint_scan i eps =
     (if i < IPC_MAX_ENDPOINTS then
        (if ep_allocated (eps ! i) then endpoint_scan (Suc i) eps
         else (of_nat i, eps[i := (eps ! i)\<lparr>ep_allocated := True, ep_read_sequence := 0,
                 ep_write_sequence := 0, ep_rejected_messages := 0\<rparr>]))
      else (IPC_INVALID_ENDPOINT, eps))"
  by pat_completeness auto
termination
  by (relation "measure (\<lambda>(i, eps). IPC_MAX_ENDPOINTS - i)") auto

declare endpoint_scan.simps [simp del]

definition ipc_endpoint_create :: "ipc_state \<Rightarrow> u32 \<times> ipc_state" where
  "ipc_endpoint_create eps = endpoint_scan 0 eps"

text \<open>
  A null message pointer is \<open>None\<close>. The copy loop of \<open>ipc_send\<close> writes every payload byte of the
  destination slot; the ones past the message's length are zero.
\<close>

definition ipc_copy_in :: "ipc_message \<Rightarrow> ipc_message \<Rightarrow> ipc_message" where
  "ipc_copy_in message destination = destination\<lparr>msg_sender := msg_sender message,
     msg_type := msg_type message, msg_length := msg_length message,
     msg_payload := fold (\<lambda>index p. p[index :=
         if of_nat index < msg_length message then msg_payload message ! index else 0])
       [0..<IPC_PAYLOAD_MAX] (msg_payload destination)\<rparr>"

definition ipc_send :: "u32 \<Rightarrow> ipc_message option \<Rightarrow> ipc_state \<Rightarrow> bool \<times> ipc_state" where
  "ipc_send endpoint message eps =
     (if \<not> endpoint_is_valid endpoint eps then (False, eps)
      else case message of
        None \<Rightarrow> (False, eps)
      | Some message \<Rightarrow>
          if msg_length message > of_nat IPC_PAYLOAD_MAX then (False, eps)
          else
            let state = eps ! unat endpoint in
            if ep_write_sequence state - ep_read_sequence state \<ge> of_nat IPC_QUEUE_DEPTH then
              (False, eps[unat endpoint := state\<lparr>ep_rejected_messages := ep_rejected_messages state + 1\<rparr>])
            else
              let slot = unat (ep_write_sequence state mod of_nat IPC_QUEUE_DEPTH) in
              (True, eps[unat endpoint := state\<lparr>
                 ep_queue := (ep_queue state)[slot := ipc_copy_in message (ep_queue state ! slot)],
                 ep_write_sequence := ep_write_sequence state + 1\<rparr>]))"

text \<open>
  \<open>ipc_receive\<close> writes every field of the caller's message; its old contents do not matter.
  The result is the message written, \<open>None\<close> when the call returns false and leaves the
  caller's buffer alone. \<open>buffer\<close> is whether the caller's pointer is non-null.
\<close>

definition ipc_receive :: "u32 \<Rightarrow> bool \<Rightarrow> ipc_state \<Rightarrow> ipc_message option \<times> ipc_state" where
  "ipc_receive endpoint buffer eps =
     (if \<not> endpoint_is_valid endpoint eps \<or> \<not> buffer then (None, eps)
      else
        let state = eps ! unat endpoint in
        if ep_read_sequence state = ep_write_sequence state then (None, eps)
        else
          let source = ep_queue state ! unat (ep_read_sequence state mod of_nat IPC_QUEUE_DEPTH);
              message = \<lparr>msg_sender = msg_sender source, msg_type = msg_type source,
                msg_length = msg_length source,
                msg_payload = map (\<lambda>index. msg_payload source ! index) [0..<IPC_PAYLOAD_MAX]\<rparr> in
          (Some message, eps[unat endpoint := state\<lparr>ep_read_sequence := ep_read_sequence state + 1\<rparr>]))"

definition ipc_pending :: "u32 \<Rightarrow> ipc_state \<Rightarrow> u32" where
  "ipc_pending endpoint eps =
     (if \<not> endpoint_is_valid endpoint eps then 0
      else ep_write_sequence (eps ! unat endpoint) - ep_read_sequence (eps ! unat endpoint))"

definition ipc_rejected_count :: "u32 \<Rightarrow> ipc_state \<Rightarrow> u32" where
  "ipc_rejected_count endpoint eps =
     (if \<not> endpoint_is_valid endpoint eps then 0 else ep_rejected_messages (eps ! unat endpoint))"

section \<open>Invariant and abstraction\<close>

definition msg_wf :: "ipc_message \<Rightarrow> bool" where
  "msg_wf m \<longleftrightarrow> length (msg_payload m) = IPC_PAYLOAD_MAX"

definition ep_wf :: "ipc_endpoint_state \<Rightarrow> bool" where
  "ep_wf e \<longleftrightarrow> length (ep_queue e) = IPC_QUEUE_DEPTH \<and> (\<forall>m \<in> set (ep_queue e). msg_wf m) \<and>
     unat (ep_write_sequence e - ep_read_sequence e) \<le> IPC_QUEUE_DEPTH"

definition ipc_wf :: "ipc_state \<Rightarrow> bool" where
  "ipc_wf eps \<longleftrightarrow> length eps = IPC_MAX_ENDPOINTS \<and> (\<forall>e \<in> set eps. ep_wf e)"

definition ep_contents :: "ipc_endpoint_state \<Rightarrow> ipc_message list" where
  "ep_contents e = ring_list (ep_queue e) (ep_read_sequence e) (ep_write_sequence e)"

text \<open>The deep copy a receiver gets: the payload is cut at the length and zero-filled.\<close>

definition msg_stored :: "ipc_message \<Rightarrow> ipc_message" where
  "msg_stored m = m\<lparr>msg_payload :=
     map (\<lambda>i. if i < unat (msg_length m) then msg_payload m ! i else 0) [0..<IPC_PAYLOAD_MAX]\<rparr>"

interpretation ipc_ring: seq_ring IPC_QUEUE_DEPTH
  by unfold_locales simp_all

subsection \<open>Copying\<close>

lemma word_less_length: "i < 32 \<Longrightarrow> (of_nat i :: u32) < n \<longleftrightarrow> i < unat n"
  by (simp add: word_less_nat_alt unat_word_of_nat_small)

lemma ipc_copy_in_stored: "msg_wf d \<Longrightarrow> ipc_copy_in m d = msg_stored m"
  by (simp add: ipc_copy_in_def msg_stored_def msg_wf_def fold_fill_upt word_less_length cong: map_cong)

lemma msg_wf_stored [simp]: "msg_wf (msg_stored m)"
  by (simp add: msg_wf_def msg_stored_def)

lemma msg_copy_out:
  "msg_wf m \<Longrightarrow> \<lparr>msg_sender = msg_sender m, msg_type = msg_type m, msg_length = msg_length m,
     msg_payload = map (\<lambda>index. msg_payload m ! index) [0..<IPC_PAYLOAD_MAX]\<rparr> = m"
  using map_nth [of "msg_payload m"] by (simp add: msg_wf_def)

lemma msg_wf_clear: "msg_wf m \<Longrightarrow> msg_wf (message_clear m)"
  by (simp add: msg_wf_def message_clear_def fold_fill_upt)

lemma slot_eq: "unat (w mod of_nat IPC_QUEUE_DEPTH :: u32) = unat w mod IPC_QUEUE_DEPTH"
  by (simp add: unat_mod)

subsection \<open>One endpoint\<close>

lemma ep_wf_nth: "ipc_wf eps \<Longrightarrow> endpoint_is_valid ep eps \<Longrightarrow> ep_wf (eps ! unat ep)"
  by (simp add: ipc_wf_def endpoint_is_valid_def)

lemma ipc_wf_update: "ipc_wf eps \<Longrightarrow> ep_wf e \<Longrightarrow> ipc_wf (eps[i := e])"
  by (auto simp: ipc_wf_def dest!: set_update_subset_insert [THEN subsetD])

lemma ep_full_iff: "ep_wf e \<Longrightarrow> of_nat IPC_QUEUE_DEPTH \<le> ep_write_sequence e - ep_read_sequence e \<longleftrightarrow>
    length (ep_contents e) = IPC_QUEUE_DEPTH"
  by (auto simp: ep_wf_def ep_contents_def word_le_nat_alt)

lemma ep_push_wf:
  assumes wf: "ep_wf e" and room: "length (ep_contents e) < IPC_QUEUE_DEPTH" and m: "msg_wf m"
  defines "e' \<equiv> e\<lparr>ep_queue := (ep_queue e)[unat (ep_write_sequence e) mod IPC_QUEUE_DEPTH := m],
      ep_write_sequence := ep_write_sequence e + 1\<rparr>"
  shows "ep_wf e'" and "ep_contents e' = ep_contents e @ [m]"
proof -
  have len: "length (ep_queue e) = IPC_QUEUE_DEPTH"
    and r: "unat (ep_write_sequence e - ep_read_sequence e) < IPC_QUEUE_DEPTH"
    using wf room by (simp_all add: ep_wf_def ep_contents_def)
  show "ep_contents e' = ep_contents e @ [m]"
    using ipc_ring.ring_push [OF len r] by (simp add: e'_def ep_contents_def)
  show "ep_wf e'"
    using wf m len r ipc_ring.unat_succ_diff [OF r]
    by (auto simp: e'_def ep_wf_def dest!: set_update_subset_insert [THEN subsetD])
qed

lemma ep_pop_wf:
  assumes wf: "ep_wf e" and ne: "ep_read_sequence e \<noteq> ep_write_sequence e"
  defines "e' \<equiv> e\<lparr>ep_read_sequence := ep_read_sequence e + 1\<rparr>"
  shows "ep_wf e'" and "msg_wf (ep_queue e ! (unat (ep_read_sequence e) mod IPC_QUEUE_DEPTH))"
    and "ep_contents e = ep_queue e ! (unat (ep_read_sequence e) mod IPC_QUEUE_DEPTH) # ep_contents e'"
proof -
  have len: "length (ep_queue e) = IPC_QUEUE_DEPTH" using wf by (simp add: ep_wf_def)
  show "ep_contents e = ep_queue e ! (unat (ep_read_sequence e) mod IPC_QUEUE_DEPTH) # ep_contents e'"
    using ipc_ring.ring_pop [OF len ne] by (simp add: ep_contents_def e'_def)
  show "ep_wf e'"
    using wf ipc_ring.unat_pred_diff [OF ne] by (simp add: e'_def ep_wf_def)
  show "msg_wf (ep_queue e ! (unat (ep_read_sequence e) mod IPC_QUEUE_DEPTH))"
    using wf len by (auto simp: ep_wf_def)
qed

lemma ep_empty_iff: "ep_read_sequence e = ep_write_sequence e \<longleftrightarrow> ep_contents e = []"
  by (auto simp: ep_contents_def unat_eq_zero simp flip: length_0_conv)

subsection \<open>Sending and receiving\<close>

lemma ipc_send_ok:
  assumes "ipc_wf eps" and "endpoint_is_valid ep eps" and "msg_length m \<le> of_nat IPC_PAYLOAD_MAX"
    and "length (ep_contents (eps ! unat ep)) < IPC_QUEUE_DEPTH"
  obtains e' where "ipc_send ep (Some m) eps = (True, eps[unat ep := e'])"
    and "ep_wf e'" and "ep_allocated e'" and "ep_rejected_messages e' = ep_rejected_messages (eps ! unat ep)"
    and "ep_contents e' = ep_contents (eps ! unat ep) @ [msg_stored m]"
proof -
  let ?e = "eps ! unat ep"
  note wf = ep_wf_nth [OF assms(1,2)]
  note push = ep_push_wf [OF wf assms(4) msg_wf_stored, of m]
  have "msg_wf (ep_queue ?e ! (unat (ep_write_sequence ?e) mod IPC_QUEUE_DEPTH))"
    using wf by (auto simp: ep_wf_def)
  moreover have "\<not> of_nat IPC_QUEUE_DEPTH \<le> ep_write_sequence ?e - ep_read_sequence ?e"
    unfolding ep_full_iff [OF wf] using assms(4) by simp
  moreover have "ep_allocated ?e" using assms(2) by (simp add: endpoint_is_valid_def)
  ultimately show ?thesis
    using assms(2,3) push unfolding slot_eq [symmetric]
    by (intro that) (auto simp: ipc_send_def Let_def ipc_copy_in_stored slot_eq not_less)
qed

lemma ipc_send_full:
  assumes "ipc_wf eps" and "endpoint_is_valid ep eps" and "msg_length m \<le> of_nat IPC_PAYLOAD_MAX"
    and "length (ep_contents (eps ! unat ep)) = IPC_QUEUE_DEPTH"
  shows "ipc_send ep (Some m) eps = (False, eps[unat ep := (eps ! unat ep)
    \<lparr>ep_rejected_messages := ep_rejected_messages (eps ! unat ep) + 1\<rparr>])"
  using assms ep_full_iff [OF ep_wf_nth [OF assms(1,2)]] by (simp add: ipc_send_def Let_def leD)

lemma ipc_send_null: "ipc_send ep None eps = (False, eps)"
  by (simp add: ipc_send_def)

lemma ipc_send_refused:
  assumes "\<not> endpoint_is_valid ep eps \<or> of_nat IPC_PAYLOAD_MAX < msg_length m"
  shows "ipc_send ep (Some m) eps = (False, eps)"
  using assms by (auto simp: ipc_send_def)

lemma ipc_receive_ok:
  assumes "ipc_wf eps" and "endpoint_is_valid ep eps" and "ep_contents (eps ! unat ep) \<noteq> []"
  obtains e' where "ipc_receive ep True eps = (Some (hd (ep_contents (eps ! unat ep))), eps[unat ep := e'])"
    and "ep_wf e'" and "ep_allocated e'" and "ep_rejected_messages e' = ep_rejected_messages (eps ! unat ep)"
    and "ep_contents e' = tl (ep_contents (eps ! unat ep))"
proof -
  let ?e = "eps ! unat ep"
  note wf = ep_wf_nth [OF assms(1,2)]
  have ne: "ep_read_sequence ?e \<noteq> ep_write_sequence ?e" using assms(3) ep_empty_iff by blast
  note pop = ep_pop_wf [OF wf ne]
  have "ep_allocated ?e" using assms(2) by (simp add: endpoint_is_valid_def)
  then show ?thesis
    using assms(2) ne pop(1) msg_copy_out [OF pop(2)]
    by (intro that [of "?e\<lparr>ep_read_sequence := ep_read_sequence ?e + 1\<rparr>"])
      (simp_all add: ipc_receive_def Let_def unat_mod pop(3))
qed

lemma ipc_receive_none:
  assumes "\<not> endpoint_is_valid ep eps \<or> \<not> buffer \<or> ep_contents (eps ! unat ep) = []"
  shows "ipc_receive ep buffer eps = (None, eps)"
  using assms by (auto simp: ipc_receive_def Let_def ep_empty_iff)

lemma valid_update:
  "ep_allocated e \<Longrightarrow> endpoint_is_valid ep eps \<Longrightarrow> length eps = IPC_MAX_ENDPOINTS \<Longrightarrow>
   endpoint_is_valid ep (eps[unat ep := e])"
  by (simp add: endpoint_is_valid_def)

lemma nth_endpoint_update:
  "ipc_wf eps \<Longrightarrow> endpoint_is_valid ep eps \<Longrightarrow> eps[unat ep := e] ! unat ep = e"
  by (simp add: ipc_wf_def endpoint_is_valid_def)

lemma ep_wf_rejected: "ep_wf (e\<lparr>ep_rejected_messages := n\<rparr>) = ep_wf e"
  "ep_contents (e\<lparr>ep_rejected_messages := n\<rparr>) = ep_contents e"
  by (simp_all add: ep_wf_def ep_contents_def)

text \<open>The view of one endpoint as a queue, for the FIFO contract.\<close>

definition ipc_pop :: "u32 \<Rightarrow> ipc_state \<Rightarrow> (ipc_message \<times> ipc_state) option" where
  "ipc_pop ep eps = (case ipc_receive ep True eps of (None, _) \<Rightarrow> None | (Some m, eps') \<Rightarrow> Some (m, eps'))"

lemma ipc_send_wf: "ipc_wf eps \<Longrightarrow> ipc_wf (snd (ipc_send ep m eps))"
proof -
  assume wf: "ipc_wf eps"
  consider "m = None" | x where "m = Some x" "\<not> endpoint_is_valid ep eps \<or> of_nat IPC_PAYLOAD_MAX < msg_length x"
    | x where "m = Some x" "endpoint_is_valid ep eps" "msg_length x \<le> of_nat IPC_PAYLOAD_MAX"
    by (cases m) (auto simp: not_less [symmetric])
  then show ?thesis
  proof cases
    case 1
    with wf show ?thesis by (simp add: ipc_send_def)
  next
    case 2
    with wf show ?thesis by (simp add: ipc_send_refused)
  next
    case (3 x)
    note epwf = ep_wf_nth [OF wf 3(2)]
    show ?thesis
    proof (cases "length (ep_contents (eps ! unat ep)) = IPC_QUEUE_DEPTH")
      case True
      with 3 wf epwf show ?thesis by (simp add: ipc_send_full ipc_wf_update ep_wf_rejected)
    next
      case False
      then have "length (ep_contents (eps ! unat ep)) < IPC_QUEUE_DEPTH"
        using epwf by (simp add: ep_wf_def ep_contents_def)
      from ipc_send_ok [OF wf 3(2,3) this] obtain e' where
        "ipc_send ep (Some x) eps = (True, eps[unat ep := e'])" "ep_wf e'" .
      with 3 wf show ?thesis by (simp add: ipc_wf_update)
    qed
  qed
qed

interpretation ipc_fifo: bounded_fifo "\<lambda>eps. ipc_wf eps \<and> endpoint_is_valid ep eps"
  "\<lambda>eps. ep_contents (eps ! unat ep)" IPC_QUEUE_DEPTH "\<lambda>m. msg_length m \<le> of_nat IPC_PAYLOAD_MAX"
  msg_stored "\<lambda>m. ipc_send ep (Some m)" "ipc_pop ep" for ep
proof
  fix eps :: ipc_state and m x :: ipc_message and xs
  assume inv: "ipc_wf eps \<and> endpoint_is_valid ep eps"
  let ?c = "ep_contents (eps ! unat ep)"
  have len: "length eps = IPC_MAX_ENDPOINTS" using inv by (simp add: ipc_wf_def)
  show bound: "length ?c \<le> IPC_QUEUE_DEPTH"
    using ep_wf_nth inv by (auto simp: ep_wf_def ep_contents_def)
  consider "of_nat IPC_PAYLOAD_MAX < msg_length m"
    | "msg_length m \<le> of_nat IPC_PAYLOAD_MAX" "length ?c = IPC_QUEUE_DEPTH"
    | "msg_length m \<le> of_nat IPC_PAYLOAD_MAX" "length ?c < IPC_QUEUE_DEPTH"
    using bound by fastforce
  then have "(ipc_wf (snd (ipc_send ep (Some m) eps)) \<and> endpoint_is_valid ep (snd (ipc_send ep (Some m) eps))) \<and>
    fst (ipc_send ep (Some m) eps) = (msg_length m \<le> of_nat IPC_PAYLOAD_MAX \<and> length ?c < IPC_QUEUE_DEPTH) \<and>
    ep_contents (snd (ipc_send ep (Some m) eps) ! unat ep) =
      (if fst (ipc_send ep (Some m) eps) then ?c @ [msg_stored m] else ?c)"
  proof cases
    case 1
    with inv show ?thesis by (auto simp: ipc_send_refused)
  next
    case 2
    have "ep_allocated (eps ! unat ep)" using inv by (simp add: endpoint_is_valid_def)
    with 2 inv len ipc_send_wf [of eps ep "Some m"] show ?thesis
      by (simp add: ipc_send_full nth_endpoint_update valid_update ep_wf_rejected)
  next
    case 3
    from ipc_send_ok [OF conjunct1 [OF inv] conjunct2 [OF inv] 3] obtain e' where
      "ipc_send ep (Some m) eps = (True, eps[unat ep := e'])" "ep_wf e'" "ep_allocated e'"
      "ep_contents e' = ?c @ [msg_stored m]" .
    with 3 inv len show ?thesis by (simp add: ipc_wf_update valid_update nth_endpoint_update)
  qed
  then show "ipc_wf (snd (ipc_send ep (Some m) eps)) \<and> endpoint_is_valid ep (snd (ipc_send ep (Some m) eps))"
    and "fst (ipc_send ep (Some m) eps) \<longleftrightarrow> msg_length m \<le> of_nat IPC_PAYLOAD_MAX \<and> length ?c < IPC_QUEUE_DEPTH"
    and "ep_contents (snd (ipc_send ep (Some m) eps) ! unat ep) =
      (if fst (ipc_send ep (Some m) eps) then ?c @ [msg_stored m] else ?c)"
    by simp_all
  show "ipc_pop ep eps = None" if "?c = []"
    using that by (simp add: ipc_pop_def ipc_receive_none)
  show "\<exists>eps'. ipc_pop ep eps = Some (x, eps') \<and> ep_contents (eps' ! unat ep) = xs \<and>
      ipc_wf eps' \<and> endpoint_is_valid ep eps'" if c: "?c = x # xs"
  proof -
    obtain e' where "ipc_receive ep True eps = (Some x, eps[unat ep := e'])" "ep_wf e'" "ep_allocated e'"
      "ep_contents e' = xs"
      using ipc_receive_ok [of eps ep] inv c by (metis list.distinct(1) list.sel(1,3))
    with inv len show ?thesis
      by (simp add: ipc_pop_def ipc_wf_update valid_update nth_endpoint_update)
  qed
qed

subsection \<open>Isolation of the endpoints\<close>

lemma ipc_send_other: "i \<noteq> unat ep \<Longrightarrow> snd (ipc_send ep m eps) ! i = eps ! i"
  by (auto simp: ipc_send_def Let_def split: option.splits)

lemma ipc_receive_other: "i \<noteq> unat ep \<Longrightarrow> snd (ipc_receive ep b eps) ! i = eps ! i"
  by (auto simp: ipc_receive_def Let_def)

lemma ipc_receive_wf: "ipc_wf eps \<Longrightarrow> ipc_wf (snd (ipc_receive ep b eps))"
proof (cases "endpoint_is_valid ep eps \<and> b \<and> ep_contents (eps ! unat ep) \<noteq> []")
  case True
  assume wf: "ipc_wf eps"
  from True ipc_receive_ok [OF wf, of ep] obtain e' where
    "ipc_receive ep True eps = (Some (hd (ep_contents (eps ! unat ep))), eps[unat ep := e'])" "ep_wf e'"
    by metis
  with True wf show ?thesis by (simp add: ipc_wf_update)
qed (auto simp: ipc_receive_none)

lemma endpoint_scan_spec:
  "endpoint_scan i eps =
     (case find (\<lambda>k. \<not> ep_allocated (eps ! k)) [i..<IPC_MAX_ENDPOINTS] of
        None \<Rightarrow> (IPC_INVALID_ENDPOINT, eps)
      | Some k \<Rightarrow> (of_nat k, eps[k := (eps ! k)\<lparr>ep_allocated := True, ep_read_sequence := 0,
                 ep_write_sequence := 0, ep_rejected_messages := 0\<rparr>]))"
proof (induction i eps rule: endpoint_scan.induct)
  case (1 i eps)
  then show ?case
    by (subst endpoint_scan.simps) (auto simp: upt_rec [of i])
qed

lemma endpoint_create_cases:
  obtains "\<forall>k < IPC_MAX_ENDPOINTS. ep_allocated (eps ! k)"
      "ipc_endpoint_create eps = (IPC_INVALID_ENDPOINT, eps)"
    | k where "k < IPC_MAX_ENDPOINTS" "\<not> ep_allocated (eps ! k)" "\<forall>j < k. ep_allocated (eps ! j)"
      "ipc_endpoint_create eps = (of_nat k, eps[k := (eps ! k)\<lparr>ep_allocated := True,
         ep_read_sequence := 0, ep_write_sequence := 0, ep_rejected_messages := 0\<rparr>])"
proof (cases "find (\<lambda>k. \<not> ep_allocated (eps ! k)) [0..<IPC_MAX_ENDPOINTS]")
  case None
  moreover from this have "\<forall>k < IPC_MAX_ENDPOINTS. ep_allocated (eps ! k)"
    by (auto simp: find_None_iff simp del: upt_rec_numeral)
  ultimately show ?thesis
    by (intro that(1)) (simp_all add: ipc_endpoint_create_def endpoint_scan_spec del: upt_rec_numeral)
next
  case (Some k)
  moreover from this have "k < IPC_MAX_ENDPOINTS" "\<not> ep_allocated (eps ! k)" "\<forall>j < k. ep_allocated (eps ! j)"
    by (auto simp: find_Some_iff simp del: upt_rec_numeral)
  ultimately show ?thesis
    by (intro that(2) [of k]) (simp_all add: ipc_endpoint_create_def endpoint_scan_spec del: upt_rec_numeral)
qed

lemma ep_fresh:
  "ep_wf e \<Longrightarrow> ep_wf (e\<lparr>ep_allocated := True, ep_read_sequence := 0, ep_write_sequence := 0,
     ep_rejected_messages := 0\<rparr>)"
  by (simp add: ep_wf_def)

lemma ipc_create_wf:
  assumes "ipc_wf eps"
  shows "ipc_wf (snd (ipc_endpoint_create eps))"
proof (cases rule: endpoint_create_cases [of eps])
  case (2 k)
  have "ep_wf (eps ! k)" using assms 2(1) by (simp add: ipc_wf_def)
  with 2 assms show ?thesis by (simp add: ipc_wf_update ep_fresh)
qed (simp add: assms)

lemma ipc_create_other: "ep_allocated (eps ! i) \<Longrightarrow> snd (ipc_endpoint_create eps) ! i = eps ! i"
  by (cases rule: endpoint_create_cases [of eps]) (auto, metis nth_list_update_neq)

lemma ep_wf_reset: "ep_wf (endpoint_reset e)" if "length (ep_queue e) = IPC_QUEUE_DEPTH"
  "\<forall>m \<in> set (ep_queue e). msg_wf m"
  using that msg_wf_clear
  by (auto simp: ep_wf_def endpoint_reset_def fold_map_upt simp del: upt_rec_numeral)

text \<open>What static storage gives before \<open>ipc_init\<close>: the arrays have their declared lengths.\<close>

definition ipc_static :: "ipc_state \<Rightarrow> bool" where
  "ipc_static eps \<longleftrightarrow> length eps = IPC_MAX_ENDPOINTS \<and>
     (\<forall>e \<in> set eps. length (ep_queue e) = IPC_QUEUE_DEPTH \<and> (\<forall>m \<in> set (ep_queue e). msg_wf m))"

lemma ipc_init_eq: "ipc_static eps \<Longrightarrow> ipc_init eps = map endpoint_reset eps"
  by (simp add: ipc_init_def ipc_static_def fold_map_upt del: upt_rec_numeral)

lemma ipc_init_wf: "ipc_static eps \<Longrightarrow> ipc_wf (ipc_init eps)"
  by (auto simp: ipc_init_eq ipc_wf_def ep_wf_reset ipc_static_def)

section \<open>Traces of the whole message system\<close>

text \<open>
  Every interleaving of endpoint creations, sends and receives by all tasks. The run logs what
  endpoint \<open>ep\<close> accepted (as stored) and what it delivered.
\<close>

datatype ipc_op = Create | Send u32 "ipc_message option" | Receive u32 bool

definition ipc_step :: "ipc_op \<Rightarrow> ipc_state \<Rightarrow> ipc_state" where
  "ipc_step oper eps = (case oper of
     Create \<Rightarrow> snd (ipc_endpoint_create eps)
   | Send e m \<Rightarrow> snd (ipc_send e m eps)
   | Receive e b \<Rightarrow> snd (ipc_receive e b eps))"

definition op_accepted :: "u32 \<Rightarrow> ipc_op \<Rightarrow> ipc_state \<Rightarrow> ipc_message list" where
  "op_accepted ep oper eps = (case oper of
     Send e (Some m) \<Rightarrow> if e = ep \<and> fst (ipc_send e (Some m) eps) then [msg_stored m] else []
   | _ \<Rightarrow> [])"

definition op_delivered :: "u32 \<Rightarrow> ipc_op \<Rightarrow> ipc_state \<Rightarrow> ipc_message list" where
  "op_delivered ep oper eps = (case oper of
     Receive e b \<Rightarrow> if e = ep then (case fst (ipc_receive e b eps) of None \<Rightarrow> [] | Some m \<Rightarrow> [m]) else []
   | _ \<Rightarrow> [])"

fun ipc_run :: "u32 \<Rightarrow> ipc_op list \<Rightarrow> ipc_state \<Rightarrow> ipc_message list \<times> ipc_message list \<times> ipc_state" where
  "ipc_run ep [] eps = ([], [], eps)"
| "ipc_run ep (oper # ops) eps =
     (let (ins, outs, eps') = ipc_run ep ops (ipc_step oper eps)
      in (op_accepted ep oper eps @ ins, op_delivered ep oper eps @ outs, eps'))"

lemma unat_ep_neq: "e \<noteq> ep \<Longrightarrow> unat ep \<noteq> unat (e :: u32)"
  by (simp add: word_unat_eq_iff)

lemma valid_same: "eps' ! unat ep = eps ! unat ep \<Longrightarrow> endpoint_is_valid ep eps' = endpoint_is_valid ep eps"
  by (simp add: endpoint_is_valid_def)

lemma ipc_step_contents:
  assumes wf: "ipc_wf eps" and v: "endpoint_is_valid ep eps"
  shows "ipc_wf (ipc_step oper eps) \<and> endpoint_is_valid ep (ipc_step oper eps) \<and>
    ep_contents (eps ! unat ep) @ op_accepted ep oper eps =
    op_delivered ep oper eps @ ep_contents (ipc_step oper eps ! unat ep)"
proof (cases oper)
  case Create
  have "ipc_step oper eps ! unat ep = eps ! unat ep"
    using v by (simp add: Create ipc_step_def ipc_create_other endpoint_is_valid_def)
  with v valid_same [OF this] ipc_create_wf [OF wf] show ?thesis
    by (simp add: Create ipc_step_def op_accepted_def op_delivered_def)
next
  case (Send e m)
  show ?thesis
  proof (cases "e = ep \<and> m \<noteq> None")
    case True
    then obtain x where [simp]: "m = Some x" "e = ep" by auto
    note laws = ipc_fifo.push_inv ipc_fifo.push_contents
    show ?thesis using laws [of eps ep x] wf v
      by (simp add: Send ipc_step_def op_accepted_def op_delivered_def)
  next
    case False
    then have "ipc_step oper eps ! unat ep = eps ! unat ep"
      by (auto simp: Send ipc_step_def ipc_send_null ipc_send_other [OF unat_ep_neq])
    with False v valid_same [OF this] ipc_send_wf [OF wf] show ?thesis
      by (auto simp: Send ipc_step_def op_accepted_def op_delivered_def split: option.splits)
  qed
next
  case (Receive e b)
  show ?thesis
  proof (cases "e = ep \<and> b \<and> ep_contents (eps ! unat ep) \<noteq> []")
    case True
    from True ipc_receive_ok [OF wf v] obtain e' where
      r: "ipc_receive ep True eps = (Some (hd (ep_contents (eps ! unat ep))), eps[unat ep := e'])"
      "ep_wf e'" "ep_allocated e'" "ep_contents e' = tl (ep_contents (eps ! unat ep))"
      by metis
    with True wf v show ?thesis
      by (simp add: Receive ipc_step_def op_accepted_def op_delivered_def ipc_wf_update
          valid_update nth_endpoint_update ipc_wf_def [THEN iffD1, THEN conjunct1])
  next
    case False
    then have "ipc_step oper eps ! unat ep = eps ! unat ep"
      by (cases "e = ep") (auto simp: Receive ipc_step_def ipc_receive_none ipc_receive_other [OF unat_ep_neq])
    moreover from False have "e = ep \<Longrightarrow> fst (ipc_receive ep b eps) = None"
      by (auto simp: ipc_receive_none)
    ultimately show ?thesis using v valid_same [of "ipc_step oper eps" ep eps] ipc_receive_wf [OF wf]
      by (auto simp: Receive ipc_step_def op_accepted_def op_delivered_def)
  qed
qed

lemma ipc_run_contents:
  "ipc_wf eps \<Longrightarrow> endpoint_is_valid ep eps \<Longrightarrow> ipc_run ep ops eps = (ins, outs, eps') \<Longrightarrow>
   ipc_wf eps' \<and> endpoint_is_valid ep eps' \<and>
   ep_contents (eps ! unat ep) @ ins = outs @ ep_contents (eps' ! unat ep)"
proof (induction ops arbitrary: eps ins outs eps')
  case (Cons oper ops)
  obtain ins1 outs1 eps1 where r: "ipc_run ep ops (ipc_step oper eps) = (ins1, outs1, eps1)"
    by (metis prod_cases3)
  note step = ipc_step_contents [OF Cons.prems(1,2), of oper]
  from Cons.IH [OF _ _ r] step Cons.prems(3) r show ?case
    by (auto simp flip: append_assoc) (metis append_assoc)
qed simp

section \<open>Properties\<close>

definition example_message :: ipc_message where
  "example_message = \<lparr>msg_sender = 7, msg_type = 1, msg_length = 2, msg_payload = [10, 20] @ replicate 30 99\<rparr>"

definition example_ipc :: ipc_state where
  "example_ipc = replicate 8 \<lparr>ep_allocated = True, ep_read_sequence = - 1, ep_write_sequence = - 1,
     ep_rejected_messages = 5, ep_queue = replicate 8 (message_clear example_message)\<rparr>"

lemma example_ipc_wf: "ipc_wf example_ipc"
  by (auto simp: ipc_wf_def example_ipc_def ep_wf_def intro!: msg_wf_clear)
    (simp add: msg_wf_def example_message_def)

lemma example_valid: "unat ep < 8 \<Longrightarrow> endpoint_is_valid ep example_ipc"
  by (simp add: endpoint_is_valid_def example_ipc_def)

text \<open>
  (C37) \<open>ipc_send\<close>, on every branch: the call succeeds exactly when the endpoint exists, the
  message pointer is not null, its length is at most 32 and fewer than eight messages are
  pending; then the endpoint's queue gains at its end a deep copy of the message whose payload
  is cut at the length and zero-filled. A refused call leaves every queue as it was and counts a
  rejection exactly when the queue was full. No other endpoint changes, and the number
  \<open>ipc_pending\<close> reports is the length of the queue.
\<close>

theorem ipc_send_exact:
  assumes wf: "ipc_wf eps" and s: "ipc_send ep m eps = (ok, eps')"
  shows "ipc_wf eps'
    \<and> (ok \<longleftrightarrow> endpoint_is_valid ep eps \<and> (\<exists>x. m = Some x \<and> msg_length x \<le> 32) \<and> ipc_pending ep eps < 8)
    \<and> (endpoint_is_valid ep eps \<longrightarrow>
         unat (ipc_pending ep eps) = length (ep_contents (eps ! unat ep)) \<and>
         ep_contents (eps' ! unat ep) = ep_contents (eps ! unat ep) @ (if ok then [msg_stored (the m)] else []))
    \<and> ipc_rejected_count ep eps' = ipc_rejected_count ep eps +
        (if endpoint_is_valid ep eps \<and> (\<exists>x. m = Some x \<and> msg_length x \<le> 32) \<and> ipc_pending ep eps = 8
         then 1 else 0)
    \<and> (\<forall>i. i \<noteq> unat ep \<longrightarrow> eps' ! i = eps ! i)"
proof -
  have other: "\<forall>i. i \<noteq> unat ep \<longrightarrow> eps' ! i = eps ! i"
    using ipc_send_other [of _ ep m eps] s by simp
  have wf': "ipc_wf eps'" using ipc_send_wf [OF wf, of ep m] s by simp
  show ?thesis
  proof (cases "endpoint_is_valid ep eps \<and> (\<exists>x. m = Some x \<and> msg_length x \<le> 32)")
    case False
    then have "ok = False \<and> eps' = eps"
      using s ipc_send_refused [of ep eps "the m"] by (cases m) (auto simp: ipc_send_null not_le)
    with False other wf' show ?thesis by (auto simp: ipc_pending_def ep_contents_def)
  next
    case True
    then obtain x where v: "endpoint_is_valid ep eps" and [simp]: "m = Some x" and x: "msg_length x \<le> 32"
      by blast
    let ?c = "ep_contents (eps ! unat ep)"
    have pend: "unat (ipc_pending ep eps) = length ?c"
      using v by (simp add: ipc_pending_def ep_contents_def)
    have le: "length ?c \<le> 8" using ipc_fifo.bound wf v by blast
    show ?thesis
    proof (cases "length ?c = 8")
      case full: True
      with ipc_send_full [OF wf v, of x] x s
      have r: "ok = False" "eps' = eps[unat ep := (eps ! unat ep)
          \<lparr>ep_rejected_messages := ep_rejected_messages (eps ! unat ep) + 1\<rparr>]" by simp_all
      have "ep_allocated (eps ! unat ep)" "length eps = 8"
        using v wf by (simp_all add: endpoint_is_valid_def ipc_wf_def)
      with r full pend v wf x other wf' show ?thesis
        by (auto simp: ipc_rejected_count_def valid_update nth_endpoint_update ep_wf_rejected
            word_unat_eq_iff word_less_nat_alt)
    next
      case False
      with le have lt: "length ?c < 8" by simp
      obtain e' where "ipc_send ep (Some x) eps = (True, eps[unat ep := e'])" "ep_allocated e'"
        "ep_rejected_messages e' = ep_rejected_messages (eps ! unat ep)"
        "ep_contents e' = ?c @ [msg_stored x]"
        using ipc_send_ok [OF wf v _ lt, of x] x by auto
      with s lt pend v wf x other wf' show ?thesis
        by (auto simp: ipc_rejected_count_def valid_update nth_endpoint_update ipc_wf_def
            word_unat_eq_iff word_less_nat_alt endpoint_is_valid_def)
    qed
  qed
qed

theorem ipc_send_exact_witness:
  "\<exists>ok eps'. ipc_send 3 (Some example_message) example_ipc = (ok, eps') \<and> ok \<and>
     ep_contents (eps' ! 3) = [example_message\<lparr>msg_payload := [10, 20] @ replicate 30 0\<rparr>]"
proof -
  obtain ok eps' where r: "ipc_send 3 (Some example_message) example_ipc = (ok, eps')" by fastforce
  note s = ipc_send_exact [OF example_ipc_wf r]
  have v: "endpoint_is_valid 3 example_ipc" by (rule example_valid) simp
  have "ipc_pending 3 example_ipc = 0" by (simp add: ipc_pending_def example_ipc_def)
  moreover have "msg_length example_message \<le> 32" by (simp add: example_message_def)
  moreover have "ep_contents (example_ipc ! 3) = []"
    by (simp add: example_ipc_def ep_contents_def ring_list_def)
  moreover have "msg_stored example_message = example_message\<lparr>msg_payload := [10, 20] @ replicate 30 0\<rparr>"
    by code_simp
  ultimately have "ok" "ep_contents (eps' ! 3) = [example_message\<lparr>msg_payload := [10, 20] @ replicate 30 0\<rparr>]"
    using s v by auto
  with r show ?thesis by blast
qed

text \<open>
  \<open>ipc_receive\<close>, on every branch: it fails, changing nothing, exactly when the endpoint does
  not exist, the buffer is null or no message is pending; otherwise it delivers the oldest
  pending message whole and removes it and nothing else.
\<close>

theorem ipc_receive_exact:
  assumes wf: "ipc_wf eps" and r: "ipc_receive ep buffer eps = (res, eps')"
  shows "ipc_wf eps'
    \<and> (res = None \<longleftrightarrow> \<not> endpoint_is_valid ep eps \<or> \<not> buffer \<or> ipc_pending ep eps = 0)
    \<and> (res = None \<longrightarrow> eps' = eps)
    \<and> (\<forall>m. res = Some m \<longrightarrow> ep_contents (eps ! unat ep) = m # ep_contents (eps' ! unat ep) \<and>
          ipc_pending ep eps' = ipc_pending ep eps - 1 \<and> ipc_rejected_count ep eps' = ipc_rejected_count ep eps)
    \<and> (\<forall>i. i \<noteq> unat ep \<longrightarrow> eps' ! i = eps ! i)"
proof (cases "endpoint_is_valid ep eps \<and> buffer \<and> ep_contents (eps ! unat ep) \<noteq> []")
  case False
  then have "res = None \<and> eps' = eps" using r ipc_receive_none [of ep eps buffer] by auto
  with False wf show ?thesis by (auto simp: ipc_pending_def simp flip: ep_empty_iff)
next
  case True
  then have v: "endpoint_is_valid ep eps" and b: "buffer = True" and ne: "ep_contents (eps ! unat ep) \<noteq> []" by auto
  from ipc_receive_ok [OF wf v ne] obtain e' where
    e: "ipc_receive ep True eps = (Some (hd (ep_contents (eps ! unat ep))), eps[unat ep := e'])"
    "ep_wf e'" "ep_allocated e'" "ep_rejected_messages e' = ep_rejected_messages (eps ! unat ep)"
    "ep_contents e' = tl (ep_contents (eps ! unat ep))" .
  have e': "e' = (eps ! unat ep)\<lparr>ep_read_sequence := ep_read_sequence (eps ! unat ep) + 1\<rparr>"
    using arg_cong [OF e(1), where f = "\<lambda>x. snd x ! unat ep"] v b ne wf
    by (auto simp: ipc_receive_def Let_def ep_empty_iff nth_endpoint_update)
  have p: "ipc_pending ep eps \<noteq> 0" using v ne by (simp add: ipc_pending_def flip: ep_empty_iff)
  have len: "length eps = 8" using wf by (simp add: ipc_wf_def)
  show ?thesis
    using e e' p r b v ne wf len
    by (auto simp: ipc_wf_update nth_endpoint_update ipc_pending_def ipc_rejected_count_def valid_update
        endpoint_is_valid_def)
qed

theorem ipc_receive_exact_witness:
  "\<exists>m eps'. ipc_receive 3 True (snd (ipc_send 3 (Some example_message) example_ipc)) = (Some m, eps') \<and>
     ipc_pending 3 eps' = 0"
proof -
  let ?eps = "snd (ipc_send 3 (Some example_message) example_ipc)"
  obtain res eps' where r: "ipc_receive 3 True ?eps = (res, eps')" by fastforce
  have pend: "ipc_pending 3 ?eps = 1" "endpoint_is_valid 3 ?eps" by code_simp+
  note s = ipc_receive_exact [OF ipc_send_wf [OF example_ipc_wf] r]
  from s pend obtain m where "res = Some m" by auto
  with s r pend show ?thesis by auto
qed

text \<open>
  (C11) In every interleaving of creations, sends and receives on all endpoints, each existing endpoint
  is a FIFO of its own: the messages it accepted, as deep copies, are exactly the ones it
  delivered followed by the ones still pending, in order. None is lost, duplicated,
  reordered or taken from another endpoint, also across the wrap-around of the sequence numbers.
\<close>

theorem ipc_run_fifo:
  assumes "ipc_wf eps" and "endpoint_is_valid ep eps" and "ipc_run ep ops eps = (ins, outs, eps')"
  shows "ipc_wf eps' \<and> ep_contents (eps ! unat ep) @ ins = outs @ ep_contents (eps' ! unat ep)
    \<and> length (ep_contents (eps' ! unat ep)) \<le> IPC_QUEUE_DEPTH"
  using ipc_run_contents [OF assms] ipc_fifo.bound by blast

theorem ipc_run_fifo_witness:
  "\<exists>eps'. ipc_run 2 [Send 2 (Some example_message), Send 5 (Some example_message), Create, Receive 5 True,
       Send 2 None, Receive 2 False, Receive 2 True, Receive 2 True] example_ipc
     = ([msg_stored example_message], [msg_stored example_message], eps') \<and> ep_contents (eps' ! 2) = []"
proof -
  let ?ops = "[Send 2 (Some example_message), Send 5 (Some example_message), Create, Receive 5 True,
       Send 2 None, Receive 2 False, Receive 2 True, Receive 2 True]"
  obtain ins outs eps' where r: "ipc_run 2 ?ops example_ipc = (ins, outs, eps')" by (metis prod_cases3)
  have "fst (ipc_run 2 ?ops example_ipc) = [msg_stored example_message]"
    and "fst (snd (ipc_run 2 ?ops example_ipc)) = [msg_stored example_message]" by code_simp+
  moreover have "ep_contents (example_ipc ! 2) = []" by code_simp
  ultimately show ?thesis
    using r ipc_run_fifo [OF example_ipc_wf example_valid r] by (simp del: ipc_run.simps)
qed

text \<open>
  After \<open>ipc_init\<close> there is no endpoint. \<open>ipc_endpoint_create\<close> hands out the lowest unused
  number with an empty queue and a zero rejection count and touches no other endpoint; it returns the invalid
  number, changing nothing, exactly when all eight are in use.
\<close>

theorem ipc_create_lowest:
  assumes "ipc_static eps0" and wf: "ipc_wf eps" and c: "ipc_endpoint_create eps = (ep, eps')"
  shows "ipc_wf (ipc_init eps0) \<and> (\<forall>e. \<not> endpoint_is_valid e (ipc_init eps0)) \<and> ipc_wf eps'
    \<and> (ep = IPC_INVALID_ENDPOINT \<longleftrightarrow> (\<forall>e. unat e < IPC_MAX_ENDPOINTS \<longrightarrow> endpoint_is_valid e eps))
    \<and> (ep = IPC_INVALID_ENDPOINT \<longrightarrow> eps' = eps)
    \<and> (ep \<noteq> IPC_INVALID_ENDPOINT \<longrightarrow> \<not> endpoint_is_valid ep eps \<and> endpoint_is_valid ep eps' \<and>
         (\<forall>e < ep. endpoint_is_valid e eps) \<and> ipc_pending ep eps' = 0 \<and> ipc_rejected_count ep eps' = 0)
    \<and> (\<forall>i. i \<noteq> unat ep \<longrightarrow> eps' ! i = eps ! i)"
proof -
  have init: "ipc_wf (ipc_init eps0) \<and> (\<forall>e. \<not> endpoint_is_valid e (ipc_init eps0))"
    using assms(1) ipc_init_wf [OF assms(1)]
    by (auto simp: ipc_init_eq endpoint_is_valid_def endpoint_reset_def ipc_static_def)
  have wf': "ipc_wf eps'" using ipc_create_wf [OF wf] c by simp
  show ?thesis
  proof (cases rule: endpoint_create_cases [of eps])
    case 1
    with init wf' c show ?thesis by (simp add: endpoint_is_valid_def)
  next
    case (2 k)
    have ep: "ep = of_nat k" and eps': "eps' = eps[k := (eps ! k)\<lparr>ep_allocated := True,
         ep_read_sequence := 0, ep_write_sequence := 0, ep_rejected_messages := 0\<rparr>]" using c 2(4) by simp_all
    have uk: "unat ep = k" using 2(1) by (simp add: ep unat_word_of_nat_small)
    have inv: "ep \<noteq> IPC_INVALID_ENDPOINT"
      using uk 2(1) by (auto simp: unsigned_minus_1_eq_mask mask_eq_exp_minus_1)
    have len: "length eps = 8" using wf by (simp add: ipc_wf_def)
    have v': "endpoint_is_valid ep eps'" using uk 2(1) len by (simp add: endpoint_is_valid_def eps')
    have nv: "\<not> endpoint_is_valid ep eps" using uk 2(2) by (simp add: endpoint_is_valid_def)
    moreover have "\<forall>e < ep. endpoint_is_valid e eps"
      using 2(1,3) by (auto simp: endpoint_is_valid_def word_less_nat_alt uk)
    moreover have "ipc_pending ep eps' = 0 \<and> ipc_rejected_count ep eps' = 0"
      using v' uk 2(1) len by (simp add: ipc_pending_def ipc_rejected_count_def eps')
    moreover have "\<forall>i. i \<noteq> unat ep \<longrightarrow> eps' ! i = eps ! i" by (simp add: uk eps')
    moreover have "\<not> (\<forall>e. unat e < IPC_MAX_ENDPOINTS \<longrightarrow> endpoint_is_valid e eps)"
      using nv 2(1) uk by auto
    ultimately show ?thesis using init wf' inv v' by simp
  qed
qed

theorem ipc_create_lowest_witness:
  "fst (ipc_endpoint_create (ipc_init example_ipc)) = 0 \<and>
   endpoint_is_valid 0 (snd (ipc_endpoint_create (ipc_init example_ipc))) \<and>
   fst (ipc_endpoint_create example_ipc) = IPC_INVALID_ENDPOINT"
proof -
  have st: "ipc_static example_ipc"
    using example_ipc_wf by (simp add: ipc_static_def ipc_wf_def ep_wf_def)
  obtain ep eps' where r: "ipc_endpoint_create (ipc_init example_ipc) = (ep, eps')" by fastforce
  note t = ipc_create_lowest [OF st ipc_init_wf [OF st] r]
  have "ep \<noteq> IPC_INVALID_ENDPOINT" using t by (metis unsigned_0 zero_less_numeral)
  moreover have "ep = 0" using t calculation word_gt_0 by metis
  moreover obtain ep1 eps1 where r1: "ipc_endpoint_create example_ipc = (ep1, eps1)" by fastforce
  moreover have "ep1 = IPC_INVALID_ENDPOINT"
    using ipc_create_lowest [OF st example_ipc_wf r1] example_valid by blast
  ultimately show ?thesis using t r by simp
qed

end
