(* ===== verification/Keyboard.thy ===== *)
theory Keyboard
  imports Seq_Ring "HOL-Library.Sublist"
begin

text \<open>
  The keyboard driver, \<open>kernel/arch/x86/keyboard.c\<close>: a decoder for set 1 scan codes, run by IRQ1,
  and the 64-character queue it shares with the main loop. The port reads of the handler are
  arguments. The end of the theory lets the interrupt strike between any two memory
  accesses of the consumer.
\<close>

section \<open>State and operations\<close>

abbreviation KEYBOARD_QUEUE_CAPACITY :: nat where "KEYBOARD_QUEUE_CAPACITY \<equiv> 64"
abbreviation KEYBOARD_QUEUE_MASK :: u32 where "KEYBOARD_QUEUE_MASK \<equiv> 63"
abbreviation KEYBOARD_STATUS_OUTPUT_FULL :: u8 where "KEYBOARD_STATUS_OUTPUT_FULL \<equiv> 0x01"
abbreviation KEYBOARD_EXTENDED_PREFIX :: u8 where "KEYBOARD_EXTENDED_PREFIX \<equiv> 0xE0"
abbreviation KEYBOARD_RELEASE_BIT :: u8 where "KEYBOARD_RELEASE_BIT \<equiv> 0x80"
abbreviation KEYBOARD_LEFT_SHIFT :: u8 where "KEYBOARD_LEFT_SHIFT \<equiv> 0x2A"
abbreviation KEYBOARD_RIGHT_SHIFT :: u8 where "KEYBOARD_RIGHT_SHIFT \<equiv> 0x36"
abbreviation KEYBOARD_CAPS_LOCK :: u8 where "KEYBOARD_CAPS_LOCK \<equiv> 0x3A"
abbreviation KEYBOARD_ENTER :: u8 where "KEYBOARD_ENTER \<equiv> 0x1C"
abbreviation KEYBOARD_BACKSPACE :: u8 where "KEYBOARD_BACKSPACE \<equiv> 0x0E"
abbreviation KEYBOARD_SPACE :: u8 where "KEYBOARD_SPACE \<equiv> 0x39"

record keyboard =
  character_queue :: "char list"
  write_sequence :: u32
  read_sequence :: u32
  dropped_characters :: u32
  left_shift_down :: bool
  right_shift_down :: bool
  caps_lock_enabled :: bool
  extended_prefix_pending :: bool

definition letter_for_scancode :: "u8 \<Rightarrow> char" where
  "letter_for_scancode code = (case map_of
     [(0x1E, CHR ''a''), (0x30, CHR ''b''), (0x2E, CHR ''c''), (0x20, CHR ''d''), (0x12, CHR ''e''),
      (0x21, CHR ''f''), (0x22, CHR ''g''), (0x23, CHR ''h''), (0x17, CHR ''i''), (0x24, CHR ''j''),
      (0x25, CHR ''k''), (0x26, CHR ''l''), (0x32, CHR ''m''), (0x31, CHR ''n''), (0x18, CHR ''o''),
      (0x19, CHR ''p''), (0x10, CHR ''q''), (0x13, CHR ''r''), (0x1F, CHR ''s''), (0x14, CHR ''t''),
      (0x16, CHR ''u''), (0x2F, CHR ''v''), (0x11, CHR ''w''), (0x2D, CHR ''x''), (0x15, CHR ''y''),
      (0x2C, CHR ''z'')] code of
     Some c \<Rightarrow> c | None \<Rightarrow> CHR 0x00)"

definition digit_for_scancode :: "u8 \<Rightarrow> bool \<Rightarrow> char" where
  "digit_for_scancode code shifted =
     (if code < 0x02 \<or> code > 0x0B then CHR 0x00
      else let index = unat (code - 0x02) in
        if shifted then ''!@#$%^&*()'' ! index else ''1234567890'' ! index)"

definition queue_push :: "char \<Rightarrow> keyboard \<Rightarrow> bool \<times> keyboard" where
  "queue_push character k =
     (let write = write_sequence k; read = read_sequence k in
      if write - read \<ge> of_nat KEYBOARD_QUEUE_CAPACITY then
        (False, k\<lparr>dropped_characters := dropped_characters k + 1\<rparr>)
      else
        (True, k\<lparr>character_queue := (character_queue k)[unat (write AND KEYBOARD_QUEUE_MASK) := character],
                write_sequence := write + 1\<rparr>))"

definition keyboard_init :: "keyboard \<Rightarrow> keyboard" where
  "keyboard_init k = k\<lparr>write_sequence := 0, read_sequence := 0, dropped_characters := 0,
     left_shift_down := False, right_shift_down := False, caps_lock_enabled := False,
     extended_prefix_pending := False\<rparr>"

definition keyboard_feed_scancode :: "u8 \<Rightarrow> keyboard \<Rightarrow> bool \<times> keyboard" where
  "keyboard_feed_scancode scancode k =
     (if scancode = KEYBOARD_EXTENDED_PREFIX then (False, k\<lparr>extended_prefix_pending := True\<rparr>)
      else if extended_prefix_pending k then (False, k\<lparr>extended_prefix_pending := False\<rparr>)
      else
        let released = (scancode AND KEYBOARD_RELEASE_BIT) \<noteq> 0;
            code = scancode AND NOT KEYBOARD_RELEASE_BIT in
        if code = KEYBOARD_LEFT_SHIFT then (False, k\<lparr>left_shift_down := \<not> released\<rparr>)
        else if code = KEYBOARD_RIGHT_SHIFT then (False, k\<lparr>right_shift_down := \<not> released\<rparr>)
        else if released then (False, k)
        else if code = KEYBOARD_CAPS_LOCK then
          (False, k\<lparr>caps_lock_enabled := \<not> caps_lock_enabled k\<rparr>)
        else
          let shifted = left_shift_down k \<or> right_shift_down k;
              character = letter_for_scancode code in
          if character \<noteq> CHR 0x00 then
            queue_push
              (if shifted \<noteq> caps_lock_enabled k
               then char_of (of_char character - (of_char CHR ''a'' - of_char CHR ''A'') :: nat)
               else character) k
          else
            let character = digit_for_scancode code shifted in
            if character \<noteq> CHR 0x00 then queue_push character k
            else if code = KEYBOARD_ENTER then queue_push (CHR 0x0A) k
            else if code = KEYBOARD_BACKSPACE then queue_push (CHR 0x08) k
            else if code = KEYBOARD_SPACE then queue_push (CHR '' '') k
            else (False, k))"

text \<open>\<open>status\<close> and \<open>data\<close> are what the two port reads return; the data port is read only when
  the status says that a byte is there.\<close>

definition keyboard_handle_irq :: "u8 \<Rightarrow> u8 \<Rightarrow> keyboard \<Rightarrow> keyboard" where
  "keyboard_handle_irq status data k =
     (if status AND KEYBOARD_STATUS_OUTPUT_FULL = 0 then k
      else snd (keyboard_feed_scancode data k))"

text \<open>\<open>buffer\<close> is whether the caller's pointer is non-null.\<close>

definition keyboard_pop_char :: "bool \<Rightarrow> keyboard \<Rightarrow> char option \<times> keyboard" where
  "keyboard_pop_char buffer k =
     (if \<not> buffer then (None, k)
      else
        let read = read_sequence k; write = write_sequence k in
        if read = write then (None, k)
        else (Some (character_queue k ! unat (read AND KEYBOARD_QUEUE_MASK)),
              k\<lparr>read_sequence := read + 1\<rparr>))"

definition keyboard_dropped_count :: "keyboard \<Rightarrow> u32" where
  "keyboard_dropped_count k = dropped_characters k"

section \<open>The queue\<close>

definition kbd_wf :: "keyboard \<Rightarrow> bool" where
  "kbd_wf k \<longleftrightarrow> length (character_queue k) = KEYBOARD_QUEUE_CAPACITY \<and>
     unat (write_sequence k - read_sequence k) \<le> KEYBOARD_QUEUE_CAPACITY"

definition kbd_contents :: "keyboard \<Rightarrow> char list" where
  "kbd_contents k = ring_list (character_queue k) (read_sequence k) (write_sequence k)"

interpretation kbd_ring: seq_ring KEYBOARD_QUEUE_CAPACITY
  by unfold_locales simp_all

lemma queue_slot: "unat (w AND KEYBOARD_QUEUE_MASK) = unat w mod KEYBOARD_QUEUE_CAPACITY"
  using unat_and_mask [of w 6] by (simp add: mask_eq_exp_minus_1)

lemma kbd_full_iff: "kbd_wf k \<Longrightarrow> of_nat KEYBOARD_QUEUE_CAPACITY \<le> write_sequence k - read_sequence k \<longleftrightarrow>
    length (kbd_contents k) = KEYBOARD_QUEUE_CAPACITY"
  by (auto simp: kbd_wf_def kbd_contents_def word_le_nat_alt)

lemma queue_push_ok:
  assumes wf: "kbd_wf k" and room: "length (kbd_contents k) < KEYBOARD_QUEUE_CAPACITY"
  shows "fst (queue_push c k)" and "kbd_wf (snd (queue_push c k))"
    and "kbd_contents (snd (queue_push c k)) = kbd_contents k @ [c]"
    and "dropped_characters (snd (queue_push c k)) = dropped_characters k"
proof -
  have len: "length (character_queue k) = KEYBOARD_QUEUE_CAPACITY"
    and r: "unat (write_sequence k - read_sequence k) < KEYBOARD_QUEUE_CAPACITY"
    using wf room by (simp_all add: kbd_wf_def kbd_contents_def)
  have "\<not> of_nat KEYBOARD_QUEUE_CAPACITY \<le> write_sequence k - read_sequence k"
    unfolding kbd_full_iff [OF wf] using room by simp
  then have q: "queue_push c k = (True, k\<lparr>character_queue :=
      (character_queue k)[unat (write_sequence k) mod KEYBOARD_QUEUE_CAPACITY := c],
      write_sequence := write_sequence k + 1\<rparr>)"
    by (simp add: queue_push_def Let_def queue_slot)
  show "fst (queue_push c k)" "dropped_characters (snd (queue_push c k)) = dropped_characters k"
    by (simp_all add: q)
  show "kbd_wf (snd (queue_push c k))"
    using len r kbd_ring.unat_succ_diff [OF r] by (simp add: q kbd_wf_def)
  show "kbd_contents (snd (queue_push c k)) = kbd_contents k @ [c]"
    using kbd_ring.ring_push [OF len r] by (simp add: q kbd_contents_def)
qed

lemma queue_push_full:
  assumes "kbd_wf k" and "length (kbd_contents k) = KEYBOARD_QUEUE_CAPACITY"
  shows "queue_push c k = (False, k\<lparr>dropped_characters := dropped_characters k + 1\<rparr>)"
  using assms(2) kbd_full_iff [OF assms(1)] by (simp add: queue_push_def)

lemma kbd_wf_more [simp]:
  "kbd_wf (k\<lparr>dropped_characters := n\<rparr>) = kbd_wf k" "kbd_wf (k\<lparr>extended_prefix_pending := b\<rparr>) = kbd_wf k"
  "kbd_wf (k\<lparr>left_shift_down := b\<rparr>) = kbd_wf k" "kbd_wf (k\<lparr>right_shift_down := b\<rparr>) = kbd_wf k"
  "kbd_wf (k\<lparr>caps_lock_enabled := b\<rparr>) = kbd_wf k"
  by (simp_all add: kbd_wf_def)

lemma kbd_contents_more [simp]:
  "kbd_contents (k\<lparr>dropped_characters := n\<rparr>) = kbd_contents k"
  "kbd_contents (k\<lparr>extended_prefix_pending := b\<rparr>) = kbd_contents k"
  "kbd_contents (k\<lparr>left_shift_down := b\<rparr>) = kbd_contents k"
  "kbd_contents (k\<lparr>right_shift_down := b\<rparr>) = kbd_contents k"
  "kbd_contents (k\<lparr>caps_lock_enabled := b\<rparr>) = kbd_contents k"
  by (simp_all add: kbd_contents_def)

lemma kbd_empty_iff: "read_sequence k = write_sequence k \<longleftrightarrow> kbd_contents k = []"
  by (auto simp: kbd_contents_def unat_eq_zero simp flip: length_0_conv)

lemma keyboard_pop_cases:
  assumes wf: "kbd_wf k"
  shows "kbd_contents k = [] \<Longrightarrow> keyboard_pop_char b k = (None, k)"
    and "kbd_contents k \<noteq> [] \<Longrightarrow>
      character_queue k ! unat (read_sequence k AND KEYBOARD_QUEUE_MASK) = hd (kbd_contents k) \<and>
      kbd_contents (k\<lparr>read_sequence := read_sequence k + 1\<rparr>) = tl (kbd_contents k) \<and>
      kbd_wf (k\<lparr>read_sequence := read_sequence k + 1\<rparr>)"
proof -
  show "keyboard_pop_char b k = (None, k)" if "kbd_contents k = []"
    using that by (simp add: keyboard_pop_char_def kbd_empty_iff Let_def)
  assume "kbd_contents k \<noteq> []"
  then have ne: "read_sequence k \<noteq> write_sequence k" using kbd_empty_iff by blast
  have len: "length (character_queue k) = KEYBOARD_QUEUE_CAPACITY" using wf by (simp add: kbd_wf_def)
  show "character_queue k ! unat (read_sequence k AND KEYBOARD_QUEUE_MASK) = hd (kbd_contents k) \<and>
      kbd_contents (k\<lparr>read_sequence := read_sequence k + 1\<rparr>) = tl (kbd_contents k) \<and>
      kbd_wf (k\<lparr>read_sequence := read_sequence k + 1\<rparr>)"
    using kbd_ring.ring_pop [OF len ne] kbd_ring.unat_pred_diff [OF ne] wf
    by (simp add: kbd_contents_def queue_slot kbd_wf_def)
qed

text \<open>The queue as a FIFO, for its consumer in the main loop.\<close>

definition kbd_pop :: "keyboard \<Rightarrow> (char \<times> keyboard) option" where
  "kbd_pop k = (case keyboard_pop_char True k of (None, _) \<Rightarrow> None | (Some c, k') \<Rightarrow> Some (c, k'))"

interpretation kbd_fifo: bounded_fifo kbd_wf kbd_contents KEYBOARD_QUEUE_CAPACITY "\<lambda>_. True" "\<lambda>c. c"
  queue_push kbd_pop
proof
  fix k c x xs
  assume wf: "kbd_wf k"
  show le: "length (kbd_contents k) \<le> KEYBOARD_QUEUE_CAPACITY"
    using wf by (simp add: kbd_wf_def kbd_contents_def)
  note push = queue_push_ok [OF wf, of c] queue_push_full [OF wf, of c]
  show "kbd_wf (snd (queue_push c k))"
    and "fst (queue_push c k) \<longleftrightarrow> True \<and> length (kbd_contents k) < KEYBOARD_QUEUE_CAPACITY"
    and "kbd_contents (snd (queue_push c k)) =
      (if fst (queue_push c k) then kbd_contents k @ [c] else kbd_contents k)"
    using push le wf by (cases "length (kbd_contents k) < KEYBOARD_QUEUE_CAPACITY"; simp)+
  show "kbd_pop k = None" if "kbd_contents k = []"
    using that keyboard_pop_cases(1) [OF wf] by (simp add: kbd_pop_def)
  show "\<exists>k'. kbd_pop k = Some (x, k') \<and> kbd_contents k' = xs \<and> kbd_wf k'" if "kbd_contents k = x # xs"
    using that keyboard_pop_cases(2) [OF wf] kbd_empty_iff [of k]
    by (simp add: kbd_pop_def keyboard_pop_char_def Let_def)
qed

section \<open>The decoder\<close>

text \<open>The character a pressed key offers to the queue, if any.\<close>

definition kbd_translate :: "u8 \<Rightarrow> bool \<Rightarrow> bool \<Rightarrow> char option" where
  "kbd_translate code shifted caps =
     (if letter_for_scancode code \<noteq> CHR 0x00 then
        Some (if shifted \<noteq> caps then char_of (of_char (letter_for_scancode code) - (of_char CHR ''a'' - of_char CHR ''A'') :: nat)
              else letter_for_scancode code)
      else if digit_for_scancode code shifted \<noteq> CHR 0x00 then Some (digit_for_scancode code shifted)
      else if code = KEYBOARD_ENTER then Some (CHR 0x0A)
      else if code = KEYBOARD_BACKSPACE then Some (CHR 0x08)
      else if code = KEYBOARD_SPACE then Some (CHR '' '')
      else None)"

definition kbd_offered :: "u8 \<Rightarrow> keyboard \<Rightarrow> char option" where
  "kbd_offered b k =
     (if b = KEYBOARD_EXTENDED_PREFIX \<or> extended_prefix_pending k \<or> b AND KEYBOARD_RELEASE_BIT \<noteq> 0 \<or>
         b \<in> {KEYBOARD_LEFT_SHIFT, KEYBOARD_RIGHT_SHIFT, KEYBOARD_CAPS_LOCK} then None
      else kbd_translate b (left_shift_down k \<or> right_shift_down k) (caps_lock_enabled k))"

lemma and_not_self: "(b :: u8) AND m = 0 \<Longrightarrow> b AND NOT m = b"
  unfolding bit_eq_iff by (auto simp: bit_simps)

lemma release_bit: "(b :: u8) AND 0x80 = 0 \<longleftrightarrow> \<not> bit b 7"
  using and_exp_eq_0_iff_not_bit [of b 7] by simp

lemma release_bit_iff: "(b :: u8) AND 0x80 = 0 \<longleftrightarrow> b < 0x80"
proof -
  have "bit b 7 \<longleftrightarrow> bit (unat b) 7" by (simp add: bit_unsigned_iff)
  also have "\<dots> \<longleftrightarrow> odd (unat b div 128)" by (simp add: bit_iff_odd [of "unat b"])
  also have "\<dots> \<longleftrightarrow> \<not> unat b < 128"
    using unat_less_width(1) [of b] by (cases "unat b < 128") (simp_all add: div_if)
  finally show ?thesis by (simp add: release_bit word_less_nat_alt)
qed

lemma set_bit_again: "bit (b :: u8) n \<Longrightarrow> b = (b AND NOT (2 ^ n)) OR 2 ^ n"
  unfolding bit_eq_iff by (auto simp: bit_simps)

lemma released_code:
  assumes "b AND KEYBOARD_RELEASE_BIT \<noteq> 0"
  shows "b = (b AND NOT KEYBOARD_RELEASE_BIT) OR KEYBOARD_RELEASE_BIT"
proof -
  have "bit b 7" using assms release_bit by blast
  from set_bit_again [OF this] show ?thesis by simp
qed

lemma feed_press:
  assumes "b \<noteq> KEYBOARD_EXTENDED_PREFIX" and "\<not> extended_prefix_pending k"
    and rel: "b AND KEYBOARD_RELEASE_BIT = 0"
    and "b \<notin> {KEYBOARD_LEFT_SHIFT, KEYBOARD_RIGHT_SHIFT, KEYBOARD_CAPS_LOCK}"
  shows "keyboard_feed_scancode b k =
    (case kbd_translate b (left_shift_down k \<or> right_shift_down k) (caps_lock_enabled k) of
       None \<Rightarrow> (False, k) | Some c \<Rightarrow> queue_push c k)"
proof -
  define s where "s = (left_shift_down k \<or> right_shift_down k)"
  show ?thesis
    unfolding keyboard_feed_scancode_def Let_def rel and_not_self [OF rel] kbd_translate_def s_def [symmetric]
    using assms(1,2,4)
    by (cases "letter_for_scancode b = CHR 0x00"; cases "digit_for_scancode b s = CHR 0x00") auto
qed

lemma feed_offered: "kbd_offered b k = Some c \<Longrightarrow> keyboard_feed_scancode b k = queue_push c k"
  by (auto simp: kbd_offered_def feed_press split: if_splits)

text \<open>Everything else moves only the modifiers and the prefix flag.\<close>

definition kbd_quiet :: "keyboard \<Rightarrow> keyboard \<Rightarrow> bool" where
  "kbd_quiet k k' \<longleftrightarrow> k' = k\<lparr>left_shift_down := left_shift_down k', right_shift_down := right_shift_down k',
     caps_lock_enabled := caps_lock_enabled k', extended_prefix_pending := extended_prefix_pending k'\<rparr>"

lemma kbd_quiet_more [simp]:
  "kbd_quiet k k" "kbd_quiet k (k\<lparr>extended_prefix_pending := b\<rparr>)" "kbd_quiet k (k\<lparr>left_shift_down := b\<rparr>)"
  "kbd_quiet k (k\<lparr>right_shift_down := b\<rparr>)" "kbd_quiet k (k\<lparr>caps_lock_enabled := b\<rparr>)"
  by (simp_all add: kbd_quiet_def)

lemma kbd_quietD:
  assumes "kbd_quiet k k'"
  shows "kbd_contents k' = kbd_contents k" and "kbd_wf k' = kbd_wf k" and "read_sequence k' = read_sequence k"
    and "write_sequence k' = write_sequence k"
    and "dropped_characters k' = dropped_characters k" and "character_queue k' = character_queue k"
  using assms by (metis kbd_quiet_def kbd_contents_more, metis kbd_quiet_def kbd_wf_more)
    (subst assms [unfolded kbd_quiet_def], simp)+

lemma feed_not_offered:
  assumes "kbd_offered b k = None"
  shows "\<not> fst (keyboard_feed_scancode b k) \<and> kbd_quiet k (snd (keyboard_feed_scancode b k))"
proof (cases "b \<noteq> KEYBOARD_EXTENDED_PREFIX \<and> \<not> extended_prefix_pending k \<and> b AND KEYBOARD_RELEASE_BIT = 0 \<and>
    b \<notin> {KEYBOARD_LEFT_SHIFT, KEYBOARD_RIGHT_SHIFT, KEYBOARD_CAPS_LOCK}")
  case True
  with assms show ?thesis by (auto simp: kbd_offered_def feed_press)
next
  case False
  show ?thesis
  proof (cases "b = KEYBOARD_EXTENDED_PREFIX \<or> extended_prefix_pending k \<or> b AND KEYBOARD_RELEASE_BIT \<noteq> 0")
    case True
    then show ?thesis
      by (elim disjE) (simp_all add: keyboard_feed_scancode_def Let_def)
  next
    case rel: False
    with False have "b = KEYBOARD_LEFT_SHIFT \<or> b = KEYBOARD_RIGHT_SHIFT \<or> b = KEYBOARD_CAPS_LOCK" by simp
    with rel show ?thesis
      by (elim disjE) (simp_all add: keyboard_feed_scancode_def Let_def)
  qed
qed

text \<open>The same keys by their place on a US keyboard: rows of letters, the digit row and three others.\<close>

definition key_row :: "nat \<times> string \<Rightarrow> (u8 \<times> char) list" where
  "key_row = (\<lambda>(first, keys). zip (map word_of_nat [first..<first + length keys]) keys)"

definition us_rows :: "bool \<Rightarrow> bool \<Rightarrow> (u8 \<times> char) list" where
  "us_rows shifted caps = concat (map key_row
     [(0x10, if shifted \<noteq> caps then ''QWERTYUIOP'' else ''qwertyuiop''),
      (0x1E, if shifted \<noteq> caps then ''ASDFGHJKL'' else ''asdfghjkl''),
      (0x2C, if shifted \<noteq> caps then ''ZXCVBNM'' else ''zxcvbnm''),
      (0x02, if shifted then ''!@#$%^&*()'' else ''1234567890''),
      (0x1C, [CHR 0x0A]), (0x0E, [CHR 0x08]), (0x39, '' '')])"

definition us_layout :: "bool \<Rightarrow> bool \<Rightarrow> u8 \<Rightarrow> char option" where
  "us_layout shifted caps b = map_of (us_rows shifted caps) b"

definition us_keys :: "u8 list" where
  "us_keys = map word_of_nat ([0x10..<0x1A] @ [0x1E..<0x27] @ [0x2C..<0x33] @ [0x02..<0x0C] @ [0x1C, 0x0E, 0x39])"

lemma us_keys_eq: "us_keys = [16, 17, 18, 19, 20, 21, 22, 23, 24, 25, 30, 31, 32, 33, 34, 35, 36, 37, 38,
    44, 45, 46, 47, 48, 49, 50, 2, 3, 4, 5, 6, 7, 8, 9, 10, 11, 28, 14, 57]"
  by (simp add: us_keys_def)

lemmas us_rows_explicit =
  us_rows_def [of True True, simplified key_row_def, simplified]
  us_rows_def [of True False, simplified key_row_def, simplified]
  us_rows_def [of False True, simplified key_row_def, simplified]
  us_rows_def [of False False, simplified key_row_def, simplified]

lemma us_layout_table:
  "list_all (\<lambda>b. kbd_translate b True True = us_layout True True b) us_keys"
  "list_all (\<lambda>b. kbd_translate b True False = us_layout True False b) us_keys"
  "list_all (\<lambda>b. kbd_translate b False True = us_layout False True b) us_keys"
  "list_all (\<lambda>b. kbd_translate b False False = us_layout False False b) us_keys"
  by (simp_all add: us_keys_eq us_layout_def us_rows_explicit kbd_translate_def letter_for_scancode_def
      digit_for_scancode_def char_of_def bit_0 map_of_Cons_code del: map_of.simps)

lemma digit_keys:
  assumes "\<not> (b < 0x02 \<or> b > (0x0B :: u8))"
  shows "b \<in> set us_keys"
proof -
  have "unat b \<in> set [0x02..<0x0C]" using assms by (auto simp: word_less_nat_alt simp del: upt_rec_numeral)
  then have "word_of_nat (unat b) \<in> set us_keys" unfolding us_keys_def set_map set_append by blast
  then show ?thesis by simp
qed

lemma other_keys: "b \<notin> set us_keys \<Longrightarrow> kbd_translate b s c = None \<and> us_layout s c b = None"
proof -
  assume b: "b \<notin> set us_keys"
  then have "digit_for_scancode b s = CHR 0x00" using digit_keys by (auto simp: digit_for_scancode_def)
  moreover have "letter_for_scancode b = CHR 0x00"
    using b by (simp add: letter_for_scancode_def us_keys_eq map_of_Cons_code del: map_of.simps)
  moreover have "us_layout s c b = None"
    using b by (cases s; cases c)
      (simp_all add: us_layout_def us_rows_explicit us_keys_eq map_of_Cons_code del: map_of.simps)
  ultimately show ?thesis using b by (simp add: kbd_translate_def us_keys_eq)
qed

lemma kbd_translate_layout: "kbd_translate b s c = us_layout s c b"
proof (cases "b \<in> set us_keys")
  case True
  then show ?thesis using us_layout_table by (cases s; cases c) (auto simp: list_all_iff)
qed (simp add: other_keys)

section \<open>Interrupts between the consumer's accesses\<close>

text \<open>
  \<open>keyboard_pop_char\<close> is four memory accesses, separated by compiler barriers: it loads
  \<open>read_sequence\<close>, loads \<open>write_sequence\<close> and compares, copies the character, stores the new
  \<open>read_sequence\<close>. IRQ1 may run between any two of them. The handler itself runs with interrupts disabled.
  The system carries the history of what the handler offered to the queue, what the queue
  accepted and what the consumer got.
\<close>

datatype consumer = Idle | Read_Loaded u32 | Not_Empty u32 | Char_Loaded u32 char

record kbd_system =
  kbd :: keyboard
  consumer :: consumer
  offered :: "char list"
  accepted :: "char list"
  delivered :: "char list"

definition irq_offers :: "u8 \<Rightarrow> u8 \<Rightarrow> keyboard \<Rightarrow> char list" where
  "irq_offers status data k =
     (if status AND KEYBOARD_STATUS_OUTPUT_FULL = 0 then []
      else case kbd_offered data k of None \<Rightarrow> [] | Some c \<Rightarrow> [c])"

definition irq_accepts :: "u8 \<Rightarrow> u8 \<Rightarrow> keyboard \<Rightarrow> char list" where
  "irq_accepts status data k =
     (if status AND KEYBOARD_STATUS_OUTPUT_FULL \<noteq> 0 \<and> fst (keyboard_feed_scancode data k)
      then irq_offers status data k else [])"

inductive kbd_step :: "kbd_system \<Rightarrow> kbd_system \<Rightarrow> bool" where
  irq: "kbd_step s (s\<lparr>kbd := keyboard_handle_irq status data (kbd s),
      offered := offered s @ irq_offers status data (kbd s),
      accepted := accepted s @ irq_accepts status data (kbd s)\<rparr>)"
| load_read: "consumer s = Idle \<Longrightarrow> kbd_step s (s\<lparr>consumer := Read_Loaded (read_sequence (kbd s))\<rparr>)"
| found_empty: "consumer s = Read_Loaded r \<Longrightarrow> r = write_sequence (kbd s) \<Longrightarrow> kbd_step s (s\<lparr>consumer := Idle\<rparr>)"
| found_some: "consumer s = Read_Loaded r \<Longrightarrow> r \<noteq> write_sequence (kbd s) \<Longrightarrow> kbd_step s (s\<lparr>consumer := Not_Empty r\<rparr>)"
| load_char: "consumer s = Not_Empty r \<Longrightarrow>
    kbd_step s (s\<lparr>consumer := Char_Loaded r (character_queue (kbd s) ! unat (r AND KEYBOARD_QUEUE_MASK))\<rparr>)"
| store_read: "consumer s = Char_Loaded r c \<Longrightarrow>
    kbd_step s (s\<lparr>kbd := (kbd s)\<lparr>read_sequence := r + 1\<rparr>, consumer := Idle, delivered := delivered s @ [c]\<rparr>)"

text \<open>What the consumer's registers know is still true of the queue, whatever the interrupt did since.\<close>

definition consumer_ok :: "kbd_system \<Rightarrow> bool" where
  "consumer_ok s = (case consumer s of
     Idle \<Rightarrow> True
   | Read_Loaded r \<Rightarrow> r = read_sequence (kbd s)
   | Not_Empty r \<Rightarrow> r = read_sequence (kbd s) \<and> kbd_contents (kbd s) \<noteq> []
   | Char_Loaded r c \<Rightarrow> r = read_sequence (kbd s) \<and> kbd_contents (kbd s) \<noteq> [] \<and> c = hd (kbd_contents (kbd s)))"

definition kbd_system_ok :: "kbd_system \<Rightarrow> bool" where
  "kbd_system_ok s \<longleftrightarrow> kbd_wf (kbd s) \<and> consumer_ok s \<and> accepted s = delivered s @ kbd_contents (kbd s) \<and>
     subseq (accepted s) (offered s) \<and>
     of_nat (length (offered s)) = of_nat (length (accepted s)) + dropped_characters (kbd s)"

lemma queue_push_read: "read_sequence (snd (queue_push c k)) = read_sequence k"
  by (simp add: queue_push_def Let_def)

lemma irq_effect:
  assumes wf: "kbd_wf k"
  shows "kbd_wf (keyboard_handle_irq st b k)" and "read_sequence (keyboard_handle_irq st b k) = read_sequence k"
    and "kbd_contents (keyboard_handle_irq st b k) = kbd_contents k @ irq_accepts st b k"
    and "dropped_characters (keyboard_handle_irq st b k) + of_nat (length (irq_accepts st b k)) =
      dropped_characters k + of_nat (length (irq_offers st b k))"
proof -
  have "kbd_wf (keyboard_handle_irq st b k) \<and> read_sequence (keyboard_handle_irq st b k) = read_sequence k \<and>
    kbd_contents (keyboard_handle_irq st b k) = kbd_contents k @ irq_accepts st b k \<and>
    dropped_characters (keyboard_handle_irq st b k) + of_nat (length (irq_accepts st b k)) =
      dropped_characters k + of_nat (length (irq_offers st b k))"
  proof (cases "st AND KEYBOARD_STATUS_OUTPUT_FULL = 0")
    case True
    with wf show ?thesis by (simp add: keyboard_handle_irq_def irq_accepts_def irq_offers_def)
  next
    case False
    show ?thesis
    proof (cases "kbd_offered b k")
      case None
      from feed_not_offered [OF this] False None wf show ?thesis
        by (auto simp: keyboard_handle_irq_def irq_accepts_def irq_offers_def kbd_quietD)
    next
      case (Some c)
      have "length (kbd_contents k) < 64 \<or> length (kbd_contents k) = 64"
        using kbd_fifo.bound [OF wf] by auto
      with False Some queue_push_ok [OF wf, of c] queue_push_full [OF wf, of c] wf show ?thesis
        by (auto simp: keyboard_handle_irq_def irq_accepts_def irq_offers_def feed_offered queue_push_read)
    qed
  qed
  then show "kbd_wf (keyboard_handle_irq st b k)" "read_sequence (keyboard_handle_irq st b k) = read_sequence k"
    "kbd_contents (keyboard_handle_irq st b k) = kbd_contents k @ irq_accepts st b k"
    "dropped_characters (keyboard_handle_irq st b k) + of_nat (length (irq_accepts st b k)) =
      dropped_characters k + of_nat (length (irq_offers st b k))" by blast+
qed

lemma irq_subseq: "subseq (irq_accepts st b k) (irq_offers st b k)"
  by (simp add: irq_accepts_def)

lemma kbd_step_ok: "kbd_step s s' \<Longrightarrow> kbd_system_ok s \<Longrightarrow> kbd_system_ok s'"
proof (induction rule: kbd_step.induct)
  case (irq s st b)
  then have wf: "kbd_wf (kbd s)" by (simp add: kbd_system_ok_def)
  note e = irq_effect [OF wf, of st b]
  show ?case
    using irq e(1-3) e(4) [symmetric] list_emb_append_mono [OF _ irq_subseq, of "accepted s" "offered s"]
    by (auto simp: kbd_system_ok_def consumer_ok_def algebra_simps split: consumer.splits)
next
  case (store_read s r c)
  with keyboard_pop_cases(2) [of "kbd s"] show ?case
    by (auto simp: kbd_system_ok_def consumer_ok_def)
next
  case (load_char s r)
  with keyboard_pop_cases(2) [of "kbd s"] show ?case
    by (auto simp: kbd_system_ok_def consumer_ok_def)
qed (auto simp: kbd_system_ok_def consumer_ok_def kbd_empty_iff)

lemma kbd_steps_ok: "kbd_step\<^sup>*\<^sup>* s s' \<Longrightarrow> kbd_system_ok s \<Longrightarrow> kbd_system_ok s'"
  by (induction rule: rtranclp_induct) (auto intro: kbd_step_ok)

section \<open>Properties\<close>

text \<open>
  (C38) The decoder implements the US layout: with no prefix pending, a plain key press offers the queue
  exactly the character the layout has at that place (letters upper case when exactly one of
  shift and caps lock is on, the digit row by shift alone), the shift keys follow their press
  and release codes, caps lock toggles on press, every other release is ignored, and a byte
  after the prefix \<open>0xE0\<close> has no effect at all.
\<close>

theorem keyboard_decodes_us_layout:
  assumes np: "\<not> extended_prefix_pending k"
  shows "(b < 0x80 \<and> b \<notin> {0x2A, 0x36, 0x3A} \<longrightarrow> keyboard_feed_scancode b k =
      (case us_layout (left_shift_down k \<or> right_shift_down k) (caps_lock_enabled k) b of
         None \<Rightarrow> (False, k) | Some c \<Rightarrow> queue_push c k))
    \<and> keyboard_feed_scancode 0x2A k = (False, k\<lparr>left_shift_down := True\<rparr>)
    \<and> keyboard_feed_scancode 0xAA k = (False, k\<lparr>left_shift_down := False\<rparr>)
    \<and> keyboard_feed_scancode 0x36 k = (False, k\<lparr>right_shift_down := True\<rparr>)
    \<and> keyboard_feed_scancode 0xB6 k = (False, k\<lparr>right_shift_down := False\<rparr>)
    \<and> keyboard_feed_scancode 0x3A k = (False, k\<lparr>caps_lock_enabled := \<not> caps_lock_enabled k\<rparr>)
    \<and> (b \<ge> 0x80 \<and> b \<notin> {0xAA, 0xB6, 0xE0} \<longrightarrow> keyboard_feed_scancode b k = (False, k))
    \<and> (b \<noteq> 0xE0 \<longrightarrow> keyboard_feed_scancode b (snd (keyboard_feed_scancode 0xE0 k)) = (False, k))"
proof -
  have press: "b AND KEYBOARD_RELEASE_BIT = 0 \<longleftrightarrow> b < 0x80" by (rule release_bit_iff)
  have "b \<ge> 0x80 \<and> b \<notin> {0xAA, 0xB6, 0xE0} \<longrightarrow> keyboard_feed_scancode b k = (False, k)"
  proof
    assume b: "b \<ge> 0x80 \<and> b \<notin> {0xAA, 0xB6, 0xE0}"
    then have rel: "b AND KEYBOARD_RELEASE_BIT \<noteq> 0" using press by (simp add: not_less)
    have "b AND NOT KEYBOARD_RELEASE_BIT \<noteq> 0x2A" "b AND NOT KEYBOARD_RELEASE_BIT \<noteq> 0x36"
      using b released_code [OF rel] by auto
    then show "keyboard_feed_scancode b k = (False, k)"
      unfolding keyboard_feed_scancode_def Let_def using b np rel by simp
  qed
  moreover have "b < 0x80 \<and> b \<notin> {0x2A, 0x36, 0x3A} \<longrightarrow> keyboard_feed_scancode b k =
      (case us_layout (left_shift_down k \<or> right_shift_down k) (caps_lock_enabled k) b of
         None \<Rightarrow> (False, k) | Some c \<Rightarrow> queue_push c k)"
    using np feed_press [of b k] press by (cases "b = 0xE0") (auto simp: kbd_translate_layout)
  moreover have "b \<noteq> 0xE0 \<longrightarrow> keyboard_feed_scancode b (snd (keyboard_feed_scancode 0xE0 k)) = (False, k)"
    using np by (simp add: keyboard_feed_scancode_def)
  ultimately show ?thesis
    using np by (simp add: keyboard_feed_scancode_def Let_def)
qed

definition example_keyboard :: keyboard where
  "example_keyboard = \<lparr>character_queue = replicate 64 (CHR ''x''), write_sequence = 2, read_sequence = - 62,
     dropped_characters = 0, left_shift_down = True, right_shift_down = False, caps_lock_enabled = False,
     extended_prefix_pending = False\<rparr>"

theorem keyboard_decodes_us_layout_witness:
  "keyboard_feed_scancode 0x1E (keyboard_init example_keyboard) = queue_push (CHR ''a'') (keyboard_init example_keyboard) \<and>
   keyboard_feed_scancode 0x03 example_keyboard = (False, example_keyboard\<lparr>dropped_characters := 1\<rparr>) \<and>
   keyboard_feed_scancode 0x2A (snd (keyboard_feed_scancode 0xE0 (keyboard_init example_keyboard))) =
     (False, keyboard_init example_keyboard)"
proof -
  define k where "k = keyboard_init example_keyboard"
  have k: "\<not> extended_prefix_pending k" "\<not> left_shift_down k" "\<not> right_shift_down k" "\<not> caps_lock_enabled k"
    by (simp_all add: k_def keyboard_init_def)
  have e: "\<not> extended_prefix_pending example_keyboard" "left_shift_down example_keyboard"
    "\<not> caps_lock_enabled example_keyboard" by (simp_all add: example_keyboard_def)
  have "us_layout False False 0x1E = Some (CHR ''a'')" "us_layout True False 0x03 = Some (CHR ''@'')"
    by (simp_all add: us_layout_def us_rows_explicit)
  moreover have "queue_push (CHR ''@'') example_keyboard = (False, example_keyboard\<lparr>dropped_characters := 1\<rparr>)"
    by (simp add: queue_push_def example_keyboard_def)
  ultimately have "keyboard_feed_scancode 0x1E k = queue_push (CHR ''a'') k"
    "keyboard_feed_scancode 0x03 example_keyboard = (False, example_keyboard\<lparr>dropped_characters := 1\<rparr>)"
    using keyboard_decodes_us_layout [OF k(1), of "0x1E"] k keyboard_decodes_us_layout [OF e(1), of "0x03"] e
    by simp_all
  moreover have "keyboard_feed_scancode 0x2A (snd (keyboard_feed_scancode 0xE0 k)) = (False, k)"
    using keyboard_decodes_us_layout [OF k(1), of "0x2A"] by simp
  ultimately show ?thesis unfolding k_def by blast
qed

text \<open>
  (C4) The lock-free queue between IRQ1 and the main loop. Started from \<open>keyboard_init\<close>, under every
  interleaving of interrupts with the single memory accesses of \<open>keyboard_pop_char\<close>, the
  consumer gets exactly the accepted characters in order: what was accepted is what was
  delivered followed by at most 64 characters still queued. The accepted characters are a
  subsequence of the offered ones and the drop counter is the number of the others (modulo its width).
\<close>

theorem keyboard_interleaving_fifo:
  assumes "length (character_queue k) = KEYBOARD_QUEUE_CAPACITY"
    and "kbd_step\<^sup>*\<^sup>* \<lparr>kbd = keyboard_init k, consumer = Idle, offered = [], accepted = [], delivered = []\<rparr> s"
  shows "accepted s = delivered s @ kbd_contents (kbd s) \<and> length (kbd_contents (kbd s)) \<le> KEYBOARD_QUEUE_CAPACITY
    \<and> subseq (accepted s) (offered s)
    \<and> keyboard_dropped_count (kbd s) = of_nat (length (offered s) - length (accepted s))"
proof -
  have "kbd_system_ok \<lparr>kbd = keyboard_init k, consumer = Idle, offered = [], accepted = [], delivered = []\<rparr>"
    using assms(1) by (simp add: kbd_system_ok_def kbd_wf_def keyboard_init_def consumer_ok_def kbd_contents_def)
  from kbd_steps_ok [OF assms(2) this] have ok: "kbd_system_ok s" .
  then have "length (accepted s) \<le> length (offered s)"
    by (auto simp: kbd_system_ok_def dest: list_emb_length)
  with ok have "dropped_characters (kbd s) = of_nat (length (offered s) - length (accepted s))"
    by (simp add: kbd_system_ok_def of_nat_diff)
  with ok kbd_fifo.bound [of "kbd s"] show ?thesis
    by (auto simp: kbd_system_ok_def keyboard_dropped_count_def)
qed

theorem keyboard_interleaving_fifo_witness:
  "\<exists>s. kbd_step\<^sup>*\<^sup>* \<lparr>kbd = keyboard_init example_keyboard, consumer = Idle, offered = [], accepted = [], delivered = []\<rparr> s \<and>
     accepted s = delivered s @ kbd_contents (kbd s) \<and> accepted s = ''a'' \<and>
     keyboard_dropped_count (kbd s) = of_nat (length (offered s) - length (accepted s))"
proof -
  define k where "k = keyboard_init example_keyboard"
  define i where "i = \<lparr>kbd = k, consumer = Idle, offered = [], accepted = [], delivered = []\<rparr>"
  define s1 where "s1 = i\<lparr>consumer := Read_Loaded (read_sequence k)\<rparr>"
  define s where "s = s1\<lparr>kbd := keyboard_handle_irq 1 0x1E k, offered := irq_offers 1 0x1E k,
    accepted := irq_accepts 1 0x1E k\<rparr>"
  have "kbd_step i s1" using load_read [of i] by (simp add: s1_def i_def)
  moreover have "kbd_step s1 s" using irq [of s1 1 "0x1E"] by (simp add: s_def s1_def i_def)
  ultimately have r: "kbd_step\<^sup>*\<^sup>* i s" by auto
  have len: "length (character_queue example_keyboard) = 64" by (simp add: example_keyboard_def)
  note t = keyboard_interleaving_fifo [OF len r [unfolded i_def k_def]]
  have "kbd_offered 0x1E k = Some (CHR ''a'')"
    by (simp add: k_def kbd_offered_def keyboard_init_def kbd_translate_def letter_for_scancode_def)
  moreover have "fst (queue_push (CHR ''a'') k)" by (simp add: k_def queue_push_def keyboard_init_def)
  ultimately have "accepted s = ''a''" by (simp add: s_def irq_accepts_def irq_offers_def feed_offered)
  with t r [unfolded i_def k_def] show ?thesis by blast
qed

text \<open>
  Run without interruption, the consumer's four accesses do what \<open>keyboard_pop_char\<close> does as one call:
  its result is what is delivered and its final state is theirs.
\<close>

theorem keyboard_pop_char_steps:
  assumes "consumer s = Idle"
  shows "kbd_step\<^sup>*\<^sup>* s (s\<lparr>kbd := snd (keyboard_pop_char True (kbd s)),
    delivered := delivered s @ (case fst (keyboard_pop_char True (kbd s)) of None \<Rightarrow> [] | Some c \<Rightarrow> [c])\<rparr>)"
proof -
  let ?r = "read_sequence (kbd s)"
  let ?s1 = "s\<lparr>consumer := Read_Loaded ?r\<rparr>"
  have l: "kbd_step s ?s1" by (rule load_read [OF assms])
  have idle_upd: "s\<lparr>kbd := x, consumer := Idle, delivered := y\<rparr> = s\<lparr>kbd := x, delivered := y\<rparr>" for x y
    using assms by (cases s) simp
  have idle: "s\<lparr>consumer := Idle\<rparr> = s" using assms by simp
  show ?thesis
  proof (cases "?r = write_sequence (kbd s)")
    case True
    have "kbd_step ?s1 (s\<lparr>consumer := Idle\<rparr>)" using found_empty [of ?s1 ?r] True by simp
    with l True show ?thesis by (auto simp: keyboard_pop_char_def idle)
  next
    case False
    let ?c = "character_queue (kbd s) ! unat (?r AND KEYBOARD_QUEUE_MASK)"
    let ?s2 = "s\<lparr>consumer := Not_Empty ?r\<rparr>" and ?s3 = "s\<lparr>consumer := Char_Loaded ?r ?c\<rparr>"
    have "kbd_step ?s1 ?s2" using found_some [of ?s1 ?r] False by simp
    moreover have "kbd_step ?s2 ?s3" using load_char [of ?s2 ?r] by simp
    moreover have "kbd_step ?s3 (s\<lparr>kbd := (kbd s)\<lparr>read_sequence := ?r + 1\<rparr>, delivered := delivered s @ [?c]\<rparr>)"
      using store_read [of ?s3 ?r ?c] idle_upd by simp
    ultimately show ?thesis
      using l False by (auto simp: keyboard_pop_char_def Let_def intro: converse_rtranclp_into_rtranclp)
  qed
qed

theorem keyboard_pop_char_steps_witness:
  "\<exists>s'. kbd_step\<^sup>*\<^sup>* \<lparr>kbd = example_keyboard, consumer = Idle, offered = [], accepted = [], delivered = []\<rparr> s' \<and>
     delivered s' = ''x''"
  using keyboard_pop_char_steps [of "\<lparr>kbd = example_keyboard, consumer = Idle, offered = [], accepted = [], delivered = []\<rparr>"]
  by (intro exI conjI) (simp, simp add: example_keyboard_def keyboard_pop_char_def)

end
