(* ===== verification/C_String.thy ===== *)
theory C_String
  imports Kernel_Prelude
begin

text \<open>
  Character arrays read through a pointer. A pointer argument is the list of the characters from
  it on; an index at the end of the list is the terminator. \<open>c_str\<close> is the text of the string.
\<close>

abbreviation NUL :: char where "NUL \<equiv> CHR 0x00"

definition c_at :: "string \<Rightarrow> nat \<Rightarrow> char" where
  "c_at s i = (if i < length s then s ! i else NUL)"

definition c_str :: "string \<Rightarrow> string" where
  "c_str s = takeWhile (\<lambda>c. c \<noteq> NUL) s"

lemma c_at_Nil [simp]: "c_at [] i = NUL"
  by (simp add: c_at_def)

lemma c_at_Cons_0 [simp]: "c_at (c # s) 0 = c"
  by (simp add: c_at_def)

lemma c_at_Cons_Suc [simp]: "c_at (c # s) (Suc i) = c_at s i"
  by (simp add: c_at_def)

lemma c_str_no_NUL: "NUL \<notin> set (c_str s)"
  by (auto simp: c_str_def dest: set_takeWhileD)

lemma c_str_text [simp]: "NUL \<notin> set s \<Longrightarrow> c_str s = s"
  by (auto simp: c_str_def takeWhile_eq_all_conv)

lemma c_str_idem [simp]: "c_str (c_str s) = c_str s"
  by (simp add: c_str_no_NUL)

lemma c_str_append_NUL [simp]: "c_str (s @ NUL # t) = c_str s"
  by (induction s) (auto simp: c_str_def)

text \<open>The length of the text is the first index that holds the terminator.\<close>

lemma c_str_length: "length (c_str s) = n \<longleftrightarrow> c_at s n = NUL \<and> (\<forall>j < n. c_at s j \<noteq> NUL)"
proof (induction s arbitrary: n)
  case Nil
  then show ?case by (auto simp: c_str_def)
next
  case (Cons c s)
  show ?case
  proof (cases n)
    case 0
    then show ?thesis by (simp add: c_str_def)
  next
    case (Suc m)
    then show ?thesis using Cons [of m] by (auto simp: c_str_def less_Suc_eq_0_disj)
  qed
qed

lemma c_at_before: "j < length (c_str s) \<Longrightarrow> c_at s j = c_str s ! j"
  unfolding c_str_def c_at_def using length_takeWhile_le [of "\<lambda>c. c \<noteq> NUL" s]
  by (auto simp: takeWhile_nth)

lemma c_at_end: "c_at s (length (c_str s)) = NUL"
  using c_str_length by blast

lemma c_at_no_NUL: "j < length (c_str s) \<Longrightarrow> c_at s j \<noteq> NUL"
  using c_str_length by blast

lemma c_str_map: "c_str s = map (c_at s) [0..<length (c_str s)]"
  by (rule nth_equalityI) (simp_all add: c_at_before)

lemma c_str_cong:
  assumes "length (c_str s) = n" and "\<And>j. j \<le> n \<Longrightarrow> c_at t j = c_at s j"
  shows "c_str t = c_str s"
proof -
  have "length (c_str t) = n"
    unfolding c_str_length using assms c_str_length [of s n] by auto
  then show ?thesis
    using assms c_str_map [of s] c_str_map [of t] by (simp cong: map_cong)
qed

lemma c_str_eqD:
  assumes "c_str s = c_str t" and "j \<le> length (c_str s)"
  shows "c_at s j = c_at t j"
  using assms c_at_end [of s] c_at_end [of t]
  by (cases "j = length (c_str s)") (simp_all add: c_at_before)

end
