(* ===== verification/Ramfs.thy ===== *)
theory Ramfs
  imports C_String
begin

text \<open>
  The RAM file system, \<open>kernel/fs/ramfs.c\<close>: sixteen slots of a name and up to 512 bytes. A pointer
  argument is an option, \<open>None\<close> for null; a name is the characters from its pointer on.
  The specification is a finite map from names to contents.
\<close>

section \<open>State and operations\<close>

abbreviation RAMFS_MAX_FILES :: nat where "RAMFS_MAX_FILES \<equiv> 16"
abbreviation RAMFS_NAME_MAX :: nat where "RAMFS_NAME_MAX \<equiv> 31"
abbreviation RAMFS_FILE_MAX_BYTES :: nat where "RAMFS_FILE_MAX_BYTES \<equiv> 512"

datatype ramfs_result =
    RAMFS_RESULT_OK
  | RAMFS_RESULT_INVALID_ARGUMENT
  | RAMFS_RESULT_INVALID_NAME
  | RAMFS_RESULT_NOT_FOUND
  | RAMFS_RESULT_ALREADY_EXISTS
  | RAMFS_RESULT_NO_SPACE
  | RAMFS_RESULT_TOO_LARGE

record ramfs_slot =
  alive :: bool
  slot_name :: "char list"
  slot_data :: "u8 list"
  slot_length :: u32

record ramfs =
  slots :: "ramfs_slot list"
  live_file_count :: u32

definition clear_slot :: "ramfs_slot \<Rightarrow> ramfs_slot" where
  "clear_slot slot = slot\<lparr>alive := False, slot_length := 0,
     slot_name := fold (\<lambda>index n. n[index := NUL]) [0..<RAMFS_NAME_MAX + 1] (slot_name slot),
     slot_data := fold (\<lambda>index d. d[index := 0]) [0..<RAMFS_FILE_MAX_BYTES] (slot_data slot)\<rparr>"

definition name_char_allowed :: "char \<Rightarrow> bool" where
  "name_char_allowed character \<longleftrightarrow>
     (let code = (of_char character :: nat) in
      (of_char CHR ''a'' \<le> code \<and> code \<le> of_char CHR ''z'') \<or>
      (of_char CHR ''A'' \<le> code \<and> code \<le> of_char CHR ''Z'') \<or>
      (of_char CHR ''0'' \<le> code \<and> code \<le> of_char CHR ''9'') \<or>
      character = CHR ''.'' \<or> character = CHR ''_'' \<or> character = CHR ''-'')"

text \<open>The scanning loop of \<open>name_is_valid\<close> from index \<open>len\<close> on.\<close>

function name_scan :: "string \<Rightarrow> nat \<Rightarrow> bool" where
  "name_scan name len =
     (if len \<le> RAMFS_NAME_MAX then
        (let character = c_at name len in
         if character = NUL then
           (if len = 0 then False
            else if len = 1 \<and> c_at name 0 = CHR ''.'' then False
            else if len = 2 \<and> c_at name 0 = CHR ''.'' \<and> c_at name 1 = CHR ''.'' then False
            else True)
         else if \<not> name_char_allowed character then False
         else name_scan name (len + 1))
      else False)"
  by pat_completeness auto
termination
  by (relation "measure (\<lambda>(name, len). RAMFS_NAME_MAX + 1 - len)") auto

declare name_scan.simps [simp del]

definition name_is_valid :: "string option \<Rightarrow> bool" where
  "name_is_valid name = (case name of None \<Rightarrow> False | Some name \<Rightarrow> name_scan name 0)"

function names_equal_from :: "string \<Rightarrow> string \<Rightarrow> nat \<Rightarrow> bool" where
  "names_equal_from left right index =
     (if index \<le> RAMFS_NAME_MAX then
        (if c_at left index \<noteq> c_at right index then False
         else if c_at left index = NUL then True
         else names_equal_from left right (index + 1))
      else False)"
  by pat_completeness auto
termination
  by (relation "measure (\<lambda>(left, right, index). RAMFS_NAME_MAX + 1 - index)") auto

declare names_equal_from.simps [simp del]

definition names_equal :: "string \<Rightarrow> string \<Rightarrow> bool" where
  "names_equal left right = names_equal_from left right 0"

text \<open>A slot pointer is its index.\<close>

definition find_slot :: "string \<Rightarrow> ramfs \<Rightarrow> nat option" where
  "find_slot name fs =
     find (\<lambda>index. alive (slots fs ! index) \<and> names_equal (slot_name (slots fs ! index)) name) [0..<RAMFS_MAX_FILES]"

definition find_empty_slot :: "ramfs \<Rightarrow> nat option" where
  "find_empty_slot fs = find (\<lambda>index. \<not> alive (slots fs ! index)) [0..<RAMFS_MAX_FILES]"

definition ramfs_init :: "ramfs \<Rightarrow> ramfs" where
  "ramfs_init fs = fs\<lparr>slots := fold (\<lambda>index s. s[index := clear_slot (s ! index)]) [0..<RAMFS_MAX_FILES] (slots fs),
     live_file_count := 0\<rparr>"

text \<open>The copying loop of \<open>ramfs_create\<close>, which ends at the terminator it copies.\<close>

function copy_name :: "string \<Rightarrow> nat \<Rightarrow> char list \<Rightarrow> char list" where
  "copy_name name index dest =
     (if index \<le> RAMFS_NAME_MAX then
        (let dest = dest[index := c_at name index] in
         if c_at name index = NUL then dest else copy_name name (index + 1) dest)
      else dest)"
  by pat_completeness auto
termination
  by (relation "measure (\<lambda>(name, index, dest). RAMFS_NAME_MAX + 1 - index)") auto

declare copy_name.simps [simp del]

definition ramfs_create :: "string option \<Rightarrow> ramfs \<Rightarrow> ramfs_result \<times> ramfs" where
  "ramfs_create name fs =
     (case name of None \<Rightarrow> (RAMFS_RESULT_INVALID_ARGUMENT, fs)
      | Some nm \<Rightarrow>
        if \<not> name_is_valid name then (RAMFS_RESULT_INVALID_NAME, fs)
        else if find_slot nm fs \<noteq> None then (RAMFS_RESULT_ALREADY_EXISTS, fs)
        else case find_empty_slot fs of
          None \<Rightarrow> (RAMFS_RESULT_NO_SPACE, fs)
        | Some slot \<Rightarrow>
            let cleared = clear_slot (slots fs ! slot) in
            (RAMFS_RESULT_OK, fs\<lparr>slots := (slots fs)[slot := cleared
                \<lparr>slot_name := copy_name nm 0 (slot_name cleared), alive := True\<rparr>],
              live_file_count := live_file_count fs + 1\<rparr>))"

definition ramfs_write :: "string option \<Rightarrow> u8 list option \<Rightarrow> u32 \<Rightarrow> ramfs \<Rightarrow> ramfs_result \<times> ramfs" where
  "ramfs_write name data len fs =
     (case name of None \<Rightarrow> (RAMFS_RESULT_INVALID_ARGUMENT, fs)
      | Some nm \<Rightarrow>
        if data = None \<and> len \<noteq> 0 then (RAMFS_RESULT_INVALID_ARGUMENT, fs)
        else if \<not> name_is_valid name then (RAMFS_RESULT_INVALID_NAME, fs)
        else case find_slot nm fs of
          None \<Rightarrow> (RAMFS_RESULT_NOT_FOUND, fs)
        | Some slot \<Rightarrow>
            if len > of_nat RAMFS_FILE_MAX_BYTES then (RAMFS_RESULT_TOO_LARGE, fs)
            else
              (RAMFS_RESULT_OK, fs\<lparr>slots := (slots fs)[slot := (slots fs ! slot)
                 \<lparr>slot_data := fold (\<lambda>index d. d[index := if of_nat index < len then the data ! index else 0])
                     [0..<RAMFS_FILE_MAX_BYTES] (slot_data (slots fs ! slot)),
                  slot_length := len\<rparr>]\<rparr>))"

definition ramfs_append :: "string option \<Rightarrow> u8 list option \<Rightarrow> u32 \<Rightarrow> ramfs \<Rightarrow> ramfs_result \<times> ramfs" where
  "ramfs_append name data len fs =
     (case name of None \<Rightarrow> (RAMFS_RESULT_INVALID_ARGUMENT, fs)
      | Some nm \<Rightarrow>
        if data = None \<and> len \<noteq> 0 then (RAMFS_RESULT_INVALID_ARGUMENT, fs)
        else if \<not> name_is_valid name then (RAMFS_RESULT_INVALID_NAME, fs)
        else case find_slot nm fs of
          None \<Rightarrow> (RAMFS_RESULT_NOT_FOUND, fs)
        | Some slot \<Rightarrow>
            let s = slots fs ! slot in
            if len > of_nat RAMFS_FILE_MAX_BYTES - slot_length s then (RAMFS_RESULT_TOO_LARGE, fs)
            else
              (RAMFS_RESULT_OK, fs\<lparr>slots := (slots fs)[slot := s
                 \<lparr>slot_data := fold (\<lambda>index d. d[unat (slot_length s + of_nat index) := the data ! index])
                     [0..<unat len] (slot_data s),
                  slot_length := slot_length s + len\<rparr>]\<rparr>))"

text \<open>
  \<open>ramfs_read\<close> takes the caller's buffer, its capacity and whether the length pointer is
  non-null; it returns the buffer afterwards and the length it stores, if it stores one.
\<close>

definition ramfs_read :: "string option \<Rightarrow> u8 list option \<Rightarrow> u32 \<Rightarrow> bool \<Rightarrow> ramfs \<Rightarrow>
    ramfs_result \<times> u8 list option \<times> u32 option" where
  "ramfs_read name data capacity len_ptr fs =
     (case name of None \<Rightarrow> (RAMFS_RESULT_INVALID_ARGUMENT, data, None)
      | Some nm \<Rightarrow>
        if \<not> len_ptr then (RAMFS_RESULT_INVALID_ARGUMENT, data, None)
        else if \<not> name_is_valid name then (RAMFS_RESULT_INVALID_NAME, data, None)
        else case find_slot nm fs of
          None \<Rightarrow> (RAMFS_RESULT_NOT_FOUND, data, None)
        | Some slot \<Rightarrow>
            let s = slots fs ! slot in
            if data = None \<and> (slot_length s \<noteq> 0 \<or> capacity \<noteq> 0) then (RAMFS_RESULT_INVALID_ARGUMENT, data, None)
            else if capacity < slot_length s then (RAMFS_RESULT_TOO_LARGE, data, None)
            else (RAMFS_RESULT_OK,
              map_option (fold (\<lambda>index d. d[index := slot_data s ! index]) [0..<unat (slot_length s)]) data,
              Some (slot_length s)))"

definition ramfs_remove :: "string option \<Rightarrow> ramfs \<Rightarrow> ramfs_result \<times> ramfs" where
  "ramfs_remove name fs =
     (case name of None \<Rightarrow> (RAMFS_RESULT_INVALID_ARGUMENT, fs)
      | Some nm \<Rightarrow>
        if \<not> name_is_valid name then (RAMFS_RESULT_INVALID_NAME, fs)
        else case find_slot nm fs of
          None \<Rightarrow> (RAMFS_RESULT_NOT_FOUND, fs)
        | Some slot \<Rightarrow>
            (RAMFS_RESULT_OK, fs\<lparr>slots := (slots fs)[slot := clear_slot (slots fs ! slot)],
               live_file_count := live_file_count fs - 1\<rparr>))"

definition ramfs_count :: "ramfs \<Rightarrow> u32" where
  "ramfs_count fs = live_file_count fs"

text \<open>The loop of \<open>ramfs_get_info\<close> over the slots from \<open>slot_index\<close> on.\<close>

function info_scan :: "u32 \<Rightarrow> nat \<Rightarrow> u32 \<Rightarrow> ramfs \<Rightarrow> (char list \<times> u32) option" where
  "info_scan index slot_index live_index fs =
     (if slot_index < RAMFS_MAX_FILES then
        (if \<not> alive (slots fs ! slot_index) then info_scan index (slot_index + 1) live_index fs
         else if live_index \<noteq> index then info_scan index (slot_index + 1) (live_index + 1) fs
         else Some (map (\<lambda>name_index. slot_name (slots fs ! slot_index) ! name_index) [0..<RAMFS_NAME_MAX + 1],
                    slot_length (slots fs ! slot_index)))
      else None)"
  by pat_completeness auto
termination
  by (relation "measure (\<lambda>(index, slot_index, live_index, fs). RAMFS_MAX_FILES - slot_index)") auto

declare info_scan.simps [simp del]

definition ramfs_get_info :: "u32 \<Rightarrow> bool \<Rightarrow> ramfs \<Rightarrow> (char list \<times> u32) option" where
  "ramfs_get_info index info fs = (if \<not> info then None else info_scan index 0 0 fs)"

text \<open>\<open>ramfs_validate\<close>: the checks of one slot, and the loop that counts the live ones.\<close>

definition slot_is_clear :: "ramfs_slot \<Rightarrow> bool" where
  "slot_is_clear slot \<longleftrightarrow> slot_length slot = 0 \<and>
     list_all (\<lambda>i. slot_name slot ! i = NUL) [0..<RAMFS_NAME_MAX + 1] \<and>
     list_all (\<lambda>i. slot_data slot ! i = 0) [0..<RAMFS_FILE_MAX_BYTES]"

definition slot_is_sound :: "nat \<Rightarrow> ramfs \<Rightarrow> bool" where
  "slot_is_sound index fs \<longleftrightarrow>
     (let slot = slots fs ! index in
      name_is_valid (Some (slot_name slot)) \<and> slot_length slot \<le> of_nat RAMFS_FILE_MAX_BYTES \<and>
      list_all (\<lambda>other_index. \<not> (alive (slots fs ! other_index) \<and>
          names_equal (slot_name slot) (slot_name (slots fs ! other_index))))
        [index + 1..<RAMFS_MAX_FILES])"

function validate_scan :: "nat \<Rightarrow> u32 \<Rightarrow> ramfs \<Rightarrow> bool" where
  "validate_scan index alive_count fs =
     (if index < RAMFS_MAX_FILES then
        (if \<not> alive (slots fs ! index) then
           slot_is_clear (slots fs ! index) \<and> validate_scan (index + 1) alive_count fs
         else slot_is_sound index fs \<and> validate_scan (index + 1) (alive_count + 1) fs)
      else alive_count = live_file_count fs)"
  by pat_completeness auto
termination
  by (relation "measure (\<lambda>(index, alive_count, fs). RAMFS_MAX_FILES - index)") auto

declare validate_scan.simps [simp del]

definition ramfs_validate :: "ramfs \<Rightarrow> bool" where
  "ramfs_validate fs =
     (if live_file_count fs > of_nat RAMFS_MAX_FILES then False else validate_scan 0 0 fs)"

section \<open>Names\<close>

definition valid_name :: "string \<Rightarrow> bool" where
  "valid_name w \<longleftrightarrow> w \<noteq> [] \<and> length w \<le> RAMFS_NAME_MAX \<and> w \<noteq> ''.'' \<and> w \<noteq> ''..'' \<and> list_all name_char_allowed w"

lemma NUL_not_allowed: "\<not> name_char_allowed NUL"
  by (simp add: name_char_allowed_def)

lemma name_scan_char:
  "\<forall>j < len. c_at name j \<noteq> NUL \<Longrightarrow> name_scan name len \<longleftrightarrow>
     (let w = c_str name in length w \<le> RAMFS_NAME_MAX \<and> (\<forall>j. len \<le> j \<and> j < length w \<longrightarrow> name_char_allowed (c_at name j)) \<and>
       w \<noteq> [] \<and> w \<noteq> ''.'' \<and> w \<noteq> ''..'')"
proof (induction name len rule: name_scan.induct)
  case (1 name len)
  consider "RAMFS_NAME_MAX < len" | "len \<le> RAMFS_NAME_MAX" "c_at name len = NUL" | "len \<le> RAMFS_NAME_MAX" "c_at name len \<noteq> NUL"
    by linarith
  then show ?case
  proof cases
    case 1
    then have "RAMFS_NAME_MAX < length (c_str name)"
      using "1.prems" c_at_end [of name] by (metis less_trans not_less_iff_gr_or_eq)
    with 1 show ?thesis by (subst name_scan.simps) (simp add: Let_def)
  next
    case 2
    then have len: "length (c_str name) = len" using "1.prems" c_str_length by blast
    have "c_str name = ''.'' \<longleftrightarrow> len = 1 \<and> c_at name 0 = CHR ''.''"
      using len c_at_before [of 0 name] by (auto simp: length_Suc_conv)
    moreover have "c_str name = ''..'' \<longleftrightarrow> len = 2 \<and> c_at name 0 = CHR ''.'' \<and> c_at name 1 = CHR ''.''"
      using len c_at_before [of 0 name] c_at_before [of 1 name] by (auto simp: length_Suc_conv numeral_2_eq_2)
    ultimately show ?thesis using 2 len by (subst name_scan.simps) (auto simp: Let_def)
  next
    case 3
    have lt: "len < length (c_str name)" using "1.prems" 3(2) c_at_end [of name] c_str_length
      by (metis linorder_neqE_nat)
    show ?thesis
    proof (cases "name_char_allowed (c_at name len)")
      case True
      have "\<forall>j < len + 1. c_at name j \<noteq> NUL" using "1.prems" 3(2) by (simp add: less_Suc_eq)
      from "1.IH" [OF 3(1) refl 3(2) _ this] True have "name_scan name (len + 1) \<longleftrightarrow>
        (let w = c_str name in length w \<le> RAMFS_NAME_MAX \<and> (\<forall>j. len + 1 \<le> j \<and> j < length w \<longrightarrow> name_char_allowed (c_at name j)) \<and>
          w \<noteq> [] \<and> w \<noteq> ''.'' \<and> w \<noteq> ''..'')" by blast
      moreover have "(\<forall>j. len + 1 \<le> j \<and> j < length (c_str name) \<longrightarrow> name_char_allowed (c_at name j)) \<longleftrightarrow>
        (\<forall>j. len \<le> j \<and> j < length (c_str name) \<longrightarrow> name_char_allowed (c_at name j))"
        using True by (metis Suc_eq_plus1 Suc_leD le_antisym not_less_eq_eq)
      ultimately show ?thesis using True 3 by (subst name_scan.simps) (simp add: Let_def)
    next
      case False
      with lt 3 show ?thesis by (subst name_scan.simps) (auto simp: Let_def)
    qed
  qed
qed

lemma name_is_valid_iff: "name_is_valid (Some name) \<longleftrightarrow> valid_name (c_str name)"
  using name_scan_char [of 0 name]
  by (auto simp: name_is_valid_def valid_name_def Let_def list_all_length c_at_before)

lemma names_equal_from_iff:
  "\<forall>j < i. c_at l j = c_at r j \<and> c_at l j \<noteq> NUL \<Longrightarrow>
   names_equal_from l r i \<longleftrightarrow> c_str l = c_str r \<and> length (c_str l) \<le> RAMFS_NAME_MAX"
proof (induction l r i rule: names_equal_from.induct)
  case (1 l r i)
  consider "RAMFS_NAME_MAX < i" | "i \<le> RAMFS_NAME_MAX" "c_at l i \<noteq> c_at r i"
    | "i \<le> RAMFS_NAME_MAX" "c_at l i = c_at r i" "c_at l i = NUL"
    | "i \<le> RAMFS_NAME_MAX" "c_at l i = c_at r i" "c_at l i \<noteq> NUL" by linarith
  then show ?case
  proof cases
    case 1
    then have "RAMFS_NAME_MAX < length (c_str l)"
      using "1.prems" c_at_end [of l] by (metis less_trans not_less_iff_gr_or_eq)
    with 1 show ?thesis by (subst names_equal_from.simps) simp
  next
    case 2
    have "i \<le> length (c_str l)" using "1.prems" c_at_end [of l] by (metis not_less)
    with 2 c_str_eqD [of l r i] show ?thesis by (subst names_equal_from.simps) auto
  next
    case 3
    then have "length (c_str l) = i" using "1.prems" c_str_length by blast
    moreover have "c_str r = c_str l"
      using "1.prems" 3 by (intro c_str_cong [OF calculation]) (auto simp: le_less)
    ultimately show ?thesis using 3 by (subst names_equal_from.simps) simp
  next
    case 4
    have "\<forall>j < i + 1. c_at l j = c_at r j \<and> c_at l j \<noteq> NUL" using "1.prems" 4 by (auto simp: less_Suc_eq)
    from "1.IH" [OF 4(1) _ _ this] 4 show ?thesis by (subst names_equal_from.simps) simp
  qed
qed

lemma names_equal_iff: "names_equal l r \<longleftrightarrow> c_str l = c_str r \<and> length (c_str l) \<le> RAMFS_NAME_MAX"
  using names_equal_from_iff [of 0] by (simp add: names_equal_def)

lemma copy_name_at:
  assumes "length dest = RAMFS_NAME_MAX + 1" and "length (c_str name) \<le> RAMFS_NAME_MAX" and "i \<le> length (c_str name)"
  shows "length (copy_name name i dest) = length dest \<and>
    (\<forall>j. c_at (copy_name name i dest) j = (if i \<le> j \<and> j \<le> length (c_str name) then c_at name j else c_at dest j))"
  using assms
proof (induction name i dest rule: copy_name.induct)
  case (1 name i dest)
  let ?d = "dest[i := c_at name i]"
  have i: "i \<le> RAMFS_NAME_MAX" using "1.prems" by simp
  have upd: "c_at ?d j = (if j = i then c_at name i else c_at dest j)" for j
    using i "1.prems"(1) by (auto simp: c_at_def)
  show ?case
  proof (cases "i = length (c_str name)")
    case True
    then have "copy_name name i dest = ?d" using i c_at_end [of name] by (subst copy_name.simps) (simp add: Let_def)
    with True upd show ?thesis by auto
  next
    case False
    then have lt: "i < length (c_str name)" using "1.prems" by simp
    then have eq: "copy_name name i dest = copy_name name (i + 1) ?d"
      using i c_at_no_NUL [of i name] by (subst copy_name.simps) (simp add: Let_def)
    from "1.IH" [OF i refl] lt "1.prems" c_at_no_NUL [of i name]
    have "length (copy_name name (i + 1) ?d) = length ?d \<and>
      (\<forall>j. c_at (copy_name name (i + 1) ?d) j = (if i + 1 \<le> j \<and> j \<le> length (c_str name) then c_at name j else c_at ?d j))"
      by simp
    with eq upd lt show ?thesis by auto
  qed
qed

lemma copy_name_str:
  assumes "length dest = RAMFS_NAME_MAX + 1" and "length (c_str name) \<le> RAMFS_NAME_MAX"
  shows "length (copy_name name 0 dest) = RAMFS_NAME_MAX + 1" and "c_str (copy_name name 0 dest) = c_str name"
  using copy_name_at [OF assms, of 0] assms(1) by (auto intro: c_str_cong [OF refl])

section \<open>Invariant and abstraction\<close>

definition slot_file :: "ramfs_slot \<Rightarrow> string \<times> u8 list" where
  "slot_file slot = (c_str (slot_name slot), take (unat (slot_length slot)) (slot_data slot))"

definition live_files :: "ramfs_slot list \<Rightarrow> (string \<times> u8 list) list" where
  "live_files ss = map slot_file (filter alive ss)"

definition ramfs_view :: "ramfs \<Rightarrow> string \<Rightarrow> u8 list option" where
  "ramfs_view fs = map_of (live_files (slots fs))"

definition slot_shape :: "ramfs_slot \<Rightarrow> bool" where
  "slot_shape slot \<longleftrightarrow> length (slot_name slot) = RAMFS_NAME_MAX + 1 \<and> length (slot_data slot) = RAMFS_FILE_MAX_BYTES"

definition slot_wf :: "ramfs_slot \<Rightarrow> bool" where
  "slot_wf slot \<longleftrightarrow> slot_shape slot \<and>
     (if alive slot then valid_name (c_str (slot_name slot)) \<and> unat (slot_length slot) \<le> RAMFS_FILE_MAX_BYTES
      else slot_length slot = 0 \<and> slot_name slot = replicate (RAMFS_NAME_MAX + 1) NUL \<and>
        slot_data slot = replicate RAMFS_FILE_MAX_BYTES 0)"

definition ramfs_wf :: "ramfs \<Rightarrow> bool" where
  "ramfs_wf fs \<longleftrightarrow> length (slots fs) = RAMFS_MAX_FILES \<and> (\<forall>slot \<in> set (slots fs). slot_wf slot) \<and>
     distinct (map fst (live_files (slots fs))) \<and> live_file_count fs = of_nat (length (live_files (slots fs)))"

lemma live_files_append [simp]: "live_files (a @ b) = live_files a @ live_files b"
  by (simp add: live_files_def)

lemma live_files_Cons [simp]:
  "live_files (slot # b) = (if alive slot then slot_file slot # live_files b else live_files b)"
  by (simp add: live_files_def)

lemma live_files_Nil [simp]: "live_files [] = []"
  by (simp add: live_files_def)

lemma clear_slot_wf: "slot_shape slot \<Longrightarrow> slot_wf (clear_slot slot) \<and> \<not> alive (clear_slot slot)"
  by (simp add: slot_wf_def slot_shape_def clear_slot_def fold_fill_upt map_replicate_const
      del: upt_Suc upt_rec_numeral)

text \<open>A slot in its place among the others.\<close>

lemma slot_split:
  assumes "i < length ss"
  obtains a b where "ss = a @ ss ! i # b" and "\<And>x. ss[i := x] = a @ x # b" and "length a = i"
  using assms id_take_nth_drop upd_conv_take_nth_drop by (metis length_take less_imp_le_nat min_absorb2)

lemma find_slot_Some:
  assumes wf: "ramfs_wf fs" and f: "find_slot nm fs = Some i"
  obtains a slot b where "slots fs = a @ slot # b" and "\<And>x. (slots fs)[i := x] = a @ x # b"
    and "slots fs ! i = slot" and "alive slot" and "c_str (slot_name slot) = c_str nm" and "slot_wf slot"
proof -
  from f have i: "i < RAMFS_MAX_FILES" "alive (slots fs ! i)" "names_equal (slot_name (slots fs ! i)) nm"
    by (auto simp: find_slot_def find_Some_iff simp del: upt_rec_numeral)
  moreover have "i < length (slots fs)" using wf i(1) by (simp add: ramfs_wf_def)
  moreover from this have "slot_wf (slots fs ! i)" using wf by (simp add: ramfs_wf_def)
  ultimately show ?thesis
    using slot_split [of i "slots fs"] that unfolding names_equal_iff by metis
qed

lemma find_slot_None:
  assumes wf: "ramfs_wf fs" and f: "find_slot nm fs = None" and "length (c_str nm) \<le> RAMFS_NAME_MAX"
  shows "c_str nm \<notin> fst ` set (live_files (slots fs))"
proof
  assume "c_str nm \<in> fst ` set (live_files (slots fs))"
  then obtain slot where "slot \<in> set (slots fs)" "alive slot" "c_str (slot_name slot) = c_str nm"
    by (auto simp: live_files_def slot_file_def)
  then obtain i where "i < RAMFS_MAX_FILES" "alive (slots fs ! i)" "c_str (slot_name (slots fs ! i)) = c_str nm"
    using wf unfolding ramfs_wf_def by (metis in_set_conv_nth)
  with f assms(3) show False
    by (auto simp: find_slot_def find_None_iff names_equal_iff simp del: upt_rec_numeral)
qed

lemma find_slot_view:
  assumes wf: "ramfs_wf fs" and "length (c_str nm) \<le> RAMFS_NAME_MAX"
  shows "find_slot nm fs = None \<longleftrightarrow> ramfs_view fs (c_str nm) = None"
    and "find_slot nm fs = Some i \<Longrightarrow> ramfs_view fs (c_str nm) =
      Some (take (unat (slot_length (slots fs ! i))) (slot_data (slots fs ! i)))"
proof -
  show some: "ramfs_view fs (c_str nm) = Some (take (unat (slot_length (slots fs ! i))) (slot_data (slots fs ! i)))"
    if "find_slot nm fs = Some i" for i
  proof -
    from find_slot_Some [OF wf that] obtain a slot b where
      "slots fs = a @ slot # b" "slots fs ! i = slot" "alive slot" "c_str (slot_name slot) = c_str nm"
      by metis
    then have "(c_str nm, take (unat (slot_length (slots fs ! i))) (slot_data (slots fs ! i))) \<in> set (live_files (slots fs))"
      by (simp add: slot_file_def)
    with wf show ?thesis by (simp add: ramfs_view_def ramfs_wf_def)
  qed
  show "find_slot nm fs = None \<longleftrightarrow> ramfs_view fs (c_str nm) = None"
    using some find_slot_None [OF wf _ assms(2)]
    by (cases "find_slot nm fs") (auto simp: ramfs_view_def map_of_eq_None_iff)
qed

lemma card_view: "ramfs_wf fs \<Longrightarrow> card (dom (ramfs_view fs)) = length (live_files (slots fs))"
  using distinct_card [of "map fst (live_files (slots fs))"]
  by (simp add: ramfs_view_def dom_map_of_conv_image_fst ramfs_wf_def)

lemma finite_view [simp]: "finite (dom (ramfs_view fs))"
  by (simp add: ramfs_view_def finite_dom_map_of)

lemma find_empty_slot_None:
  assumes "ramfs_wf fs"
  shows "find_empty_slot fs = None \<longleftrightarrow> card (dom (ramfs_view fs)) = RAMFS_MAX_FILES"
proof -
  have len: "length (slots fs) = RAMFS_MAX_FILES" using assms by (simp add: ramfs_wf_def)
  have "find_empty_slot fs = None \<longleftrightarrow> (\<forall>slot \<in> set (slots fs). alive slot)"
    using len by (auto simp: find_empty_slot_def find_None_iff all_set_conv_all_nth simp del: upt_rec_numeral)
  also have "\<dots> \<longleftrightarrow> length (filter alive (slots fs)) = length (slots fs)"
    by (metis filter_True length_filter_less less_irrefl)
  finally show ?thesis using assms len by (simp add: card_view live_files_def)
qed

lemma find_empty_slot_Some:
  assumes wf: "ramfs_wf fs" and f: "find_empty_slot fs = Some i"
  obtains a slot b where "slots fs = a @ slot # b" and "\<And>x. (slots fs)[i := x] = a @ x # b"
    and "slots fs ! i = slot" and "\<not> alive slot" and "slot_wf slot"
proof -
  from f have i: "i < RAMFS_MAX_FILES" "\<not> alive (slots fs ! i)"
    by (auto simp: find_empty_slot_def find_Some_iff simp del: upt_rec_numeral)
  moreover have "i < length (slots fs)" using wf i(1) by (simp add: ramfs_wf_def)
  moreover from this have "slot_wf (slots fs ! i)" using wf by (simp add: ramfs_wf_def)
  ultimately show ?thesis
    using slot_split [of i "slots fs"] that by metis
qed

section \<open>The specification: a bounded map from names to contents\<close>

type_synonym file_map = "string \<Rightarrow> u8 list option"

datatype file_op =
    Create_File "string option"
  | Write_File "string option" "u8 list option" u32
  | Append_File "string option" "u8 list option" u32
  | Remove_File "string option"

text \<open>A caller's obligation: a data pointer that is not null points to \<open>length\<close> bytes.\<close>

fun file_op_ok :: "file_op \<Rightarrow> bool" where
  "file_op_ok (Write_File _ (Some d) len) \<longleftrightarrow> unat len \<le> length d"
| "file_op_ok (Append_File _ (Some d) len) \<longleftrightarrow> unat len \<le> length d"
| "file_op_ok _ \<longleftrightarrow> True"

definition bytes_of :: "u8 list option \<Rightarrow> u32 \<Rightarrow> u8 list" where
  "bytes_of data len = (case data of None \<Rightarrow> [] | Some d \<Rightarrow> take (unat len) d)"

fun file_spec :: "file_op \<Rightarrow> file_map \<Rightarrow> ramfs_result \<times> file_map" where
  "file_spec (Create_File None) m = (RAMFS_RESULT_INVALID_ARGUMENT, m)"
| "file_spec (Create_File (Some nm)) m =
     (let w = c_str nm in
      if \<not> valid_name w then (RAMFS_RESULT_INVALID_NAME, m)
      else if m w \<noteq> None then (RAMFS_RESULT_ALREADY_EXISTS, m)
      else if card (dom m) = RAMFS_MAX_FILES then (RAMFS_RESULT_NO_SPACE, m)
      else (RAMFS_RESULT_OK, m(w \<mapsto> [])))"
| "file_spec (Write_File None _ _) m = (RAMFS_RESULT_INVALID_ARGUMENT, m)"
| "file_spec (Write_File (Some nm) data len) m =
     (let w = c_str nm in
      if data = None \<and> len \<noteq> 0 then (RAMFS_RESULT_INVALID_ARGUMENT, m)
      else if \<not> valid_name w then (RAMFS_RESULT_INVALID_NAME, m)
      else if m w = None then (RAMFS_RESULT_NOT_FOUND, m)
      else if unat len > RAMFS_FILE_MAX_BYTES then (RAMFS_RESULT_TOO_LARGE, m)
      else (RAMFS_RESULT_OK, m(w \<mapsto> bytes_of data len)))"
| "file_spec (Append_File None _ _) m = (RAMFS_RESULT_INVALID_ARGUMENT, m)"
| "file_spec (Append_File (Some nm) data len) m =
     (let w = c_str nm in
      if data = None \<and> len \<noteq> 0 then (RAMFS_RESULT_INVALID_ARGUMENT, m)
      else if \<not> valid_name w then (RAMFS_RESULT_INVALID_NAME, m)
      else case m w of None \<Rightarrow> (RAMFS_RESULT_NOT_FOUND, m)
        | Some old \<Rightarrow>
          if length old + unat len > RAMFS_FILE_MAX_BYTES then (RAMFS_RESULT_TOO_LARGE, m)
          else (RAMFS_RESULT_OK, m(w \<mapsto> old @ bytes_of data len)))"
| "file_spec (Remove_File None) m = (RAMFS_RESULT_INVALID_ARGUMENT, m)"
| "file_spec (Remove_File (Some nm)) m =
     (let w = c_str nm in
      if \<not> valid_name w then (RAMFS_RESULT_INVALID_NAME, m)
      else if m w = None then (RAMFS_RESULT_NOT_FOUND, m)
      else (RAMFS_RESULT_OK, m(w := None)))"

text \<open>What a client of the file system relies on, whatever implements it.\<close>

locale file_store =
  fixes inv :: "'s \<Rightarrow> bool"
    and view :: "'s \<Rightarrow> file_map"
    and step :: "file_op \<Rightarrow> 's \<Rightarrow> ramfs_result \<times> 's"
    and fetch :: "string \<Rightarrow> 's \<Rightarrow> u8 list option"
  assumes step_inv: "inv s \<Longrightarrow> file_op_ok x \<Longrightarrow> inv (snd (step x s))"
    and step_result: "inv s \<Longrightarrow> file_op_ok x \<Longrightarrow> fst (step x s) = fst (file_spec x (view s))"
    and step_view: "inv s \<Longrightarrow> file_op_ok x \<Longrightarrow> view (snd (step x s)) = snd (file_spec x (view s))"
    and fetch_view: "inv s \<Longrightarrow> valid_name (c_str nm) \<Longrightarrow> fetch nm s = view s (c_str nm)"
begin

lemma run_refines:
  "inv s \<Longrightarrow> list_all file_op_ok ops \<Longrightarrow> inv (snd (run_ops step ops s)) \<and>
   fst (run_ops step ops s) = fst (run_ops file_spec ops (view s)) \<and>
   view (snd (run_ops step ops s)) = snd (run_ops file_spec ops (view s))"
  by (rule run_ops_simulation) (simp_all add: step_inv step_result step_view)

text \<open>Reading back what was written, and the frame: other files stay as they are.\<close>

lemma write_fetch:
  assumes "inv s" and "file_op_ok (Write_File (Some nm) (Some d) len)"
    and ok: "fst (step (Write_File (Some nm) (Some d) len) s) = RAMFS_RESULT_OK"
  shows "fetch nm (snd (step (Write_File (Some nm) (Some d) len) s)) = Some (take (unat len) d)"
proof -
  have "valid_name (c_str nm)"
    using ok step_result [OF assms(1,2)] by (auto simp: Let_def split: if_splits)
  then show ?thesis
    using ok step_result [OF assms(1,2)] step_view [OF assms(1,2)] fetch_view [OF step_inv [OF assms(1,2)]]
    by (auto simp: Let_def bytes_of_def split: if_splits)
qed

lemma append_fetch:
  assumes "inv s" and "file_op_ok (Append_File (Some nm) (Some d) len)"
    and ok: "fst (step (Append_File (Some nm) (Some d) len) s) = RAMFS_RESULT_OK"
  shows "\<exists>old. fetch nm s = Some old \<and>
    fetch nm (snd (step (Append_File (Some nm) (Some d) len) s)) = Some (old @ take (unat len) d)"
proof -
  have v: "valid_name (c_str nm)"
    using ok step_result [OF assms(1,2)] by (auto simp: Let_def split: if_splits option.splits)
  then show ?thesis
    using ok step_result [OF assms(1,2)] step_view [OF assms(1,2)] fetch_view [OF step_inv [OF assms(1,2)]]
      fetch_view [OF assms(1) v]
    by (auto simp: Let_def bytes_of_def split: if_splits option.splits)
qed

end

text \<open>The operations as one step function, and a read into a buffer of the exact size.\<close>

fun ramfs_step :: "file_op \<Rightarrow> ramfs \<Rightarrow> ramfs_result \<times> ramfs" where
  "ramfs_step (Create_File nm) fs = ramfs_create nm fs"
| "ramfs_step (Write_File nm data len) fs = ramfs_write nm data len fs"
| "ramfs_step (Append_File nm data len) fs = ramfs_append nm data len fs"
| "ramfs_step (Remove_File nm) fs = ramfs_remove nm fs"

definition ramfs_fetch :: "string \<Rightarrow> ramfs \<Rightarrow> u8 list option" where
  "ramfs_fetch nm fs =
     (case ramfs_read (Some nm) (Some (replicate RAMFS_FILE_MAX_BYTES 0)) (of_nat RAMFS_FILE_MAX_BYTES) True fs of
        (RAMFS_RESULT_OK, Some buffer, Some len) \<Rightarrow> Some (take (unat len) buffer)
      | _ \<Rightarrow> None)"

subsection \<open>Each operation against the specification\<close>

lemma map_of_replace:
  "w \<notin> fst ` set a \<Longrightarrow> map_of (a @ (w, d') # b) = (map_of (a @ (w, d) # b))(w \<mapsto> d')"
  by (induction a) (auto simp: fun_upd_twist map_of_eq_None_iff fun_upd_idem_iff)

lemma map_of_insert:
  "w \<notin> fst ` set a \<Longrightarrow> map_of (a @ (w, d) # b) = (map_of (a @ b))(w \<mapsto> d)"
  by (induction a) (auto simp: fun_upd_twist map_of_eq_None_iff fun_upd_idem_iff)

lemma map_of_remove:
  "w \<notin> fst ` set (a @ b) \<Longrightarrow> map_of (a @ b) = (map_of (a @ (w, d) # b))(w := None)"
  by (induction a) (auto simp: fun_upd_twist map_of_eq_None_iff fun_upd_idem_iff)

lemma valid_name_length: "valid_name w \<Longrightarrow> length w \<le> RAMFS_NAME_MAX"
  by (simp add: valid_name_def)

lemma create_refines:
  assumes wf: "ramfs_wf fs"
  shows "ramfs_wf (snd (ramfs_create nm fs)) \<and> fst (ramfs_create nm fs) = fst (file_spec (Create_File nm) (ramfs_view fs)) \<and>
    ramfs_view (snd (ramfs_create nm fs)) = snd (file_spec (Create_File nm) (ramfs_view fs))"
proof (cases nm)
  case None
  with wf show ?thesis by (simp add: ramfs_create_def)
next
  case nm: (Some n)
  show ?thesis
  proof (cases "valid_name (c_str n) \<and> find_slot n fs = None")
    case False
    with wf nm find_slot_view [OF wf] show ?thesis
      by (auto simp: ramfs_create_def name_is_valid_iff Let_def dest: valid_name_length)
  next
    case True
    then have v: "valid_name (c_str n)" and none: "find_slot n fs = None" by auto
    note le = valid_name_length [OF v]
    have view: "ramfs_view fs (c_str n) = None" using find_slot_view(1) [OF wf le] none by simp
    show ?thesis
    proof (cases "find_empty_slot fs")
      case None
      with wf nm v none view find_empty_slot_None [OF wf] show ?thesis
        by (simp add: ramfs_create_def name_is_valid_iff Let_def)
    next
      case (Some i)
      from find_empty_slot_Some [OF wf Some] obtain a slot b where
        s: "slots fs = a @ slot # b" "\<And>x. (slots fs)[i := x] = a @ x # b" "slots fs ! i = slot"
        "\<not> alive slot" "slot_wf slot" by metis
      define new where "new = (clear_slot slot)\<lparr>slot_name := copy_name n 0 (slot_name (clear_slot slot)), alive := True\<rparr>"
      have cl: "slot_wf (clear_slot slot)" "\<not> alive (clear_slot slot)"
        using clear_slot_wf s(5) by (auto simp: slot_wf_def)
      then have len: "length (slot_name (clear_slot slot)) = RAMFS_NAME_MAX + 1" "slot_length (clear_slot slot) = 0"
        by (auto simp: slot_wf_def)
      note cp = copy_name_str [OF len(1) le]
      have new: "alive new" "slot_wf new" "slot_file new = (c_str n, [])"
        using cl cp v len by (auto simp: new_def slot_wf_def slot_shape_def slot_file_def)
      have nin: "c_str n \<notin> fst ` set (live_files a @ live_files b)"
        using find_slot_None [OF wf none le] s(1,4) by simp
      have r: "ramfs_create nm fs = (RAMFS_RESULT_OK, fs\<lparr>slots := a @ new # b, live_file_count := live_file_count fs + 1\<rparr>)"
        using nm v none Some by (simp add: ramfs_create_def name_is_valid_iff Let_def s(2,3) new_def)
      have "ramfs_wf (snd (ramfs_create nm fs))"
        using wf s nin new by (auto simp: r ramfs_wf_def)
      moreover have "ramfs_view (snd (ramfs_create nm fs)) = (ramfs_view fs)(c_str n \<mapsto> [])"
        using nin map_of_insert [of "c_str n" "live_files a" "[]" "live_files b"]
        by (simp add: r ramfs_view_def s(1,4) new image_Un del: map_of_append)
      moreover have "card (dom (ramfs_view fs)) \<noteq> RAMFS_MAX_FILES" using Some find_empty_slot_None [OF wf] by simp
      ultimately show ?thesis using r nm v view by (simp add: Let_def)
    qed
  qed
qed

text \<open>Replacing the contents of one live file.\<close>

lemma replace_contents:
  assumes wf: "ramfs_wf fs" and f: "find_slot n fs = Some i"
    and new: "alive new" "slot_wf new" "slot_name new = slot_name (slots fs ! i)"
  shows "ramfs_wf (fs\<lparr>slots := (slots fs)[i := new]\<rparr>)"
    and "ramfs_view (fs\<lparr>slots := (slots fs)[i := new]\<rparr>) =
      (ramfs_view fs)(c_str n \<mapsto> take (unat (slot_length new)) (slot_data new))"
proof -
  from find_slot_Some [OF wf f] obtain a slot b where
    s: "slots fs = a @ slot # b" "\<And>x. (slots fs)[i := x] = a @ x # b" "slots fs ! i = slot"
    "alive slot" "c_str (slot_name slot) = c_str n" by metis
  have nm: "slot_file new = (c_str n, take (unat (slot_length new)) (slot_data new))"
    using new(3) s by (simp add: slot_file_def)
  have old: "slot_file slot = (c_str n, take (unat (slot_length slot)) (slot_data slot))"
    using s by (simp add: slot_file_def)
  show "ramfs_wf (fs\<lparr>slots := (slots fs)[i := new]\<rparr>)"
    using wf new nm old s(1,4) unfolding s(2) by (auto simp: ramfs_wf_def)
  have "c_str n \<notin> fst ` set (live_files a)"
    using wf old s(1,4) by (auto simp: ramfs_wf_def)
  then show "ramfs_view (fs\<lparr>slots := (slots fs)[i := new]\<rparr>) =
      (ramfs_view fs)(c_str n \<mapsto> take (unat (slot_length new)) (slot_data new))"
    using map_of_replace [of "c_str n" "live_files a"]
    by (simp add: s(2) ramfs_view_def del: map_of_append) (simp add: s(1,4) new(1) nm old del: map_of_append)
qed

lemma write_refines:
  assumes wf: "ramfs_wf fs" and ok: "file_op_ok (Write_File nm data len)"
  shows "ramfs_wf (snd (ramfs_write nm data len fs)) \<and>
    fst (ramfs_write nm data len fs) = fst (file_spec (Write_File nm data len) (ramfs_view fs)) \<and>
    ramfs_view (snd (ramfs_write nm data len fs)) = snd (file_spec (Write_File nm data len) (ramfs_view fs))"
proof (cases "\<exists>n i. nm = Some n \<and> (data = None \<longrightarrow> len = 0) \<and> valid_name (c_str n) \<and> find_slot n fs = Some i \<and>
    len \<le> of_nat RAMFS_FILE_MAX_BYTES")
  case False
  then show ?thesis
    using wf find_slot_view(1) [OF wf valid_name_length, of "the nm"] word_le_nat_alt [of len 512]
    by (cases nm) (auto simp: ramfs_write_def name_is_valid_iff Let_def not_le word_less_nat_alt split: option.splits)
next
  case True
  then obtain n i where nm: "nm = Some n" and d: "data = None \<longrightarrow> len = 0" and v: "valid_name (c_str n)"
    and f: "find_slot n fs = Some i" and len: "unat len \<le> RAMFS_FILE_MAX_BYTES" by (auto simp: word_le_nat_alt)
  define new where "new = (slots fs ! i)\<lparr>slot_data :=
     fold (\<lambda>index d. d[index := if of_nat index < len then the data ! index else 0]) [0..<RAMFS_FILE_MAX_BYTES]
       (slot_data (slots fs ! i)), slot_length := len\<rparr>"
  have slot: "alive (slots fs ! i)" "slot_wf (slots fs ! i)" using find_slot_Some [OF wf f] by metis+
  then have "slot_data new = map (\<lambda>j. if of_nat j < len then the data ! j else 0) [0..<RAMFS_FILE_MAX_BYTES]"
    by (simp add: new_def fold_fill_upt slot_wf_def slot_shape_def del: upt_rec_numeral)
  moreover have "of_nat j < len \<longleftrightarrow> j < unat len" if "j < RAMFS_FILE_MAX_BYTES" for j
    using that by (simp add: word_less_nat_alt unat_word_of_nat_small)
  ultimately have data: "slot_data new = map (\<lambda>j. if j < unat len then the data ! j else 0) [0..<RAMFS_FILE_MAX_BYTES]"
    by (simp cong: map_cong del: upt_rec_numeral)
  have bytes: "take (unat (slot_length new)) (slot_data new) = bytes_of data len"
    using len ok nm d unfolding data
    by (cases data) (auto simp: new_def bytes_of_def take_map list_eq_iff_nth_eq simp del: upt_rec_numeral)
  have new: "alive new" "slot_wf new" "slot_name new = slot_name (slots fs ! i)"
    using slot len data by (simp_all add: new_def slot_wf_def slot_shape_def)
  have "ramfs_write nm data len fs = (RAMFS_RESULT_OK, fs\<lparr>slots := (slots fs)[i := new]\<rparr>)"
    using nm d v f len by (auto simp: ramfs_write_def name_is_valid_iff new_def word_less_nat_alt)
  moreover have "file_spec (Write_File nm data len) (ramfs_view fs) =
    (RAMFS_RESULT_OK, (ramfs_view fs)(c_str n \<mapsto> bytes_of data len))"
    using nm d v len find_slot_view(2) [OF wf valid_name_length [OF v] f] by (auto simp: Let_def)
  ultimately show ?thesis using replace_contents [OF wf f new] bytes by simp
qed

lemma fold_store_upt:
  assumes "unat (l :: u32) + n \<le> length d" and "length d < 2 ^ 32" and "n \<le> length x"
  shows "fold (\<lambda>i d. d[unat (l + of_nat i) := x ! i]) [0..<n] d = take (unat l) d @ take n x @ drop (unat l + n) d"
  using assms
proof (induction n)
  case (Suc n)
  have "unat (l + of_nat n) = unat l + n"
    using Suc.prems by (simp add: unat_add_no_wrap unat_word_of_nat_small)
  moreover have "drop (unat l + n) d = d ! (unat l + n) # drop (unat l + Suc n) d"
    using Suc.prems by (simp add: Cons_nth_drop_Suc)
  ultimately show ?case
    using Suc by (simp add: list_update_append take_Suc_conv_app_nth)
qed simp

lemma append_refines:
  assumes wf: "ramfs_wf fs" and ok: "file_op_ok (Append_File nm data len)"
  shows "ramfs_wf (snd (ramfs_append nm data len fs)) \<and>
    fst (ramfs_append nm data len fs) = fst (file_spec (Append_File nm data len) (ramfs_view fs)) \<and>
    ramfs_view (snd (ramfs_append nm data len fs)) = snd (file_spec (Append_File nm data len) (ramfs_view fs))"
proof (cases "\<exists>n i. nm = Some n \<and> (data = None \<longrightarrow> len = 0) \<and> valid_name (c_str n) \<and> find_slot n fs = Some i")
  case False
  then show ?thesis
    using wf find_slot_view(1) [OF wf valid_name_length, of "the nm"]
    by (cases nm) (auto simp: ramfs_append_def name_is_valid_iff Let_def split: option.splits)
next
  case True
  then obtain n i where nm: "nm = Some n" and d: "data = None \<longrightarrow> len = 0" and v: "valid_name (c_str n)"
    and f: "find_slot n fs = Some i" by auto
  let ?s = "slots fs ! i"
  have slot: "alive ?s" "slot_wf ?s" using find_slot_Some [OF wf f] by metis+
  then have sl: "unat (slot_length ?s) \<le> RAMFS_FILE_MAX_BYTES" "length (slot_data ?s) = RAMFS_FILE_MAX_BYTES"
    by (auto simp: slot_wf_def slot_shape_def)
  have view: "ramfs_view fs (c_str n) = Some (take (unat (slot_length ?s)) (slot_data ?s))"
    using find_slot_view(2) [OF wf valid_name_length [OF v] f] .
  have room: "len > of_nat RAMFS_FILE_MAX_BYTES - slot_length ?s \<longleftrightarrow> unat (slot_length ?s) + unat len > RAMFS_FILE_MAX_BYTES"
    using sl(1) by (auto simp: word_less_nat_alt unat_sub_no_wrap word_le_nat_alt)
  show ?thesis
  proof (cases "unat (slot_length ?s) + unat len > RAMFS_FILE_MAX_BYTES")
    case True
    with nm d v f view wf sl room show ?thesis
      by (auto simp: ramfs_append_def name_is_valid_iff Let_def)
  next
    case fits: False
    define new where "new = ?s\<lparr>slot_data :=
      fold (\<lambda>index d. d[unat (slot_length ?s + of_nat index) := the data ! index]) [0..<unat len] (slot_data ?s),
      slot_length := slot_length ?s + len\<rparr>"
    have le: "unat len \<le> length (case data of None \<Rightarrow> [] | Some x \<Rightarrow> x)" using ok d nm by (auto split: option.splits)
    have "slot_data new = take (unat (slot_length ?s)) (slot_data ?s) @ bytes_of data len @
        drop (unat (slot_length ?s) + unat len) (slot_data ?s)"
      using fits sl d le fold_store_upt [of "slot_length ?s" "unat len" "slot_data ?s" "the data"]
      by (cases data) (auto simp: new_def bytes_of_def)
    moreover have ul: "unat (slot_length new) = unat (slot_length ?s) + unat len"
      using fits by (simp add: new_def unat_add_no_wrap)
    moreover have "length (bytes_of data len) = unat len" using le d by (auto simp: bytes_of_def split: option.splits)
    ultimately have bytes: "take (unat (slot_length new)) (slot_data new) =
        take (unat (slot_length ?s)) (slot_data ?s) @ bytes_of data len"
      and dl: "length (slot_data new) = RAMFS_FILE_MAX_BYTES"
      using sl fits by simp_all
    have new: "alive new" "slot_wf new" "slot_name new = slot_name ?s"
      using slot fits ul dl by (simp_all add: slot_wf_def slot_shape_def new_def)
    have "ramfs_append nm data len fs = (RAMFS_RESULT_OK, fs\<lparr>slots := (slots fs)[i := new]\<rparr>)"
      using nm d v f fits room by (auto simp: ramfs_append_def name_is_valid_iff new_def Let_def)
    moreover have "file_spec (Append_File nm data len) (ramfs_view fs) =
      (RAMFS_RESULT_OK, (ramfs_view fs)(c_str n \<mapsto> take (unat (slot_length ?s)) (slot_data ?s) @ bytes_of data len))"
      using nm d v fits view sl by (auto simp: Let_def)
    ultimately show ?thesis using replace_contents [OF wf f new] bytes by simp
  qed
qed

lemma remove_refines:
  assumes wf: "ramfs_wf fs"
  shows "ramfs_wf (snd (ramfs_remove nm fs)) \<and> fst (ramfs_remove nm fs) = fst (file_spec (Remove_File nm) (ramfs_view fs)) \<and>
    ramfs_view (snd (ramfs_remove nm fs)) = snd (file_spec (Remove_File nm) (ramfs_view fs))"
proof (cases "\<exists>n i. nm = Some n \<and> valid_name (c_str n) \<and> find_slot n fs = Some i")
  case False
  then show ?thesis
    using wf find_slot_view(1) [OF wf valid_name_length, of "the nm"]
    by (cases nm) (auto simp: ramfs_remove_def name_is_valid_iff Let_def split: option.splits)
next
  case True
  then obtain n i where nm: "nm = Some n" and v: "valid_name (c_str n)" and f: "find_slot n fs = Some i" by auto
  from find_slot_Some [OF wf f] obtain a slot b where
    s: "slots fs = a @ slot # b" "\<And>x. (slots fs)[i := x] = a @ x # b" "slots fs ! i = slot"
    "alive slot" "c_str (slot_name slot) = c_str n" "slot_wf slot" by metis
  have cl: "slot_wf (clear_slot slot)" "\<not> alive (clear_slot slot)"
    using clear_slot_wf s(6) by (auto simp: slot_wf_def)
  have entry: "slot_file slot = (c_str n, take (unat (slot_length slot)) (slot_data slot))"
    using s by (simp add: slot_file_def)
  have nin: "c_str n \<notin> fst ` set (live_files a @ live_files b)"
    using wf entry s(1,4) by (auto simp: ramfs_wf_def)
  have r: "ramfs_remove nm fs = (RAMFS_RESULT_OK, fs\<lparr>slots := a @ clear_slot slot # b,
      live_file_count := live_file_count fs - 1\<rparr>)"
    using nm v f by (simp add: ramfs_remove_def name_is_valid_iff s(2,3))
  have "ramfs_wf (snd (ramfs_remove nm fs))"
    using wf cl s(1,4) entry by (auto simp: r ramfs_wf_def)
  moreover have "ramfs_view (snd (ramfs_remove nm fs)) = (ramfs_view fs)(c_str n := None)"
    using map_of_remove [OF nin] by (simp add: r ramfs_view_def s(1,4) cl entry del: map_of_append)
  moreover have "ramfs_view fs (c_str n) \<noteq> None"
    using find_slot_view(2) [OF wf valid_name_length [OF v] f] by simp
  ultimately show ?thesis using r nm v by (auto simp: Let_def)
qed

text \<open>Reading: the buffer holds the file and the length is its size.\<close>

lemma read_file:
  assumes wf: "ramfs_wf fs" and v: "valid_name (c_str n)" and m: "ramfs_view fs (c_str n) = Some bytes"
    and cap: "length bytes \<le> unat capacity" "unat capacity \<le> length buffer"
  shows "ramfs_read (Some n) (Some buffer) capacity True fs =
    (RAMFS_RESULT_OK, Some (bytes @ drop (length bytes) buffer), Some (of_nat (length bytes)))"
proof -
  obtain i where f: "find_slot n fs = Some i"
    using find_slot_view(1) [OF wf valid_name_length [OF v]] m by fastforce
  let ?s = "slots fs ! i"
  have "slot_wf ?s" "alive ?s" using find_slot_Some [OF wf f] by metis+
  then have sl: "unat (slot_length ?s) \<le> length (slot_data ?s)" by (simp add: slot_wf_def slot_shape_def)
  have bytes: "bytes = take (unat (slot_length ?s)) (slot_data ?s)"
    using find_slot_view(2) [OF wf valid_name_length [OF v] f] m by simp
  then have len: "length bytes = unat (slot_length ?s)" using sl by simp
  have "fold (\<lambda>index d. d[index := slot_data ?s ! index]) [0..<unat (slot_length ?s)] buffer =
      map ((!) (slot_data ?s)) [0..<unat (slot_length ?s)] @ drop (unat (slot_length ?s)) buffer"
    using cap len by (intro fold_fill_upt) simp
  also have "map ((!) (slot_data ?s)) [0..<unat (slot_length ?s)] = bytes"
    unfolding bytes using sl by (simp add: list_eq_iff_nth_eq)
  finally show ?thesis
    using f v cap len by (simp add: ramfs_read_def name_is_valid_iff Let_def word_less_nat_alt)
qed

lemma view_bounded: "ramfs_wf fs \<Longrightarrow> ramfs_view fs w = Some bytes \<Longrightarrow> length bytes \<le> RAMFS_FILE_MAX_BYTES"
  by (auto simp: ramfs_view_def live_files_def slot_file_def ramfs_wf_def slot_wf_def slot_shape_def
      intro!: min.coboundedI1 dest!: map_of_SomeD)

interpretation ramfs_store: file_store ramfs_wf ramfs_view ramfs_step ramfs_fetch
proof
  fix fs x nm
  assume wf: "ramfs_wf fs"
  {
    assume "file_op_ok x"
    then have "ramfs_wf (snd (ramfs_step x fs)) \<and> fst (ramfs_step x fs) = fst (file_spec x (ramfs_view fs)) \<and>
      ramfs_view (snd (ramfs_step x fs)) = snd (file_spec x (ramfs_view fs))"
      by (cases x) (simp_all only: ramfs_step.simps create_refines [OF wf] write_refines [OF wf]
          append_refines [OF wf] remove_refines [OF wf])
  }
  then show "file_op_ok x \<Longrightarrow> ramfs_wf (snd (ramfs_step x fs))"
    and "file_op_ok x \<Longrightarrow> fst (ramfs_step x fs) = fst (file_spec x (ramfs_view fs))"
    and "file_op_ok x \<Longrightarrow> ramfs_view (snd (ramfs_step x fs)) = snd (file_spec x (ramfs_view fs))" by blast+
  assume v: "valid_name (c_str nm)"
  show "ramfs_fetch nm fs = ramfs_view fs (c_str nm)"
  proof (cases "ramfs_view fs (c_str nm)")
    case None
    then have "find_slot nm fs = None" using find_slot_view(1) [OF wf valid_name_length [OF v]] by simp
    with None v show ?thesis by (simp add: ramfs_fetch_def ramfs_read_def name_is_valid_iff)
  next
    case (Some bytes)
    note le = view_bounded [OF wf Some]
    have "ramfs_read (Some nm) (Some (replicate 512 0)) 512 True fs =
        (RAMFS_RESULT_OK, Some (bytes @ drop (length bytes) (replicate 512 0)), Some (of_nat (length bytes)))"
      by (rule read_file [OF wf v Some]) (use le in simp_all)
    with Some le show ?thesis by (simp add: ramfs_fetch_def unat_word_of_nat_small)
  qed
qed

section \<open>Self-check and listing\<close>

definition ramfs_shape :: "ramfs \<Rightarrow> bool" where
  "ramfs_shape fs \<longleftrightarrow> length (slots fs) = RAMFS_MAX_FILES \<and> (\<forall>slot \<in> set (slots fs). slot_shape slot)"

lemma distinct_filter_pairs:
  "distinct (map f (filter P xs)) \<longleftrightarrow> sorted_wrt (\<lambda>x y. P x \<longrightarrow> P y \<longrightarrow> f x \<noteq> f y) xs"
  by (induction xs) auto

lemma distinct_filter_iff:
  "distinct (map f (filter P xs)) \<longleftrightarrow>
   (\<forall>i < length xs. P (xs ! i) \<longrightarrow> (\<forall>j \<in> {i + 1..<length xs}. P (xs ! j) \<longrightarrow> f (xs ! i) \<noteq> f (xs ! j)))"
  unfolding distinct_filter_pairs sorted_wrt_iff_nth_less by (auto simp: Suc_le_eq)

lemma slot_is_clear_iff:
  "slot_shape slot \<Longrightarrow> \<not> alive slot \<Longrightarrow> slot_is_clear slot \<longleftrightarrow> slot_wf slot"
  by (auto simp: slot_is_clear_def slot_wf_def slot_shape_def list_all_iff list_eq_iff_nth_eq simp del: upt_rec_numeral)

lemma slot_is_sound_iff:
  "slot_shape (slots fs ! i) \<Longrightarrow> alive (slots fs ! i) \<Longrightarrow> slot_is_sound i fs \<longleftrightarrow> slot_wf (slots fs ! i) \<and>
    (\<forall>j \<in> {i + 1..<RAMFS_MAX_FILES}. alive (slots fs ! j) \<longrightarrow>
       fst (slot_file (slots fs ! i)) \<noteq> fst (slot_file (slots fs ! j)))"
  by (auto simp: slot_is_sound_def slot_wf_def name_is_valid_iff Let_def list_all_iff names_equal_iff slot_file_def
      word_le_nat_alt valid_name_length simp del: upt_rec_numeral)

lemma validate_scan_iff:
  "length (slots fs) = RAMFS_MAX_FILES \<Longrightarrow> k \<le> RAMFS_MAX_FILES \<Longrightarrow> validate_scan k c fs \<longleftrightarrow>
    (\<forall>i \<in> {k..<RAMFS_MAX_FILES}. if alive (slots fs ! i) then slot_is_sound i fs else slot_is_clear (slots fs ! i)) \<and>
    c + of_nat (length (filter alive (drop k (slots fs)))) = live_file_count fs"
proof (induction k c fs rule: validate_scan.induct)
  case (1 k c fs)
  show ?case
  proof (cases "k < RAMFS_MAX_FILES")
    case False
    with 1 show ?thesis by (subst validate_scan.simps) simp
  next
    case True
    have d: "drop k (slots fs) = slots fs ! k # drop (k + 1) (slots fs)"
      using True 1 by (simp add: Cons_nth_drop_Suc)
    have "{k..<RAMFS_MAX_FILES} = insert k {k + 1..<RAMFS_MAX_FILES}" using True by auto
    then have r: "(\<forall>i \<in> {k..<RAMFS_MAX_FILES}. Q i) \<longleftrightarrow> Q k \<and> (\<forall>i \<in> {k + 1..<RAMFS_MAX_FILES}. Q i)" for Q
      by simp
    show ?thesis
      unfolding r d using True 1 by (subst validate_scan.simps) (simp add: algebra_simps)
  qed
qed

lemma validate_iff:
  assumes sh: "ramfs_shape fs"
  shows "ramfs_validate fs \<longleftrightarrow> ramfs_wf fs"
proof -
  have len: "length (slots fs) = RAMFS_MAX_FILES" and shape: "\<And>i. i < RAMFS_MAX_FILES \<Longrightarrow> slot_shape (slots fs ! i)"
    using sh by (simp_all add: ramfs_shape_def)
  have d: "distinct (map fst (live_files (slots fs))) \<longleftrightarrow> (\<forall>i < RAMFS_MAX_FILES. alive (slots fs ! i) \<longrightarrow>
      (\<forall>j \<in> {i + 1..<RAMFS_MAX_FILES}. alive (slots fs ! j) \<longrightarrow> fst (slot_file (slots fs ! i)) \<noteq> fst (slot_file (slots fs ! j))))"
    using distinct_filter_iff [of "fst \<circ> slot_file" alive "slots fs"] len by (simp add: live_files_def)
  have w: "(\<forall>slot \<in> set (slots fs). slot_wf slot) \<longleftrightarrow> (\<forall>i < RAMFS_MAX_FILES. slot_wf (slots fs ! i))"
    using len by (simp add: all_set_conv_all_nth)
  have one: "(if alive (slots fs ! i) then slot_is_sound i fs else slot_is_clear (slots fs ! i)) \<longleftrightarrow>
      slot_wf (slots fs ! i) \<and> (alive (slots fs ! i) \<longrightarrow> (\<forall>j \<in> {i + 1..<RAMFS_MAX_FILES}. alive (slots fs ! j) \<longrightarrow>
        fst (slot_file (slots fs ! i)) \<noteq> fst (slot_file (slots fs ! j))))" if "i < RAMFS_MAX_FILES" for i
    using shape [OF that] slot_is_sound_iff slot_is_clear_iff by simp
  have le: "length (filter alive (slots fs)) \<le> RAMFS_MAX_FILES"
    using length_filter_le [of alive "slots fs"] len by simp
  have cnt: "of_nat (length (filter alive (slots fs))) = live_file_count fs \<Longrightarrow> \<not> live_file_count fs > of_nat RAMFS_MAX_FILES"
    using le by (auto simp: word_less_nat_alt unat_word_of_nat_small dest!: sym [of "of_nat _"])
  have "validate_scan 0 0 fs \<longleftrightarrow> ramfs_wf fs"
    unfolding validate_scan_iff [OF len le0] ramfs_wf_def d w
    using len one by (auto simp: live_files_def)
  with cnt show ?thesis by (auto simp: ramfs_validate_def ramfs_wf_def live_files_def)
qed

lemma info_scan_eq:
  "length (slots fs) = RAMFS_MAX_FILES \<Longrightarrow> \<forall>slot \<in> set (slots fs). slot_shape slot \<Longrightarrow> k \<le> RAMFS_MAX_FILES \<Longrightarrow>
   info_scan index k live fs =
     (let L = filter alive (drop k (slots fs)); d = unat (index - live) in
      if d < length L then Some (slot_name (L ! d), slot_length (L ! d)) else None)"
proof (induction index k live fs rule: info_scan.induct)
  case (1 index k live fs)
  show ?case
  proof (cases "k < RAMFS_MAX_FILES")
    case False
    with 1 show ?thesis by (subst info_scan.simps) (simp add: Let_def)
  next
    case True
    let ?s = "slots fs ! k"
    have d: "drop k (slots fs) = ?s # drop (k + 1) (slots fs)"
      using True 1 by (simp add: Cons_nth_drop_Suc)
    have nm: "map (\<lambda>i. slot_name ?s ! i) [0..<RAMFS_NAME_MAX + 1] = slot_name ?s"
      using "1.prems" True by (intro nth_equalityI) (auto simp: slot_shape_def simp del: upt_Suc upt_rec_numeral)
    consider "\<not> alive ?s" | "alive ?s" "live = index" | "alive ?s" "live \<noteq> index" by blast
    then show ?thesis
    proof cases
      case 1
      with True "1.IH"(1) "1.prems" show ?thesis
        unfolding d by (subst info_scan.simps) (simp add: Let_def del: upt_Suc upt_rec_numeral)
    next
      case 2
      with True nm show ?thesis unfolding d by (subst info_scan.simps) (simp add: Let_def del: upt_Suc upt_rec_numeral)
    next
      case 3
      then have "unat (index - live) = Suc (unat (index - (live + 1)))"
        using unat_diff_step by blast
      with 3 True "1.IH"(2) "1.prems" show ?thesis
        unfolding d by (subst info_scan.simps) (simp add: Let_def del: upt_Suc upt_rec_numeral)
    qed
  qed
qed

lemma get_info_eq:
  assumes wf: "ramfs_wf fs"
  shows "ramfs_get_info index True fs = (if index < ramfs_count fs
      then Some (slot_name (filter alive (slots fs) ! unat index), slot_length (filter alive (slots fs) ! unat index))
      else None)"
proof -
  have "length (filter alive (slots fs)) \<le> RAMFS_MAX_FILES"
    using wf unfolding ramfs_wf_def by (metis length_filter_le)
  then have "unat index < length (filter alive (slots fs)) \<longleftrightarrow> index < ramfs_count fs"
    using wf by (simp add: ramfs_count_def ramfs_wf_def live_files_def word_less_nat_alt unat_word_of_nat_small)
  with info_scan_eq [of fs 0 index 0] wf show ?thesis
    by (simp add: ramfs_get_info_def ramfs_wf_def slot_wf_def Let_def)
qed

section \<open>Properties\<close>

definition example_ramfs :: ramfs where
  "example_ramfs = \<lparr>slots = replicate 16 \<lparr>alive = True, slot_name = replicate 32 (CHR ''z''),
     slot_data = replicate 512 7, slot_length = 9\<rparr>, live_file_count = 3\<rparr>"

lemma example_ramfs_shape: "ramfs_shape example_ramfs"
  by (simp add: ramfs_shape_def example_ramfs_def slot_shape_def)

lemma ramfs_init_clean:
  assumes "ramfs_shape fs"
  shows "ramfs_wf (ramfs_init fs)" and "ramfs_view (ramfs_init fs) = Map.empty"
proof -
  have s: "slots (ramfs_init fs) = map clear_slot (slots fs)"
    using assms by (simp add: ramfs_init_def ramfs_shape_def fold_map_upt del: upt_rec_numeral)
  have live: "live_files (map clear_slot ss) = []" for ss
    by (simp add: live_files_def filter_empty_conv clear_slot_def)
  show "ramfs_wf (ramfs_init fs)" "ramfs_view (ramfs_init fs) = Map.empty"
    using assms clear_slot_wf
    by (auto simp: ramfs_wf_def s live ramfs_view_def ramfs_shape_def) (simp add: ramfs_init_def)
qed

text \<open>
  (C2) The file system is a bounded map. From \<open>ramfs_init\<close> on, every sequence of creates, writes, appends
  and removes, with any names and null pointers, returns exactly the result codes of the
  specification (argument, name, existence, space and size errors in that precedence) and leaves
  exactly its contents.
\<close>

theorem ramfs_refines_map:
  assumes "ramfs_shape fs0" and "list_all file_op_ok ops"
  shows "fst (run_ops ramfs_step ops (ramfs_init fs0)) = fst (run_ops file_spec ops Map.empty)
    \<and> ramfs_view (snd (run_ops ramfs_step ops (ramfs_init fs0))) = snd (run_ops file_spec ops Map.empty)"
  using ramfs_store.run_refines [OF ramfs_init_clean(1) [OF assms(1)] assms(2)] ramfs_init_clean(2) [OF assms(1)]
  by simp

theorem ramfs_refines_map_witness:
  "fst (run_ops ramfs_step [Create_File (Some ''..''), Create_File (Some ''log.txt''), Create_File (Some ''log.txt''),
       Write_File (Some ''log.txt'') (Some [1, 2, 3]) 2, Append_File (Some ''log.txt'') (Some [9]) 1,
       Append_File (Some ''log.txt'') (Some (replicate 510 0)) 510, Write_File (Some ''log.txt'') None 1,
       Remove_File (Some ''none'')] (ramfs_init example_ramfs)) =
     [RAMFS_RESULT_INVALID_NAME, RAMFS_RESULT_OK, RAMFS_RESULT_ALREADY_EXISTS, RAMFS_RESULT_OK, RAMFS_RESULT_OK,
      RAMFS_RESULT_TOO_LARGE, RAMFS_RESULT_INVALID_ARGUMENT, RAMFS_RESULT_NOT_FOUND]"
proof -
  have v: "\<not> valid_name ''..''" "valid_name ''log.txt''" "valid_name ''none''" by code_simp+
  show ?thesis
    by (subst ramfs_refines_map [OF example_ramfs_shape, THEN conjunct1])
      (simp_all add: v Let_def bytes_of_def)
qed

text \<open>
  (C39) Round trips. A successful write followed by a read of the same name returns exactly the bytes written,
  a successful append returns the previous contents followed by the appended bytes, and the
  read itself stores the file's size and leaves the rest of the caller's buffer alone.
\<close>

theorem ramfs_write_append_read:
  assumes wf: "ramfs_wf fs" and d: "unat len \<le> length d"
  shows "(fst (ramfs_write (Some nm) (Some d) len fs) = RAMFS_RESULT_OK \<longrightarrow>
      ramfs_fetch nm (snd (ramfs_write (Some nm) (Some d) len fs)) = Some (take (unat len) d))
    \<and> (fst (ramfs_append (Some nm) (Some d) len fs) = RAMFS_RESULT_OK \<longrightarrow>
      (\<exists>old. ramfs_fetch nm fs = Some old \<and>
        ramfs_fetch nm (snd (ramfs_append (Some nm) (Some d) len fs)) = Some (old @ take (unat len) d)))
    \<and> (\<forall>buffer capacity bytes. ramfs_fetch nm fs = Some bytes \<and> length bytes \<le> unat capacity \<and>
        unat capacity \<le> length buffer \<longrightarrow> ramfs_read (Some nm) (Some buffer) capacity True fs =
          (RAMFS_RESULT_OK, Some (bytes @ drop (length bytes) buffer), Some (of_nat (length bytes))))"
proof -
  have valid: "valid_name (c_str nm)" if "ramfs_fetch nm fs = Some bytes" for bytes
    using that by (auto simp: ramfs_fetch_def ramfs_read_def name_is_valid_iff split: if_splits)
  show ?thesis
    using ramfs_store.write_fetch [OF wf, of nm d len] ramfs_store.append_fetch [OF wf, of nm d len] d
      read_file [OF wf] ramfs_store.fetch_view [OF wf] valid by auto
qed

theorem ramfs_write_append_read_witness:
  "\<exists>fs. ramfs_wf fs \<and> ramfs_fetch ''a'' (snd (ramfs_write (Some ''a'') (Some [4, 5, 6]) 2 fs)) = Some [4, 5]"
proof -
  let ?ops = "[Create_File (Some ''a'')]"
  define fs where "fs = snd (run_ops ramfs_step ?ops (ramfs_init example_ramfs))"
  note r = ramfs_store.run_refines [OF ramfs_init_clean(1) [OF example_ramfs_shape], of ?ops]
  have v: "valid_name ''a''" by code_simp
  have wf: "ramfs_wf fs" and view: "ramfs_view fs ''a'' = Some []"
    using r v ramfs_init_clean(2) [OF example_ramfs_shape] by (simp_all add: fs_def Let_def)
  have "fst (ramfs_write (Some ''a'') (Some [4, 5, 6]) 2 fs) = RAMFS_RESULT_OK"
    using write_refines [OF wf, of "Some ''a''" "Some [4, 5, 6]" 2] v view by (simp add: Let_def)
  with ramfs_write_append_read [OF wf, of 2 "[4, 5, 6]" "''a''"] wf show ?thesis by auto
qed

text \<open>
  (C40) \<open>ramfs_validate\<close> is exactly the invariant: on arrays of the declared sizes it returns true if and only
  if every free slot is blank, every live slot has a legal name and size, no two live files
  share a name and the counter is their number. Every operation keeps it true.
\<close>

theorem ramfs_validate_exact:
  assumes "ramfs_shape fs" and "file_op_ok x"
  shows "(ramfs_validate fs \<longleftrightarrow> ramfs_wf fs) \<and> ramfs_validate (ramfs_init fs)
    \<and> (ramfs_validate fs \<longrightarrow> ramfs_validate (snd (ramfs_step x fs)))"
proof -
  have sh: "ramfs_shape fs'" if "ramfs_wf fs'" for fs'
    using that by (simp add: ramfs_wf_def ramfs_shape_def slot_wf_def)
  show ?thesis
    using validate_iff [OF assms(1)] ramfs_init_clean(1) [OF assms(1)] validate_iff [OF sh]
      ramfs_store.step_inv [OF _ assms(2)] by blast
qed

theorem ramfs_validate_exact_witness:
  "ramfs_validate (ramfs_init example_ramfs) \<and> \<not> ramfs_validate example_ramfs"
proof -
  have "\<not> ramfs_wf example_ramfs" by (simp add: ramfs_wf_def example_ramfs_def slot_wf_def valid_name_def c_str_def)
  then show ?thesis
    using ramfs_validate_exact [OF example_ramfs_shape, of "Create_File None"] by simp
qed

text \<open>
  Listing: \<open>ramfs_get_info\<close> answers exactly the indices below \<open>ramfs_count\<close>; each answer is the name and
  the size of a file, and every file is the answer to exactly one index.
\<close>

theorem ramfs_listing_exact:
  assumes wf: "ramfs_wf fs"
  shows "(\<forall>i. ramfs_get_info i True fs = None \<longleftrightarrow> i \<ge> ramfs_count fs)
    \<and> (\<forall>i nm size. ramfs_get_info i True fs = Some (nm, size) \<longrightarrow>
        (\<exists>bytes. ramfs_view fs (c_str nm) = Some bytes \<and> unat size = length bytes))
    \<and> (\<forall>w bytes. ramfs_view fs w = Some bytes \<longrightarrow>
        (\<exists>!i. \<exists>nm size. ramfs_get_info i True fs = Some (nm, size) \<and> c_str nm = w))"
proof -
  let ?L = "filter alive (slots fs)"
  have len: "length ?L \<le> RAMFS_MAX_FILES" using wf unfolding ramfs_wf_def by (metis length_filter_le)
  then have cnt: "i < ramfs_count fs \<longleftrightarrow> unat i < length ?L" for i
    using wf by (simp add: ramfs_count_def ramfs_wf_def live_files_def word_less_nat_alt unat_word_of_nat_small)
  have dist: "distinct (map fst (live_files (slots fs)))" using wf by (simp add: ramfs_wf_def)
  have at: "fst (live_files (slots fs) ! n) = c_str (slot_name (?L ! n))"
    "snd (live_files (slots fs) ! n) = take (unat (slot_length (?L ! n))) (slot_data (?L ! n))" if "n < length ?L" for n
    using that by (simp_all add: live_files_def slot_file_def)
  have ll: "length (live_files (slots fs)) = length ?L" by (simp add: live_files_def)
  have view: "ramfs_view fs w = Some bytes \<longleftrightarrow> (\<exists>n < length ?L. (w, bytes) = live_files (slots fs) ! n)" for w bytes
    unfolding ramfs_view_def map_of_eq_Some_iff [OF dist] in_set_conv_nth ll by metis
  have size: "unat (slot_length (?L ! n)) \<le> length (slot_data (?L ! n))" if "n < length ?L" for n
    using nth_mem [OF that] wf by (auto simp: ramfs_wf_def slot_wf_def slot_shape_def)
  have none: "\<forall>i. ramfs_get_info i True fs = None \<longleftrightarrow> i \<ge> ramfs_count fs"
    by (auto simp: get_info_eq [OF wf] not_less)
  moreover have "\<exists>bytes. ramfs_view fs (c_str nm) = Some bytes \<and> unat sz = length bytes"
    if "ramfs_get_info i True fs = Some (nm, sz)" for i nm sz
  proof -
    have n: "unat i < length ?L" "nm = slot_name (?L ! unat i)" "sz = slot_length (?L ! unat i)"
      using that cnt by (auto simp: get_info_eq [OF wf] split: if_splits)
    with at [OF n(1)] size [OF n(1)] show ?thesis
      by (metis length_take min.absorb2 prod.collapse view)
  qed
  moreover have "\<exists>!i. \<exists>nm size. ramfs_get_info i True fs = Some (nm, size) \<and> c_str nm = w"
    if "ramfs_view fs w = Some bytes" for w bytes
  proof -
    from that view obtain n where n: "n < length ?L" "live_files (slots fs) ! n = (w, bytes)" by metis
    have ui: "unat (of_nat n :: u32) = n" using n(1) len by (simp add: unat_word_of_nat_small)
    show ?thesis
    proof (rule ex1I [of _ "of_nat n"])
      show "\<exists>nm size. ramfs_get_info (of_nat n) True fs = Some (nm, size) \<and> c_str nm = w"
        using n at [OF n(1)] cnt [of "of_nat n"] by (simp add: get_info_eq [OF wf] ui)
      fix i assume "\<exists>nm size. ramfs_get_info i True fs = Some (nm, size) \<and> c_str nm = w"
      then have i: "unat i < length ?L" "c_str (slot_name (?L ! unat i)) = w"
        using cnt by (auto simp: get_info_eq [OF wf] split: if_splits)
      then have "map fst (live_files (slots fs)) ! unat i = map fst (live_files (slots fs)) ! n"
        using at n ll by simp
      then have "unat i = n"
        using nth_eq_iff_index_eq [OF dist] i(1) n(1) ll by simp
      then show "i = of_nat n" by auto
    qed
  qed
  ultimately show ?thesis by blast
qed

theorem ramfs_listing_exact_witness:
  "ramfs_get_info 0 True (ramfs_init example_ramfs) = None \<and> ramfs_count (ramfs_init example_ramfs) = 0"
  using ramfs_listing_exact [OF ramfs_init_clean(1) [OF example_ramfs_shape]]
  by (simp add: ramfs_count_def ramfs_init_def)

end
