(* ===== verification/Line_Editor.thy ===== *)
theory Line_Editor
  imports C_String
begin

text \<open>
  The shell's line editor, \<open>kernel/shell/line_editor.c\<close>: a terminated buffer of at most 127 printable
  characters with erase and submit. A null editor or line pointer is \<open>None\<close>.
\<close>

section \<open>State and operations\<close>

abbreviation SHELL_LINE_MAX :: nat where "SHELL_LINE_MAX \<equiv> 127"

datatype shell_line_event = SHELL_LINE_NONE | SHELL_LINE_ECHO | SHELL_LINE_ERASE | SHELL_LINE_READY | SHELL_LINE_FULL

record shell_line_editor =
  buffer :: "char list"
  line_length :: u32
  overflow_count :: u32
  ready :: bool

definition is_printable_ascii :: "char \<Rightarrow> bool" where
  "is_printable_ascii character \<longleftrightarrow> (let byte = (of_char character :: nat) in 0x20 \<le> byte \<and> byte \<le> 0x7E)"

definition clear_line_buffer :: "shell_line_editor \<Rightarrow> shell_line_editor" where
  "clear_line_buffer editor = editor
     \<lparr>buffer := fold (\<lambda>index b. b[index := NUL]) [0..<SHELL_LINE_MAX + 1] (buffer editor),
      line_length := 0, ready := False\<rparr>"

definition shell_line_editor_init :: "shell_line_editor option \<Rightarrow> shell_line_editor option" where
  "shell_line_editor_init editor = (case editor of None \<Rightarrow> None
     | Some editor \<Rightarrow> Some ((clear_line_buffer editor)\<lparr>overflow_count := 0\<rparr>))"

definition shell_line_editor_feed ::
  "shell_line_editor option \<Rightarrow> char \<Rightarrow> shell_line_event \<times> shell_line_editor option" where
  "shell_line_editor_feed ptr character =
     (case ptr of None \<Rightarrow> (SHELL_LINE_NONE, None)
      | Some editor \<Rightarrow>
        if ready editor then (SHELL_LINE_NONE, Some editor)
        else if character = CHR 0x08 then
          (if line_length editor = 0 then (SHELL_LINE_NONE, Some editor)
           else
             let len = line_length editor - 1 in
             (SHELL_LINE_ERASE, Some (editor\<lparr>line_length := len, buffer := (buffer editor)[unat len := NUL]\<rparr>)))
        else if character = CHR 0x0A \<or> character = CHR 0x0D then
          (SHELL_LINE_READY, Some (editor\<lparr>ready := True\<rparr>))
        else if \<not> is_printable_ascii character then (SHELL_LINE_NONE, Some editor)
        else if line_length editor \<ge> of_nat SHELL_LINE_MAX then
          (SHELL_LINE_FULL, Some (editor\<lparr>overflow_count := overflow_count editor + 1\<rparr>))
        else
          let stored = (buffer editor)[unat (line_length editor) := character];
              len = line_length editor + 1 in
          (SHELL_LINE_ECHO, Some (editor\<lparr>buffer := stored[unat len := NUL], line_length := len\<rparr>)))"

text \<open>The caller's line buffer is an option; the result is the buffer afterwards.\<close>

definition shell_line_editor_take ::
  "shell_line_editor option \<Rightarrow> char list option \<Rightarrow> u32 \<Rightarrow> bool \<times> char list option \<times> shell_line_editor option" where
  "shell_line_editor_take ptr line capacity =
     (case (ptr, line) of
        (Some editor, Some out) \<Rightarrow>
          if \<not> ready editor \<or> line_length editor > of_nat SHELL_LINE_MAX \<or> capacity \<le> line_length editor
          then (False, line, ptr)
          else (True, Some (fold (\<lambda>index l. l[index := buffer editor ! index]) [0..<unat (line_length editor) + 1] out),
                Some (clear_line_buffer editor))
      | _ \<Rightarrow> (False, line, ptr))"

definition shell_line_editor_overflow_count :: "shell_line_editor option \<Rightarrow> u32" where
  "shell_line_editor_overflow_count ptr = (case ptr of None \<Rightarrow> 0 | Some editor \<Rightarrow> overflow_count editor)"

section \<open>The specification: a text, a flag and a counter\<close>

type_synonym line_state = "string \<times> bool \<times> u32"

definition line_spec :: "char \<Rightarrow> line_state \<Rightarrow> shell_line_event \<times> line_state" where
  "line_spec c = (\<lambda>(t, rdy, n).
     if rdy then (SHELL_LINE_NONE, t, rdy, n)
     else if c = CHR 0x08 then (if t = [] then SHELL_LINE_NONE else SHELL_LINE_ERASE, butlast t, rdy, n)
     else if c = CHR 0x0A \<or> c = CHR 0x0D then (SHELL_LINE_READY, t, True, n)
     else if \<not> is_printable_ascii c then (SHELL_LINE_NONE, t, rdy, n)
     else if length t = SHELL_LINE_MAX then (SHELL_LINE_FULL, t, rdy, n + 1)
     else (SHELL_LINE_ECHO, t @ [c], rdy, n))"

definition le_text :: "shell_line_editor \<Rightarrow> string" where
  "le_text e = take (unat (line_length e)) (buffer e)"

definition le_view :: "shell_line_editor \<Rightarrow> line_state" where
  "le_view e = (le_text e, ready e, overflow_count e)"

text \<open>The rest of the buffer is blank, so the text is always terminated.\<close>

definition le_wf :: "shell_line_editor \<Rightarrow> bool" where
  "le_wf e \<longleftrightarrow> unat (line_length e) \<le> SHELL_LINE_MAX \<and> list_all is_printable_ascii (le_text e) \<and>
     buffer e = le_text e @ replicate (SHELL_LINE_MAX + 1 - unat (line_length e)) NUL"

lemma printable_not_NUL: "is_printable_ascii c \<Longrightarrow> c \<noteq> NUL"
  by (auto simp: is_printable_ascii_def)

lemma le_length: "le_wf e \<Longrightarrow> length (buffer e) = SHELL_LINE_MAX + 1 \<and> length (le_text e) = unat (line_length e)"
proof -
  assume wf: "le_wf e"
  have "length (buffer e) = length (le_text e @ replicate (SHELL_LINE_MAX + 1 - unat (line_length e)) NUL)"
    using wf unfolding le_wf_def by (elim conjE) (rule arg_cong)
  moreover have "length (le_text e) = min (length (buffer e)) (unat (line_length e))" by (simp add: le_text_def)
  moreover have "unat (line_length e) \<le> SHELL_LINE_MAX" using wf by (simp add: le_wf_def)
  ultimately show ?thesis by (simp add: min_def split: if_splits)
qed

lemma le_buffer_text:
  assumes "le_wf e"
  shows "c_str (buffer e) = le_text e"
proof -
  have "NUL \<notin> set (le_text e)" using assms printable_not_NUL by (auto simp: le_wf_def list_all_iff)
  moreover obtain k where "buffer e = le_text e @ NUL # replicate k NUL"
    using assms by (cases "SHELL_LINE_MAX + 1 - unat (line_length e)") (auto simp: le_wf_def)
  ultimately show ?thesis by simp
qed

text \<open>A buffer built from a text determines the well-formedness and the view.\<close>

lemma le_of_text:
  assumes "length t \<le> SHELL_LINE_MAX" and "list_all is_printable_ascii t"
    and "buffer e = t @ replicate (SHELL_LINE_MAX + 1 - length t) NUL" and "line_length e = of_nat (length t)"
  shows "le_wf e" and "le_text e = t"
proof -
  have "unat (line_length e) = length t" using assms(1,4) by (simp add: unat_word_of_nat_small)
  then show "le_text e = t" "le_wf e" using assms by (simp_all add: le_text_def le_wf_def)
qed

lemma clear_line_text:
  assumes "length (buffer e) = SHELL_LINE_MAX + 1"
  shows "le_wf (clear_line_buffer e) \<and> le_text (clear_line_buffer e) = [] \<and> \<not> ready (clear_line_buffer e) \<and>
    overflow_count (clear_line_buffer e) = overflow_count e"
proof -
  have "buffer (clear_line_buffer e) = replicate (SHELL_LINE_MAX + 1) NUL"
    using assms by (simp add: clear_line_buffer_def fold_fill_upt map_replicate_const del: upt_Suc upt_rec_numeral)
  then show ?thesis
    using le_of_text [of "[]" "clear_line_buffer e"] by (simp add: clear_line_buffer_def)
qed

text \<open>The two edits of the buffer.\<close>

lemma le_erase:
  assumes wf: "le_wf e" and ne: "line_length e \<noteq> 0"
  defines "e' \<equiv> e\<lparr>line_length := line_length e - 1, buffer := (buffer e)[unat (line_length e - 1) := NUL]\<rparr>"
  shows "le_wf e' \<and> le_text e' = butlast (le_text e)"
proof -
  let ?t = "le_text e"
  have len: "length ?t = unat (line_length e)" "length ?t \<le> SHELL_LINE_MAX" "list_all is_printable_ascii ?t"
    and buf: "buffer e = ?t @ replicate (SHELL_LINE_MAX + 1 - length ?t) NUL"
    using wf le_length [OF wf] by (simp_all add: le_wf_def)
  have pos: "?t \<noteq> []" using ne len(1) by (auto simp: unat_eq_zero simp flip: length_0_conv)
  then have ul: "unat (line_length e - 1) = length ?t - 1" using ne len(1) by (simp add: unat_minus_one)
  have "length (butlast ?t) \<le> SHELL_LINE_MAX" using len by simp
  moreover have "list_all is_printable_ascii (butlast ?t)"
    using len(3) by (auto simp: list_all_iff dest: in_set_butlastD)
  moreover have "buffer e' = butlast ?t @ replicate (SHELL_LINE_MAX + 1 - length (butlast ?t)) NUL"
  proof -
    obtain t c where t: "?t = t @ [c]" using pos by (meson rev_exhaust)
    have k: "SHELL_LINE_MAX + 1 - length t = Suc (SHELL_LINE_MAX + 1 - length ?t)" using t len(2) by simp
    have "buffer e' = (t @ [c] @ replicate (SHELL_LINE_MAX + 1 - length ?t) NUL)[length t := NUL]"
      using ul t buf by (simp add: e'_def)
    also have "\<dots> = t @ NUL # replicate (SHELL_LINE_MAX + 1 - length ?t) NUL" by (simp add: list_update_append)
    finally show ?thesis using k t by simp
  qed
  moreover have "line_length e' = of_nat (length (butlast ?t))"
    using arg_cong [OF ul, of "word_of_nat :: nat \<Rightarrow> u32"] by (simp add: e'_def)
  ultimately show ?thesis using le_of_text by blast
qed

lemma le_type:
  assumes wf: "le_wf e" and room: "length (le_text e) < SHELL_LINE_MAX" and c: "is_printable_ascii c"
  defines "e' \<equiv> e\<lparr>buffer := ((buffer e)[unat (line_length e) := c])[unat (line_length e + 1) := NUL],
      line_length := line_length e + 1\<rparr>"
  shows "le_wf e' \<and> le_text e' = le_text e @ [c]"
proof -
  let ?t = "le_text e"
  have len: "length ?t = unat (line_length e)" "list_all is_printable_ascii ?t"
    and buf: "buffer e = ?t @ replicate (SHELL_LINE_MAX + 1 - length ?t) NUL"
    using wf le_length [OF wf] by (simp_all add: le_wf_def)
  have ul: "unat (line_length e + 1) = Suc (length ?t)" using len(1) room by (simp add: unat_add_no_wrap)
  obtain k where "SHELL_LINE_MAX - length ?t = Suc k" using room by (cases "SHELL_LINE_MAX - length ?t") auto
  then have k: "SHELL_LINE_MAX + 1 - length ?t = Suc (Suc k)" "SHELL_LINE_MAX - length ?t = Suc k" by auto
  have "buffer e' = (?t @ [c]) @ replicate (SHELL_LINE_MAX + 1 - length (?t @ [c])) NUL"
  proof -
    have "buffer e' = ((?t @ NUL # NUL # replicate k NUL)[length ?t := c])[Suc (length ?t) := NUL]"
      using ul len(1) buf k by (simp add: e'_def)
    then show ?thesis using k by (simp add: list_update_append)
  qed
  moreover have "line_length e' = of_nat (length (?t @ [c]))"
    using len(1) by (simp add: e'_def)
  ultimately show ?thesis using le_of_text [of "?t @ [c]" e'] room c len(2) by simp
qed

lemma le_more [simp]:
  "le_text (e\<lparr>ready := b\<rparr>) = le_text e" "le_text (e\<lparr>overflow_count := n\<rparr>) = le_text e"
  "le_wf (e\<lparr>ready := b\<rparr>) = le_wf e" "le_wf (e\<lparr>overflow_count := n\<rparr>) = le_wf e"
  by (simp_all add: le_text_def le_wf_def)

lemma le_feed_refines:
  assumes wf: "le_wf e"
  shows "\<exists>e'. snd (shell_line_editor_feed (Some e) c) = Some e' \<and> le_wf e' \<and>
    fst (shell_line_editor_feed (Some e) c) = fst (line_spec c (le_view e)) \<and>
    le_view e' = snd (line_spec c (le_view e))"
proof -
  have len: "length (le_text e) = unat (line_length e)" using le_length [OF wf] by simp
  have le: "unat (line_length e) \<le> SHELL_LINE_MAX" using wf by (simp add: le_wf_def)
  have empty: "line_length e = 0 \<longleftrightarrow> le_text e = []" using len by (auto simp: unat_eq_zero simp flip: length_0_conv)
  have full: "of_nat SHELL_LINE_MAX \<le> line_length e \<longleftrightarrow> length (le_text e) = SHELL_LINE_MAX"
    using len le by (auto simp: word_le_nat_alt)
  consider "ready e" | "\<not> ready e" "c = CHR 0x08" | "\<not> ready e" "c = CHR 0x0A \<or> c = CHR 0x0D"
    | "\<not> ready e" "c \<notin> {CHR 0x08, CHR 0x0A, CHR 0x0D}" by auto
  then show ?thesis
  proof cases
    case 2
    show ?thesis
    proof (cases "line_length e = 0")
      case True
      with 2 wf empty show ?thesis by (simp add: shell_line_editor_feed_def line_spec_def le_view_def)
    next
      case False
      with 2 le_erase [OF wf False] empty show ?thesis
        by (simp add: shell_line_editor_feed_def line_spec_def le_view_def Let_def)
    qed
  next
    case 4
    consider "\<not> is_printable_ascii c" | "is_printable_ascii c" "length (le_text e) = SHELL_LINE_MAX"
      | "is_printable_ascii c" "length (le_text e) < SHELL_LINE_MAX" using len le by fastforce
    then show ?thesis
    proof cases
      case 2
      with 4 wf full show ?thesis
        by (simp add: shell_line_editor_feed_def line_spec_def le_view_def)
    next
      case 3
      with 4 full le_type [OF wf 3(2,1)] show ?thesis
        by (simp add: shell_line_editor_feed_def line_spec_def le_view_def Let_def)
    next
      case 1
      with 4 wf show ?thesis by (simp add: shell_line_editor_feed_def line_spec_def le_view_def)
    qed
  next
    case 1
    with wf show ?thesis by (simp add: shell_line_editor_feed_def line_spec_def le_view_def)
  next
    case 3
    with wf show ?thesis by (auto simp: shell_line_editor_feed_def line_spec_def le_view_def)
  qed
qed

section \<open>Properties\<close>

definition le_step :: "char \<Rightarrow> shell_line_editor option \<Rightarrow> shell_line_event \<times> shell_line_editor option" where
  "le_step c e = shell_line_editor_feed e c"

definition example_editor :: shell_line_editor where
  "example_editor = \<lparr>buffer = replicate 128 (CHR ''x''), line_length = 90, overflow_count = 4, ready = True\<rparr>"

lemma le_init:
  assumes "length (buffer e0) = SHELL_LINE_MAX + 1"
  obtains e where "shell_line_editor_init (Some e0) = Some e" and "le_wf e" and "le_view e = ([], False, 0)"
  using clear_line_text [OF assms] that [of "(clear_line_buffer e0)\<lparr>overflow_count := 0\<rparr>"]
  by (simp add: shell_line_editor_init_def le_view_def)

lemma le_run_refines:
  assumes "le_wf e"
  obtains e' where "snd (run_ops le_step cs (Some e)) = Some e'" and "le_wf e'"
    and "fst (run_ops le_step cs (Some e)) = fst (run_ops line_spec cs (le_view e))"
    and "le_view e' = snd (run_ops line_spec cs (le_view e))"
proof -
  let ?good = "\<lambda>s. \<exists>e. s = Some e \<and> le_wf e"
  have "?good (snd (run_ops le_step cs (Some e))) \<and>
      fst (run_ops le_step cs (Some e)) = fst (run_ops line_spec cs ((le_view \<circ> the) (Some e))) \<and>
      (le_view \<circ> the) (snd (run_ops le_step cs (Some e))) = snd (run_ops line_spec cs ((le_view \<circ> the) (Some e)))"
  proof (rule run_ops_simulation [where ok = "\<lambda>_. True"])
    fix c s assume "?good s"
    then obtain e where "s = Some e" "le_wf e" by blast
    with le_feed_refines [of e c] show "?good (snd (le_step c s)) \<and> fst (le_step c s) = fst (line_spec c ((le_view \<circ> the) s)) \<and>
      (le_view \<circ> the) (snd (le_step c s)) = snd (line_spec c ((le_view \<circ> the) s))"
      by (auto simp: le_step_def)
  qed (use assms in \<open>auto simp: list_all_iff\<close>)
  then show ?thesis using that by auto
qed

text \<open>
  (C33) The editor is the line discipline of the specification: from \<open>shell_line_editor_init\<close> on, any
  characters give exactly the specified events, and the buffer is always the terminated text they leave.
  The text never exceeds 127 printable characters, whatever is typed.
\<close>

theorem line_editor_refines:
  assumes "length (buffer e0) = SHELL_LINE_MAX + 1"
  shows "\<exists>e t rdy n. run_ops line_spec cs ([], False, 0) = (fst (run_ops le_step cs (shell_line_editor_init (Some e0))), t, rdy, n)
    \<and> snd (run_ops le_step cs (shell_line_editor_init (Some e0))) = Some e
    \<and> c_str (buffer e) = t \<and> unat (line_length e) = length t \<and> length t \<le> SHELL_LINE_MAX \<and> list_all is_printable_ascii t
    \<and> length (buffer e) = SHELL_LINE_MAX + 1
    \<and> ready e = rdy \<and> shell_line_editor_overflow_count (Some e) = n"
proof -
  obtain e1 where e1: "shell_line_editor_init (Some e0) = Some e1" "le_wf e1" "le_view e1 = ([], False, 0)"
    using le_init [OF assms] .
  obtain e where e: "snd (run_ops le_step cs (Some e1)) = Some e" "le_wf e"
    "fst (run_ops le_step cs (Some e1)) = fst (run_ops line_spec cs ([], False, 0))"
    "le_view e = snd (run_ops line_spec cs ([], False, 0))"
    using le_run_refines [OF e1(2), of cs] e1(3) by metis
  note len = le_length [OF e(2)]
  have "list_all is_printable_ascii (le_text e)" "unat (line_length e) \<le> SHELL_LINE_MAX" using e(2) by (simp_all add: le_wf_def)
  then show ?thesis
    using e1(1) e le_buffer_text [OF e(2)] len
    by (intro exI [of _ e] exI [of _ "le_text e"] exI [of _ "ready e"] exI [of _ "overflow_count e"])
      (simp add: le_view_def shell_line_editor_overflow_count_def prod_eq_iff)
qed

theorem line_editor_refines_witness:
  "\<exists>e. snd (run_ops le_step [CHR ''l'', CHR ''x'', CHR 0x08, CHR ''s'', CHR 0x07, CHR 0x0A, CHR ''q'']
       (shell_line_editor_init (Some example_editor))) = Some e \<and> c_str (buffer e) = ''ls'' \<and> ready e"
proof -
  have len: "length (buffer example_editor) = SHELL_LINE_MAX + 1" by (simp add: example_editor_def)
  have "snd (run_ops line_spec [CHR ''l'', CHR ''x'', CHR 0x08, CHR ''s'', CHR 0x07, CHR 0x0A, CHR ''q''] ([], False, 0)) =
      (''ls'', True, 0)"
    by (simp add: line_spec_def is_printable_ascii_def)
  with line_editor_refines [OF len, of "[CHR ''l'', CHR ''x'', CHR 0x08, CHR ''s'', CHR 0x07, CHR 0x0A, CHR ''q'']"]
  show ?thesis by auto
qed

text \<open>
  \<open>shell_line_editor_take\<close>: it succeeds exactly on a submitted line that fits the caller's
  buffer with its terminator; then the caller has exactly the text, terminated, the rest of the
  buffer is untouched and the editor is empty again with its overflow count kept. A failed call
  changes nothing.
\<close>

theorem line_editor_take_exact:
  assumes wf: "le_wf e" and cap: "unat capacity \<le> length out"
  shows "shell_line_editor_take (Some e) (Some out) capacity =
      (if ready e \<and> length (le_text e) < unat capacity
       then (True, Some (le_text e @ NUL # drop (length (le_text e) + 1) out), Some (clear_line_buffer e))
       else (False, Some out, Some e))
    \<and> le_wf (clear_line_buffer e)
    \<and> le_view (clear_line_buffer e) = ([], False, overflow_count e)"
proof -
  note len = le_length [OF wf]
  have n: "unat (line_length e) \<le> SHELL_LINE_MAX" and buf: "buffer e = le_text e @ replicate (SHELL_LINE_MAX + 1 - unat (line_length e)) NUL"
    using wf by (simp_all add: le_wf_def)
  let ?n = "unat (line_length e) + 1"
  have copy: "fold (\<lambda>index l. l[index := buffer e ! index]) [0..<?n] out = le_text e @ NUL # drop ?n out"
    if "unat (line_length e) < unat capacity"
  proof -
    have "fold (\<lambda>index l. l[index := buffer e ! index]) [0..<?n] out = map ((!) (buffer e)) [0..<?n] @ drop ?n out"
      using that cap by (intro fold_fill_upt) simp
    also have "map ((!) (buffer e)) [0..<?n] = take ?n (buffer e)"
      using len n by (intro nth_equalityI) (simp_all del: upt_Suc)
    also have "take ?n (buffer e) = le_text e @ [NUL]"
      by (subst buf) (use len n in \<open>simp add: take_Cons' Suc_diff_le\<close>)
    finally show ?thesis by simp
  qed
  have "shell_line_editor_take (Some e) (Some out) capacity =
      (if ready e \<and> length (le_text e) < unat capacity
       then (True, Some (le_text e @ NUL # drop (length (le_text e) + 1) out), Some (clear_line_buffer e))
       else (False, Some out, Some e))"
    using copy len n by (auto simp: shell_line_editor_take_def word_less_nat_alt word_le_nat_alt simp del: upt_Suc)
  then show ?thesis
    using clear_line_text [of e] len by (simp add: le_view_def)
qed

theorem line_editor_take_exact_witness:
  "\<exists>e'. shell_line_editor_take (Some \<lparr>buffer = ''ls'' @ replicate 126 NUL, line_length = 2, overflow_count = 1, ready = True\<rparr>)
      (Some ''abcdef'') 5 = (True, Some (''ls'' @ NUL # ''def''), Some e') \<and> le_view e' = ([], False, 1)"
proof -
  define e where "e = \<lparr>buffer = ''ls'' @ replicate 126 NUL, line_length = 2, overflow_count = 1, ready = True\<rparr>"
  have "le_wf e" "le_text e = ''ls''"
    using le_of_text [of "''ls''" e] by (simp_all add: e_def is_printable_ascii_def)
  then show ?thesis
    using line_editor_take_exact [of e 5 "''abcdef''"] unfolding e_def [symmetric] by (simp add: e_def)
qed

end
