(* ===== verification/Command.thy ===== *)
theory Command
  imports C_String
begin

text \<open>
  The shell's command parser, \<open>kernel/shell/command.c\<close>. A cursor into the line is the rest of
  the line; the end of the list and a zero character both end it. The specification splits the
  text into words.
\<close>

section \<open>State and operations\<close>

abbreviation SHELL_COMMAND_MAX_ARGS :: nat where "SHELL_COMMAND_MAX_ARGS \<equiv> 8"
abbreviation SHELL_COMMAND_ARG_MAX :: nat where "SHELL_COMMAND_ARG_MAX \<equiv> 31"

datatype shell_command_kind =
    SHELL_COMMAND_HELP | SHELL_COMMAND_CLEAR | SHELL_COMMAND_ECHO | SHELL_COMMAND_LS
  | SHELL_COMMAND_CAT | SHELL_COMMAND_TOUCH | SHELL_COMMAND_WRITE | SHELL_COMMAND_APPEND
  | SHELL_COMMAND_RM | SHELL_COMMAND_STATUS | SHELL_COMMAND_ABOUT | SHELL_COMMAND_UNKNOWN

datatype shell_parse_result =
    SHELL_PARSE_OK | SHELL_PARSE_EMPTY | SHELL_PARSE_INVALID_ARGUMENT
  | SHELL_PARSE_TOO_MANY_ARGUMENTS | SHELL_PARSE_ARGUMENT_TOO_LONG

record shell_command =
  kind :: shell_command_kind
  cmd_name :: "char list"
  argument_count :: u32
  arguments :: "char list list"

definition is_separator :: "char \<Rightarrow> bool" where
  "is_separator character \<longleftrightarrow> character = CHR '' '' \<or> character = CHR 0x09"

text \<open>\<open>strings_equal\<close> compares up to the terminator; both arguments are advanced together.\<close>

fun strings_equal :: "string \<Rightarrow> string \<Rightarrow> bool" where
  "strings_equal [] right \<longleftrightarrow> c_at right 0 = NUL"
| "strings_equal (l # left) right \<longleftrightarrow>
     (if l \<noteq> c_at right 0 then False else if l = NUL then True else strings_equal left (tl right))"

definition command_kind :: "string \<Rightarrow> shell_command_kind" where
  "command_kind name =
     (if strings_equal name ''help'' then SHELL_COMMAND_HELP
      else if strings_equal name ''clear'' then SHELL_COMMAND_CLEAR
      else if strings_equal name ''echo'' then SHELL_COMMAND_ECHO
      else if strings_equal name ''ls'' then SHELL_COMMAND_LS
      else if strings_equal name ''cat'' then SHELL_COMMAND_CAT
      else if strings_equal name ''touch'' then SHELL_COMMAND_TOUCH
      else if strings_equal name ''write'' then SHELL_COMMAND_WRITE
      else if strings_equal name ''append'' then SHELL_COMMAND_APPEND
      else if strings_equal name ''rm'' then SHELL_COMMAND_RM
      else if strings_equal name ''status'' then SHELL_COMMAND_STATUS
      else if strings_equal name ''about'' then SHELL_COMMAND_ABOUT
      else SHELL_COMMAND_UNKNOWN)"

definition clear_text :: "char list \<Rightarrow> char list" where
  "clear_text t = fold (\<lambda>index t. t[index := NUL]) [0..<SHELL_COMMAND_ARG_MAX + 1] t"

definition command_clear :: "shell_command \<Rightarrow> shell_command" where
  "command_clear command = command\<lparr>kind := SHELL_COMMAND_UNKNOWN, argument_count := 0,
     cmd_name := clear_text (cmd_name command),
     arguments := fold (\<lambda>argument a. a[argument := clear_text (a ! argument)]) [0..<SHELL_COMMAND_MAX_ARGS] (arguments command)\<rparr>"

fun copy_token :: "string \<Rightarrow> nat \<Rightarrow> char list \<Rightarrow> shell_parse_result \<times> string \<times> char list" where
  "copy_token [] len destination = (SHELL_PARSE_OK, [], destination[len := NUL])"
| "copy_token (c # cursor) len destination =
     (if c \<noteq> NUL \<and> \<not> is_separator c then
        (if len \<ge> SHELL_COMMAND_ARG_MAX then (SHELL_PARSE_ARGUMENT_TOO_LONG, c # cursor, destination)
         else copy_token cursor (len + 1) (destination[len := c]))
      else (SHELL_PARSE_OK, c # cursor, destination[len := NUL]))"

lemma copy_token_rest_le: "length (fst (snd (copy_token cur len d))) \<le> length cur"
  by (induction cur len d rule: copy_token.induct) (auto simp: le_Suc_eq)

definition skip_separators :: "string \<Rightarrow> string" where
  "skip_separators cursor = dropWhile is_separator cursor"

text \<open>The argument loop of \<open>shell_command_parse\<close>.\<close>

function parse_arguments :: "string \<Rightarrow> shell_command \<Rightarrow> shell_parse_result \<times> shell_command" where
  "parse_arguments cursor parsed =
     (let cursor = skip_separators cursor in
      if c_at cursor 0 = NUL then (SHELL_PARSE_OK, parsed)
      else if argument_count parsed \<ge> of_nat SHELL_COMMAND_MAX_ARGS then (SHELL_PARSE_TOO_MANY_ARGUMENTS, parsed)
      else
        let slot = unat (argument_count parsed);
            (result, cursor, destination) = copy_token cursor 0 (arguments parsed ! slot);
            parsed = parsed\<lparr>arguments := (arguments parsed)[slot := destination]\<rparr> in
        if result \<noteq> SHELL_PARSE_OK then (result, parsed)
        else parse_arguments cursor (parsed\<lparr>argument_count := argument_count parsed + 1\<rparr>))"
  by pat_completeness auto

lemma copy_token_rest_less:
  assumes "c_at cur 0 \<noteq> NUL" and "\<not> is_separator (c_at cur 0)" and "copy_token cur 0 d = (r, rest, d')"
  shows "length rest < length cur"
proof (cases cur)
  case (Cons c cs)
  then show ?thesis using assms copy_token_rest_le [of cs 1 "d[0 := c]"] by simp
qed (use assms in simp)

lemma skip_separators_head:
  "c_at (skip_separators cur) 0 \<noteq> NUL \<Longrightarrow> \<not> is_separator (c_at (skip_separators cur) 0)"
  unfolding skip_separators_def by (induction cur) auto

lemma skip_separators_le: "length (skip_separators cur) \<le> length cur"
  by (simp add: skip_separators_def length_dropWhile_le)

termination parse_arguments
proof (relation "measure (\<lambda>(cursor, parsed). length cursor)", goal_cases)
  case (2 cursor parsed cur slot x result y rest destination parsed')
  then show ?case
    using copy_token_rest_less [of cur "arguments parsed ! slot" result rest destination]
      skip_separators_head [of cursor] skip_separators_le [of cursor] by simp
qed simp

declare parse_arguments.simps [simp del]

text \<open>
  \<open>parsed\<close> is the uninitialised local variable the result is built in. A null line or command pointer
  is \<open>None\<close>; the second result is the caller's command afterwards.
\<close>

definition shell_command_parse ::
  "shell_command \<Rightarrow> string option \<Rightarrow> shell_command option \<Rightarrow> shell_parse_result \<times> shell_command option" where
  "shell_command_parse parsed line command =
     (case (line, command) of
        (Some line, Some out) \<Rightarrow>
          let cursor = skip_separators line in
          if c_at cursor 0 = NUL then (SHELL_PARSE_EMPTY, command)
          else
            let parsed = command_clear parsed;
                (result, cursor, destination) = copy_token cursor 0 (cmd_name parsed);
                parsed = parsed\<lparr>cmd_name := destination\<rparr> in
            if result \<noteq> SHELL_PARSE_OK then (result, command)
            else
              let parsed = parsed\<lparr>kind := command_kind (cmd_name parsed)\<rparr>;
                  (result, parsed) = parse_arguments cursor parsed in
              if result \<noteq> SHELL_PARSE_OK then (result, command)
              else (SHELL_PARSE_OK, Some parsed)
      | _ \<Rightarrow> (SHELL_PARSE_INVALID_ARGUMENT, command))"

definition shell_command_has_valid_arity :: "shell_command option \<Rightarrow> bool" where
  "shell_command_has_valid_arity ptr = (case ptr of None \<Rightarrow> False
     | Some command \<Rightarrow>
       (case kind command of
          SHELL_COMMAND_HELP \<Rightarrow> argument_count command = 0
        | SHELL_COMMAND_CLEAR \<Rightarrow> argument_count command = 0
        | SHELL_COMMAND_LS \<Rightarrow> argument_count command = 0
        | SHELL_COMMAND_STATUS \<Rightarrow> argument_count command = 0
        | SHELL_COMMAND_ABOUT \<Rightarrow> argument_count command = 0
        | SHELL_COMMAND_CAT \<Rightarrow> argument_count command = 1
        | SHELL_COMMAND_TOUCH \<Rightarrow> argument_count command = 1
        | SHELL_COMMAND_RM \<Rightarrow> argument_count command = 1
        | SHELL_COMMAND_WRITE \<Rightarrow> argument_count command \<ge> 2 \<and> argument_count command \<le> of_nat SHELL_COMMAND_MAX_ARGS
        | SHELL_COMMAND_APPEND \<Rightarrow> argument_count command \<ge> 2 \<and> argument_count command \<le> of_nat SHELL_COMMAND_MAX_ARGS
        | SHELL_COMMAND_ECHO \<Rightarrow> argument_count command \<le> of_nat SHELL_COMMAND_MAX_ARGS
        | SHELL_COMMAND_UNKNOWN \<Rightarrow> False))"

fun shell_command_usage :: "shell_command_kind \<Rightarrow> string option" where
  "shell_command_usage SHELL_COMMAND_HELP = Some ''help''"
| "shell_command_usage SHELL_COMMAND_CLEAR = Some ''clear''"
| "shell_command_usage SHELL_COMMAND_ECHO = Some ''echo [text ...]''"
| "shell_command_usage SHELL_COMMAND_LS = Some ''ls''"
| "shell_command_usage SHELL_COMMAND_CAT = Some ''cat <name>''"
| "shell_command_usage SHELL_COMMAND_TOUCH = Some ''touch <name>''"
| "shell_command_usage SHELL_COMMAND_WRITE = Some ''write <name> <text ...>''"
| "shell_command_usage SHELL_COMMAND_APPEND = Some ''append <name> <text ...>''"
| "shell_command_usage SHELL_COMMAND_RM = Some ''rm <name>''"
| "shell_command_usage SHELL_COMMAND_STATUS = Some ''status''"
| "shell_command_usage SHELL_COMMAND_ABOUT = Some ''about''"
| "shell_command_usage SHELL_COMMAND_UNKNOWN = None"

definition shell_command_help :: string where
  "shell_command_help =
     ''help'' @ [CHR 0x0A] @ ''clear'' @ [CHR 0x0A] @ ''echo [text ...]'' @ [CHR 0x0A] @ ''ls'' @ [CHR 0x0A] @
     ''cat <name>'' @ [CHR 0x0A] @ ''touch <name>'' @ [CHR 0x0A] @ ''write <name> <text ...>'' @ [CHR 0x0A] @
     ''append <name> <text ...>'' @ [CHR 0x0A] @ ''rm <name>'' @ [CHR 0x0A] @ ''status'' @ [CHR 0x0A] @ ''about''"

section \<open>The specification: words of bounded number and length\<close>

lemma dropWhile_word_less:
  "dropWhile P s = c # cs \<Longrightarrow> length (dropWhile (Not \<circ> P) (c # cs)) < length s"
proof -
  assume *: "dropWhile P s = c # cs"
  then have "\<not> P c" by (metis hd_dropWhile list.distinct(1) list.sel(1) dropWhile_eq_Nil_conv)
  then have "length (dropWhile (Not \<circ> P) (c # cs)) \<le> length cs" by (simp add: length_dropWhile_le)
  also have "\<dots> < length s" using length_dropWhile_le [of P s] * by simp
  finally show ?thesis .
qed

function cmd_words :: "string \<Rightarrow> string list" where
  "cmd_words s = (case dropWhile is_separator s of
     [] \<Rightarrow> []
   | c # cs \<Rightarrow> takeWhile (Not \<circ> is_separator) (c # cs) # cmd_words (dropWhile (Not \<circ> is_separator) (c # cs)))"
  by pat_completeness auto

termination
  by (relation "measure length") (auto dest: dropWhile_word_less simp del: dropWhile.simps)

declare cmd_words.simps [simp del]

text \<open>A word in its 32-character array.\<close>

definition pad_word :: "string \<Rightarrow> char list" where
  "pad_word w = w @ replicate (SHELL_COMMAND_ARG_MAX + 1 - length w) NUL"

definition kind_table :: "(string \<times> shell_command_kind) list" where
  "kind_table = [(''help'', SHELL_COMMAND_HELP), (''clear'', SHELL_COMMAND_CLEAR), (''echo'', SHELL_COMMAND_ECHO),
     (''ls'', SHELL_COMMAND_LS), (''cat'', SHELL_COMMAND_CAT), (''touch'', SHELL_COMMAND_TOUCH),
     (''write'', SHELL_COMMAND_WRITE), (''append'', SHELL_COMMAND_APPEND), (''rm'', SHELL_COMMAND_RM),
     (''status'', SHELL_COMMAND_STATUS), (''about'', SHELL_COMMAND_ABOUT)]"

definition kind_of_word :: "string \<Rightarrow> shell_command_kind" where
  "kind_of_word w = (case map_of kind_table w of Some k \<Rightarrow> k | None \<Rightarrow> SHELL_COMMAND_UNKNOWN)"

definition command_of_words :: "string \<Rightarrow> string list \<Rightarrow> shell_command" where
  "command_of_words w ws = \<lparr>kind = kind_of_word w, cmd_name = pad_word w, argument_count = of_nat (length ws),
     arguments = map pad_word ws @ replicate (SHELL_COMMAND_MAX_ARGS - length ws) (pad_word [])\<rparr>"

definition parse_spec :: "string \<Rightarrow> shell_parse_result + shell_command" where
  "parse_spec s = (case cmd_words s of
     [] \<Rightarrow> Inl SHELL_PARSE_EMPTY
   | w # ws \<Rightarrow>
       if \<exists>x \<in> set (take (SHELL_COMMAND_MAX_ARGS + 1) (w # ws)). length x > SHELL_COMMAND_ARG_MAX
       then Inl SHELL_PARSE_ARGUMENT_TOO_LONG
       else if length ws > SHELL_COMMAND_MAX_ARGS then Inl SHELL_PARSE_TOO_MANY_ARGUMENTS
       else Inr (command_of_words w ws))"

definition command_shape :: "shell_command \<Rightarrow> bool" where
  "command_shape c \<longleftrightarrow> length (cmd_name c) = SHELL_COMMAND_ARG_MAX + 1 \<and> length (arguments c) = SHELL_COMMAND_MAX_ARGS \<and>
     (\<forall>a \<in> set (arguments c). length a = SHELL_COMMAND_ARG_MAX + 1)"

subsection \<open>Names\<close>

lemma strings_equal_iff: "strings_equal l r \<longleftrightarrow> c_str l = c_str r"
proof (induction l r rule: strings_equal.induct)
  case (1 right)
  then show ?case by (cases right) (auto simp: c_str_def)
next
  case (2 l left right)
  then show ?case by (cases right) (auto simp: c_str_def)
qed

lemma command_kind_word: "command_kind name = kind_of_word (c_str name)"
  by (simp add: command_kind_def strings_equal_iff kind_of_word_def kind_table_def)

lemma c_str_pad: "NUL \<notin> set w \<Longrightarrow> length w \<le> SHELL_COMMAND_ARG_MAX \<Longrightarrow> c_str (pad_word w) = w"
  by (cases "SHELL_COMMAND_ARG_MAX + 1 - length w") (simp_all add: pad_word_def)

subsection \<open>Tokens\<close>

abbreviation word_char :: "char \<Rightarrow> bool" where
  "word_char c \<equiv> c \<noteq> NUL \<and> \<not> is_separator c"

text \<open>Copying a word behind the characters \<open>t\<close> already copied; the rest of the array is blank.\<close>

lemma copy_token_spec:
  "length t + Suc k = SHELL_COMMAND_ARG_MAX + 1 \<Longrightarrow>
   if length (takeWhile word_char cur) \<le> k
   then copy_token cur (length t) (t @ replicate (Suc k) NUL) = (SHELL_PARSE_OK, dropWhile word_char cur,
     t @ takeWhile word_char cur @ replicate (Suc k - length (takeWhile word_char cur)) NUL)
   else fst (copy_token cur (length t) (t @ replicate (Suc k) NUL)) = SHELL_PARSE_ARGUMENT_TOO_LONG"
proof (induction cur arbitrary: t k)
  case (Cons c cur)
  show ?case
  proof (cases k)
    case (Suc m)
    then have "(t @ replicate (Suc k) NUL)[length t := c] = (t @ [c]) @ replicate (Suc m) NUL"
      by (simp add: list_update_append)
    with Cons.IH [of "t @ [c]" m] Cons.prems Suc show ?thesis
      by (auto simp: list_update_append)
  qed (use Cons.prems in \<open>auto simp: list_update_append\<close>)
qed (simp add: list_update_append)

lemma copy_token_pad:
  "if length (takeWhile word_char cur) \<le> SHELL_COMMAND_ARG_MAX
   then copy_token cur 0 (pad_word []) = (SHELL_PARSE_OK, dropWhile word_char cur, pad_word (takeWhile word_char cur))
   else fst (copy_token cur 0 (pad_word [])) = SHELL_PARSE_ARGUMENT_TOO_LONG"
  using copy_token_spec [of "[]" SHELL_COMMAND_ARG_MAX cur] by (simp add: pad_word_def split: if_split_asm)

text \<open>The words of a text without zero characters.\<close>

lemma word_char_text: "NUL \<notin> set cur \<Longrightarrow> takeWhile word_char cur = takeWhile (Not \<circ> is_separator) cur \<and>
    dropWhile word_char cur = dropWhile (Not \<circ> is_separator) cur"
  by (induction cur) auto

lemma cmd_words_skip:
  "skip_separators s = [] \<Longrightarrow> cmd_words s = []"
  "skip_separators s = c # cs \<Longrightarrow> cmd_words s =
     takeWhile (Not \<circ> is_separator) (c # cs) # cmd_words (dropWhile (Not \<circ> is_separator) (c # cs))"
  unfolding skip_separators_def by (subst cmd_words.simps, simp only: list.case)+

lemma skip_separators_NUL: "NUL \<notin> set s \<Longrightarrow> NUL \<notin> set (skip_separators s)"
  unfolding skip_separators_def by (meson set_dropWhileD)

lemma parse_arguments_spec:
  assumes "NUL \<notin> set cur" and "length done \<le> SHELL_COMMAND_MAX_ARGS"
    and "argument_count p = of_nat (length done)"
    and "arguments p = done @ replicate (SHELL_COMMAND_MAX_ARGS - length done) (pad_word [])"
  shows "let ws = cmd_words cur in
    if \<exists>x \<in> set (take (SHELL_COMMAND_MAX_ARGS - length done) ws). length x > SHELL_COMMAND_ARG_MAX
    then fst (parse_arguments cur p) = SHELL_PARSE_ARGUMENT_TOO_LONG
    else if length done + length ws > SHELL_COMMAND_MAX_ARGS then fst (parse_arguments cur p) = SHELL_PARSE_TOO_MANY_ARGUMENTS
    else parse_arguments cur p = (SHELL_PARSE_OK, p\<lparr>argument_count := of_nat (length done + length ws),
      arguments := done @ map pad_word ws @ replicate (SHELL_COMMAND_MAX_ARGS - (length done + length ws)) (pad_word [])\<rparr>)"
  using assms
proof (induction cur arbitrary: "done" p rule: length_induct)
  case (1 cur)
  note nul = skip_separators_NUL [OF "1.prems"(1)]
  have cnt: "argument_count p \<ge> of_nat SHELL_COMMAND_MAX_ARGS \<longleftrightarrow> length done = SHELL_COMMAND_MAX_ARGS"
    "unat (argument_count p) = length done"
    using "1.prems"(2,3) by (auto simp: word_le_nat_alt unat_word_of_nat_small)
  show ?case
  proof (cases "skip_separators cur")
    case Nil
    then show ?thesis
      using "1.prems" cmd_words_skip(1) [OF Nil] by (subst parse_arguments.simps) (simp add: Let_def)
  next
    case (Cons c cs)
    let ?w = "takeWhile (Not \<circ> is_separator) (c # cs)" and ?rest = "dropWhile (Not \<circ> is_separator) (c # cs)"
    have ws: "cmd_words cur = ?w # cmd_words ?rest" by (rule cmd_words_skip(2) [OF Cons])
    have c: "c \<noteq> NUL" using nul Cons by auto
    show ?thesis
    proof (cases "length done = SHELL_COMMAND_MAX_ARGS")
      case True
      with c cnt Cons ws show ?thesis by (subst parse_arguments.simps) (simp add: Let_def)
    next
      case False
      then obtain k where k: "SHELL_COMMAND_MAX_ARGS - length done = Suc k"
        using "1.prems"(2) by (cases "SHELL_COMMAND_MAX_ARGS - length done") auto
      have slot: "arguments p ! length done = pad_word []" using "1.prems"(4) k by (simp add: nth_append)
      have tok: "takeWhile word_char (c # cs) = ?w" "dropWhile word_char (c # cs) = ?rest"
        using word_char_text [of "c # cs"] nul Cons by simp_all
      show ?thesis
      proof (cases "length ?w \<le> SHELL_COMMAND_ARG_MAX")
        case long: False
        then have "fst (parse_arguments cur p) = SHELL_PARSE_ARGUMENT_TOO_LONG"
          using c False cnt copy_token_pad [of "c # cs"] unfolding tok
          by (subst parse_arguments.simps) (simp add: Let_def Cons slot case_prod_beta del: takeWhile.simps copy_token.simps)
        with long ws k show ?thesis by (simp add: Let_def del: takeWhile.simps)
      next
        case fits: True
        define p' where "p' = p\<lparr>arguments := (arguments p)[length done := pad_word ?w], argument_count := argument_count p + 1\<rparr>"
        have step: "parse_arguments cur p = parse_arguments ?rest p'"
          using c False cnt copy_token_pad [of "c # cs"] fits unfolding tok p'_def
          by (subst parse_arguments.simps) (simp add: Let_def Cons slot case_prod_beta del: takeWhile.simps dropWhile.simps copy_token.simps)
        have shorter: "length ?rest < length cur"
          using dropWhile_word_less [of is_separator cur] Cons by (simp add: skip_separators_def del: dropWhile.simps)
        have rest_nul: "NUL \<notin> set ?rest" using nul Cons by (auto dest: set_dropWhileD simp del: dropWhile.simps)
        have p': "argument_count p' = of_nat (length (done @ [pad_word ?w]))"
          "arguments p' = (done @ [pad_word ?w]) @ replicate (SHELL_COMMAND_MAX_ARGS - length (done @ [pad_word ?w])) (pad_word [])"
          "p'\<lparr>argument_count := n, arguments := a\<rparr> = p\<lparr>argument_count := n, arguments := a\<rparr>" for n a
          using "1.prems"(3,4) k by (simp_all add: p'_def list_update_append)
        have k2: "7 - length done = k" using k by simp
        have dl: "length (done @ [pad_word ?w]) \<le> SHELL_COMMAND_MAX_ARGS" using k by simp
        from "1.IH" [rule_format, OF shorter rest_nul dl p'(1,2)] show ?thesis
          using fits k k2 unfolding step ws p'(3)
          by (simp add: Let_def split: if_split_asm del: takeWhile.simps dropWhile.simps)
      qed
    qed
  qed
qed

subsection \<open>The whole parser\<close>

lemma command_clear_shape:
  assumes "command_shape p"
  shows "command_clear p = \<lparr>kind = SHELL_COMMAND_UNKNOWN, cmd_name = pad_word [], argument_count = 0,
    arguments = replicate SHELL_COMMAND_MAX_ARGS (pad_word [])\<rparr>"
proof -
  have clear: "clear_text a = pad_word []" if "length a = SHELL_COMMAND_ARG_MAX + 1" for a
    using that by (simp add: clear_text_def pad_word_def fold_fill_upt map_replicate_const del: upt_Suc upt_rec_numeral)
  have "map clear_text (arguments p) = replicate SHELL_COMMAND_MAX_ARGS (pad_word [])"
    using assms clear by (intro nth_equalityI) (auto simp: command_shape_def)
  then show ?thesis
    using assms clear by (simp add: command_clear_def command_shape_def fold_map_upt del: upt_rec_numeral)
qed

lemma takeWhile_word_NUL: "NUL \<notin> set s \<Longrightarrow> NUL \<notin> set (takeWhile P s)"
  by (auto dest: set_takeWhileD)

lemma parse_text:
  assumes nul: "NUL \<notin> set s" and sh: "command_shape p"
  shows "shell_command_parse p (Some s) (Some out) =
    (case parse_spec s of Inl r \<Rightarrow> (r, Some out) | Inr c \<Rightarrow> (SHELL_PARSE_OK, Some c))"
proof (cases "skip_separators s")
  case Nil
  then show ?thesis
    using cmd_words_skip(1) [OF Nil] by (simp add: shell_command_parse_def parse_spec_def)
next
  case (Cons c cs)
  let ?w = "takeWhile (Not \<circ> is_separator) (c # cs)" and ?rest = "dropWhile (Not \<circ> is_separator) (c # cs)"
  have ws: "cmd_words s = ?w # cmd_words ?rest" by (rule cmd_words_skip(2) [OF Cons])
  note nul' = skip_separators_NUL [OF nul, unfolded Cons]
  have c: "c \<noteq> NUL" using nul' by auto
  have tok: "takeWhile word_char (c # cs) = ?w" "dropWhile word_char (c # cs) = ?rest"
    using word_char_text [OF nul'] by simp_all
  have rest_nul: "NUL \<notin> set ?rest" and w_nul: "NUL \<notin> set ?w"
    using nul' by (auto dest: set_dropWhileD set_takeWhileD simp del: dropWhile.simps takeWhile.simps)
  show ?thesis
  proof (cases "length ?w \<le> SHELL_COMMAND_ARG_MAX")
    case False
    then have "fst (copy_token (c # cs) 0 (pad_word [])) = SHELL_PARSE_ARGUMENT_TOO_LONG"
      using copy_token_pad [of "c # cs"] unfolding tok by simp
    with False c Cons ws command_clear_shape [OF sh] show ?thesis
      by (simp add: shell_command_parse_def parse_spec_def case_prod_beta Let_def del: takeWhile.simps copy_token.simps)
  next
    case True
    define p1 where "p1 = \<lparr>kind = kind_of_word ?w, cmd_name = pad_word ?w, argument_count = 0,
      arguments = replicate SHELL_COMMAND_MAX_ARGS (pad_word [])\<rparr>"
    have p1: "argument_count p1 = of_nat (length [])"
      "arguments p1 = [] @ replicate (SHELL_COMMAND_MAX_ARGS - length []) (pad_word [])" by (simp_all add: p1_def)
    have kind: "command_kind (pad_word ?w) = kind_of_word ?w"
      using c_str_pad [OF w_nul True] by (simp add: command_kind_word del: takeWhile.simps)
    have tk: "copy_token (c # cs) 0 (pad_word []) = (SHELL_PARSE_OK, ?rest, pad_word ?w)"
      using copy_token_pad [of "c # cs"] True unfolding tok by simp
    have run: "shell_command_parse p (Some s) (Some out) =
      (case parse_arguments ?rest p1 of (r, q) \<Rightarrow> if r \<noteq> SHELL_PARSE_OK then (r, Some out) else (SHELL_PARSE_OK, Some q))"
      using c Cons tk kind command_clear_shape [OF sh]
      by (simp add: shell_command_parse_def p1_def Let_def case_prod_beta del: takeWhile.simps dropWhile.simps copy_token.simps)
    have "let ws = cmd_words ?rest in
      if \<exists>x \<in> set (take SHELL_COMMAND_MAX_ARGS ws). length x > SHELL_COMMAND_ARG_MAX
      then fst (parse_arguments ?rest p1) = SHELL_PARSE_ARGUMENT_TOO_LONG
      else if length ws > SHELL_COMMAND_MAX_ARGS then fst (parse_arguments ?rest p1) = SHELL_PARSE_TOO_MANY_ARGUMENTS
      else parse_arguments ?rest p1 = (SHELL_PARSE_OK, p1\<lparr>argument_count := of_nat (length ws),
        arguments := map pad_word ws @ replicate (SHELL_COMMAND_MAX_ARGS - length ws) (pad_word [])\<rparr>)"
      using parse_arguments_spec [OF rest_nul _ p1] unfolding Let_def list.size(3) append_Nil add_0 diff_zero by simp
    then show ?thesis
      using True unfolding run parse_spec_def ws
      by (auto simp: Let_def p1_def command_of_words_def case_prod_beta dest: in_set_takeD split: if_split_asm
          simp del: takeWhile.simps dropWhile.simps)
  qed
qed

text \<open>Only the text up to the terminator matters.\<close>

lemma c_at_c_str: "c_at (c_str s) 0 = c_at s 0"
  by (cases s) (auto simp: c_str_def)

lemma skip_c_str: "skip_separators (c_str s) = c_str (skip_separators s)"
  by (induction s) (auto simp: skip_separators_def c_str_def is_separator_def)

lemma copy_token_c_str:
  "copy_token (c_str s) len d = (case copy_token s len d of (r, rest, d') \<Rightarrow> (r, c_str rest, d'))"
  by (induction s len d rule: copy_token.induct) (auto simp: c_str_def)

lemma parse_arguments_c_str: "parse_arguments (c_str s) p = parse_arguments s p"
proof (induction s p rule: parse_arguments.induct)
  case (1 s p)
  let ?s = "skip_separators s" and ?slot = "unat (argument_count p)"
  obtain r rest d where tk: "copy_token ?s 0 (arguments p ! ?slot) = (r, rest, d)" by (metis prod_cases3)
  then have tk': "copy_token (c_str ?s) 0 (arguments p ! ?slot) = (r, c_str rest, d)"
    by (simp add: copy_token_c_str)
  show ?case
    using 1 [OF refl _ _ refl tk [symmetric] refl refl] tk tk'
    by (subst (1 2) parse_arguments.simps) (simp add: Let_def skip_c_str c_at_c_str)
qed

lemma parse_c_str: "shell_command_parse p (Some (c_str s)) out = shell_command_parse p (Some s) out"
  by (auto simp: shell_command_parse_def skip_c_str c_at_c_str copy_token_c_str parse_arguments_c_str Let_def
      split: option.splits prod.splits)

section \<open>Properties\<close>

text \<open>
  (C32) The parser is the splitting of the text into words: it fails with a null argument, with no word,
  with a word of more than 31 characters among the first nine, or with more than eight
  arguments, in that precedence and leaving the caller's command alone; otherwise the command is
  exactly the words, each terminated and padded with zeros, with the kind looked up by the first
  word. Nothing of the uninitialised local shows in the result.
\<close>

theorem command_parse_exact:
  assumes "command_shape p"
  shows "shell_command_parse p (Some s) (Some out) =
      (case parse_spec (c_str s) of Inl r \<Rightarrow> (r, Some out) | Inr c \<Rightarrow> (SHELL_PARSE_OK, Some c))
    \<and> shell_command_parse p None command = (SHELL_PARSE_INVALID_ARGUMENT, command)
    \<and> shell_command_parse p line None = (SHELL_PARSE_INVALID_ARGUMENT, None)"
proof -
  have "shell_command_parse p None command = (SHELL_PARSE_INVALID_ARGUMENT, command)"
    "shell_command_parse p line None = (SHELL_PARSE_INVALID_ARGUMENT, None)"
    by (simp_all add: shell_command_parse_def split: option.splits)
  with parse_text [OF c_str_no_NUL assms] parse_c_str show ?thesis by metis
qed

definition example_command :: shell_command where
  "example_command = \<lparr>kind = SHELL_COMMAND_RM, cmd_name = replicate 32 (CHR ''g''), argument_count = 77,
     arguments = replicate 8 (replicate 32 (CHR ''g''))\<rparr>"

theorem command_parse_exact_witness:
  "shell_command_parse example_command (Some ''  rm a.txt  b'') (Some example_command) =
     (SHELL_PARSE_OK, Some (command_of_words ''rm'' [''a.txt'', ''b'']))"
proof -
  have "command_shape example_command" by (simp add: command_shape_def example_command_def)
  note t = command_parse_exact [OF this, of "''  rm a.txt  b''" example_command, THEN conjunct1]
  have "cmd_words ''  rm a.txt  b'' = [''rm'', ''a.txt'', ''b'']"
    by (simp add: cmd_words.simps is_separator_def)
  then show ?thesis using t by (simp add: parse_spec_def)
qed

definition cmd_word_ok :: "string \<Rightarrow> bool" where
  "cmd_word_ok w \<longleftrightarrow> w \<noteq> [] \<and> length w \<le> SHELL_COMMAND_ARG_MAX \<and> list_all (\<lambda>c. c \<noteq> NUL \<and> \<not> is_separator c) w"

fun join_words :: "string list \<Rightarrow> string" where
  "join_words [] = []"
| "join_words [w] = w"
| "join_words (w # v # ws) = w @ CHR '' '' # join_words (v # ws)"

lemma cmd_words_sep: "is_separator c \<Longrightarrow> cmd_words (c # s) = cmd_words s"
  by (subst (1 2) cmd_words.simps) simp

lemma cmd_words_word:
  assumes "w \<noteq> []" and "list_all (Not \<circ> is_separator) w" and "r = [] \<or> is_separator (hd r)"
  shows "cmd_words (w @ r) = w # cmd_words r"
proof -
  obtain c cs where w: "w = c # cs" using assms(1) by (cases w) auto
  have "takeWhile (Not \<circ> is_separator) (w @ r) = w" "dropWhile (Not \<circ> is_separator) (w @ r) = r"
    using assms by (cases r; auto simp: list_all_iff takeWhile_append dropWhile_append)+
  moreover have "skip_separators (w @ r) = c # (cs @ r)" using assms(2) w by (simp add: skip_separators_def)
  ultimately show ?thesis using cmd_words_skip(2) [of "w @ r" c "cs @ r"] w by simp
qed

lemma cmd_words_join: "list_all cmd_word_ok ws \<Longrightarrow> cmd_words (join_words ws) = ws"
proof (induction ws rule: join_words.induct)
  case 1
  then show ?case by (simp add: cmd_words.simps)
next
  case (2 w)
  then show ?case using cmd_words_word [of w "[]"]
    by (simp add: cmd_word_ok_def list_all_iff cmd_words.simps [of "[]"])
next
  case (3 w v ws)
  then show ?case
    using cmd_words_word [of w "CHR '' '' # join_words (v # ws)"]
    by (simp add: cmd_word_ok_def list_all_iff cmd_words_sep is_separator_def)
qed

lemma join_words_NUL: "list_all cmd_word_ok ws \<Longrightarrow> NUL \<notin> set (join_words ws)"
  by (induction ws rule: join_words.induct) (auto simp: cmd_word_ok_def list_all_iff)

text \<open>
  Parsing undoes printing: a line made of a command word and up to eight arguments, each of 1 to 31
  characters other than separators, joined by single spaces, parses to exactly those words.
\<close>

theorem command_parse_print:
  assumes "command_shape p" and ok: "list_all cmd_word_ok (w # ws)" and "length ws \<le> SHELL_COMMAND_MAX_ARGS"
  shows "shell_command_parse p (Some (join_words (w # ws))) (Some out) = (SHELL_PARSE_OK, Some (command_of_words w ws))
    \<and> c_str (cmd_name (command_of_words w ws)) = w
    \<and> map c_str (take (length ws) (arguments (command_of_words w ws))) = ws"
proof -
  have ws: "cmd_words (join_words (w # ws)) = w # ws" by (rule cmd_words_join [OF ok])
  have okx: "cmd_word_ok x" if "x \<in> set (w # ws)" for x using ok that by (simp only: list_all_iff)
  have long: "\<not> (\<exists>x \<in> set (take (SHELL_COMMAND_MAX_ARGS + 1) (w # ws)). length x > SHELL_COMMAND_ARG_MAX)"
    by (meson in_set_takeD okx cmd_word_ok_def not_less)
  have "parse_spec (join_words (w # ws)) = Inr (command_of_words w ws)"
    using assms(3) long by (simp add: parse_spec_def ws)
  then have "shell_command_parse p (Some (join_words (w # ws))) (Some out) = (SHELL_PARSE_OK, Some (command_of_words w ws))"
    using parse_text [OF join_words_NUL [OF ok] assms(1)] by simp
  moreover have pad: "c_str (pad_word x) = x" if "x \<in> set (w # ws)" for x
    using c_str_pad [of x] okx [OF that] by (auto simp: cmd_word_ok_def list_all_iff)
  moreover have "map c_str (map pad_word ws) = ws" using pad by (simp add: map_idI)
  ultimately show ?thesis by (simp add: command_of_words_def)
qed

theorem command_parse_print_witness:
  "shell_command_parse example_command (Some ''cat notes'') (Some example_command) =
     (SHELL_PARSE_OK, Some (command_of_words ''cat'' [''notes'']))"
proof -
  have "command_shape example_command" "list_all cmd_word_ok [''cat'', ''notes'']"
    by (simp_all add: command_shape_def example_command_def cmd_word_ok_def is_separator_def)
  from command_parse_print [OF this] show ?thesis by simp
qed

definition known_kinds :: "shell_command_kind list" where
  "known_kinds = map snd kind_table"

definition usage_arity_ok :: "shell_command_kind \<Rightarrow> nat \<Rightarrow> bool" where
  "usage_arity_ok k n \<longleftrightarrow>
     (let ws = tl (cmd_words (the (shell_command_usage k))) in
      if ws = [] then n = 0
      else if ws = [''[text'', ''...]''] then n \<le> SHELL_COMMAND_MAX_ARGS
      else if ws = [''<name>''] then n = 1
      else ws = [''<name>'', ''<text'', ''...>''] \<and> 2 \<le> n \<and> n \<le> SHELL_COMMAND_MAX_ARGS)"

lemma known_kinds_all: "k \<noteq> SHELL_COMMAND_UNKNOWN \<Longrightarrow> k \<in> set known_kinds"
  by (cases k) (simp_all add: known_kinds_def kind_table_def)

lemma usage_words:
  "cmd_words ''help'' = [''help'']" "cmd_words ''clear'' = [''clear'']"
  "cmd_words ''echo [text ...]'' = [''echo'', ''[text'', ''...]'']" "cmd_words ''ls'' = [''ls'']"
  "cmd_words ''cat <name>'' = [''cat'', ''<name>'']" "cmd_words ''touch <name>'' = [''touch'', ''<name>'']"
  "cmd_words ''write <name> <text ...>'' = [''write'', ''<name>'', ''<text'', ''...>'']"
  "cmd_words ''append <name> <text ...>'' = [''append'', ''<name>'', ''<text'', ''...>'']"
  "cmd_words ''rm <name>'' = [''rm'', ''<name>'']" "cmd_words ''status'' = [''status'']" "cmd_words ''about'' = [''about'']"
  using cmd_words_join [of "[''help'']"] cmd_words_join [of "[''clear'']"] cmd_words_join [of "[''echo'', ''[text'', ''...]'']"]
    cmd_words_join [of "[''ls'']"] cmd_words_join [of "[''cat'', ''<name>'']"] cmd_words_join [of "[''touch'', ''<name>'']"]
    cmd_words_join [of "[''write'', ''<name>'', ''<text'', ''...>'']"]
    cmd_words_join [of "[''append'', ''<name>'', ''<text'', ''...>'']"] cmd_words_join [of "[''rm'', ''<name>'']"]
    cmd_words_join [of "[''status'']"] cmd_words_join [of "[''about'']"]
  by (simp_all add: cmd_word_ok_def is_separator_def)

text \<open>
  The command table, the usage texts and the help text agree: every kind but the unknown one
  has a usage text whose first word is the name that selects the kind, the help text is exactly
  the usage texts, one per line, and the number of words a usage text shows decides the arity check.
\<close>

theorem command_help_agrees:
  "shell_command_help = concat (map (\<lambda>k. the (shell_command_usage k) @ [CHR 0x0A]) (butlast known_kinds)) @
      the (shell_command_usage (last known_kinds))
   \<and> (shell_command_usage k = None \<longleftrightarrow> k = SHELL_COMMAND_UNKNOWN)
   \<and> (\<forall>u. shell_command_usage k = Some u \<longrightarrow> command_kind (hd (cmd_words u)) = k)
   \<and> (\<forall>c. kind c \<noteq> SHELL_COMMAND_UNKNOWN \<longrightarrow>
        (shell_command_has_valid_arity (Some c) \<longleftrightarrow> usage_arity_ok (kind c) (unat (argument_count c))))
   \<and> \<not> shell_command_has_valid_arity None"
proof -
  have "shell_command_help = concat (map (\<lambda>k. the (shell_command_usage k) @ [CHR 0x0A]) (butlast known_kinds)) @
      the (shell_command_usage (last known_kinds))"
    by (simp add: known_kinds_def kind_table_def shell_command_help_def)
  moreover have "shell_command_usage k = None \<longleftrightarrow> k = SHELL_COMMAND_UNKNOWN" by (cases k) simp_all
  moreover have "\<forall>u. shell_command_usage k = Some u \<longrightarrow> command_kind (hd (cmd_words u)) = k"
    by (cases k) (simp_all add: usage_words command_kind_word kind_of_word_def kind_table_def)
  moreover have "shell_command_has_valid_arity (Some c) \<longleftrightarrow> usage_arity_ok (kind c) (unat (argument_count c))"
    if "kind c \<noteq> SHELL_COMMAND_UNKNOWN" for c
  proof -
    have "argument_count c = 0 \<longleftrightarrow> unat (argument_count c) = 0" "argument_count c = 1 \<longleftrightarrow> unat (argument_count c) = 1"
      using word_unat_eq_iff [of "argument_count c" 1] by (simp_all add: unat_eq_zero)
    with that show ?thesis
      by (cases "kind c") (simp_all add: shell_command_has_valid_arity_def usage_arity_ok_def usage_words word_le_nat_alt)
  qed
  moreover have "\<not> shell_command_has_valid_arity None" by (simp add: shell_command_has_valid_arity_def)
  ultimately show ?thesis by blast
qed

theorem command_help_agrees_witness:
  "shell_command_has_valid_arity (Some (command_of_words ''rm'' [''a''])) \<and>
   command_kind (hd (cmd_words ''rm <name>'')) = SHELL_COMMAND_RM"
  using command_help_agrees [of SHELL_COMMAND_RM]
  by (simp add: command_of_words_def kind_of_word_def kind_table_def usage_arity_ok_def usage_words)

end
