(* ===== verification/Multiboot.thy ===== *)
theory Multiboot
  imports Byte_Memory "HOL-Library.Monad_Syntax"
begin

text \<open>
  The boot loader's information, \<open>kernel/boot/multiboot.c\<close>, read from byte memory. The memory is a
  partial map from addresses to bytes, and each read of a field is a step of its own, in the order of
  the code: the result of a call is \<open>None\<close> when it reads an address that the memory does not have.
  A pointer that may be null is an option, a local that is filled through its address is a result,
  and the callback of the walk is a function on the caller's state.
\<close>

section \<open>Data\<close>

abbreviation MULTIBOOT_BOOTLOADER_MAGIC :: u32 where "MULTIBOOT_BOOTLOADER_MAGIC \<equiv> 0x2BADB002"
abbreviation MULTIBOOT_INFO_MEMORY :: u32 where "MULTIBOOT_INFO_MEMORY \<equiv> 1"
abbreviation MULTIBOOT_INFO_MEMORY_MAP :: u32 where "MULTIBOOT_INFO_MEMORY_MAP \<equiv> 0x40"
abbreviation MULTIBOOT_MMAP_MIN_PAYLOAD_SIZE :: u32 where "MULTIBOOT_MMAP_MIN_PAYLOAD_SIZE \<equiv> 20"
abbreviation MULTIBOOT_INFO_BYTES :: u32 where "MULTIBOOT_INFO_BYTES \<equiv> 52"
abbreviation UINT32_MAX :: u32 where "UINT32_MAX \<equiv> 0xFFFFFFFF"
abbreviation UINT64_MAX :: u64 where "UINT64_MAX \<equiv> 0xFFFFFFFFFFFFFFFF"

record multiboot_info =
  info_flags :: u32
  mem_lower :: u32
  mem_upper :: u32
  boot_device :: u32
  cmdline :: u32
  mods_count :: u32
  mods_addr :: u32
  symbols :: "u32 list"
  mmap_length :: u32
  mmap_addr :: u32

record multiboot_mmap_entry =
  entry_size :: u32
  entry_base_addr :: u64
  entry_length :: u64
  entry_type :: u32

record boot_memory_summary =
  lower_kib :: u32
  upper_kib :: u32
  mmap_entry_count :: u32

record boot_memory_region =
  region_base :: u64
  region_length :: u64
  region_type :: u32

record boot_owned_ranges =
  owned_info_address :: u32
  owned_info_length :: u32
  owned_mmap_address :: u32
  owned_mmap_length :: u32

type_synonym ram = "u32 \<rightharpoonup> u8"

definition fetch32 :: "ram \<Rightarrow> u32 \<Rightarrow> u32 option" where
  "fetch32 r a = do {
     b0 \<leftarrow> r a; b1 \<leftarrow> r (a + 1); b2 \<leftarrow> r (a + 2); b3 \<leftarrow> r (a + 3);
     Some (ucast b0 OR push_bit 8 (ucast b1) OR push_bit 16 (ucast b2) OR push_bit 24 (ucast b3)) }"

definition fetch64 :: "ram \<Rightarrow> u32 \<Rightarrow> u64 option" where
  "fetch64 r a = do { lo \<leftarrow> fetch32 r a; hi \<leftarrow> fetch32 r (a + 4); Some (ucast lo OR push_bit 32 (ucast hi)) }"

text \<open>The reads of the fields of the packed structures.\<close>

definition read_flags :: "ram \<Rightarrow> u32 \<Rightarrow> u32 option" where "read_flags r info = fetch32 r info"
definition read_mem_lower :: "ram \<Rightarrow> u32 \<Rightarrow> u32 option" where "read_mem_lower r info = fetch32 r (info + 4)"
definition read_mem_upper :: "ram \<Rightarrow> u32 \<Rightarrow> u32 option" where "read_mem_upper r info = fetch32 r (info + 8)"
definition read_mmap_length :: "ram \<Rightarrow> u32 \<Rightarrow> u32 option" where "read_mmap_length r info = fetch32 r (info + 44)"
definition read_mmap_addr :: "ram \<Rightarrow> u32 \<Rightarrow> u32 option" where "read_mmap_addr r info = fetch32 r (info + 48)"
definition read_size :: "ram \<Rightarrow> u32 \<Rightarrow> u32 option" where "read_size r entry = fetch32 r entry"
definition read_base_addr :: "ram \<Rightarrow> u32 \<Rightarrow> u64 option" where "read_base_addr r entry = fetch64 r (entry + 4)"
definition read_length :: "ram \<Rightarrow> u32 \<Rightarrow> u64 option" where "read_length r entry = fetch64 r (entry + 12)"
definition read_type :: "ram \<Rightarrow> u32 \<Rightarrow> u32 option" where "read_type r entry = fetch32 r (entry + 20)"

type_synonym 's visitor = "boot_memory_region \<Rightarrow> 's \<Rightarrow> bool \<times> 's"

section \<open>Operations\<close>

text \<open>A view is the address of information that passed the checks.\<close>

record multiboot_view =
  view_info :: u32

definition validate_multiboot_info :: "ram \<Rightarrow> u32 \<Rightarrow> u32 \<Rightarrow> multiboot_view option option" where
  "validate_multiboot_info r magic info_address =
     (if magic \<noteq> MULTIBOOT_BOOTLOADER_MAGIC \<or> info_address = 0 \<or> info_address > UINT32_MAX - MULTIBOOT_INFO_BYTES then Some None
      else do {
        let required_flags = MULTIBOOT_INFO_MEMORY OR MULTIBOOT_INFO_MEMORY_MAP;
        flags \<leftarrow> read_flags r info_address;
        if flags AND required_flags \<noteq> required_flags then Some None
        else do {
          mmap_addr \<leftarrow> read_mmap_addr r info_address;
          if mmap_addr = 0 then Some None
          else do {
            mmap_length \<leftarrow> read_mmap_length r info_address;
            if mmap_length = 0 \<or> mmap_addr > UINT32_MAX - mmap_length then Some None
            else Some (Some \<lparr>view_info = info_address\<rparr>)
          }
        }
      })"

lemma walk_step_decreases:
  fixes cursor mmap_end :: u32
  assumes "cursor < mmap_end" "payload_size \<ge> MULTIBOOT_MMAP_MIN_PAYLOAD_SIZE" "payload_size \<le> UINT32_MAX - 4"
    and "payload_size + 4 \<le> mmap_end - cursor"
  shows "unat (cursor + (payload_size + 4)) = unat cursor + unat payload_size + 4"
    and "unat cursor + unat payload_size + 4 \<le> unat mmap_end" "20 \<le> unat payload_size"
proof -
  show "20 \<le> unat payload_size" using assms(2) by (simp add: word_le_nat_alt)
  have "unat payload_size \<le> 4294967291" using assms(3) by (simp add: word_le_nat_alt)
  then have p: "unat (payload_size + 4) = unat payload_size + 4" by (simp add: unat_add_no_wrap)
  have "unat (mmap_end - cursor) = unat mmap_end - unat cursor" using assms(1) by (simp add: unat_sub_no_wrap)
  then show le: "unat cursor + unat payload_size + 4 \<le> unat mmap_end"
    using assms(1,4) p by (simp add: word_le_nat_alt word_less_nat_alt)
  have "unat cursor + (unat payload_size + 4) < 4294967296" using le unat_less_width(3) [of mmap_end] by simp
  then show "unat (cursor + (payload_size + 4)) = unat cursor + unat payload_size + 4" using p by (simp add: unat_add_no_wrap)
qed

lemma walk_measure:
  fixes cursor mmap_end :: u32
  assumes "\<not> mmap_end \<le> cursor" "MULTIBOOT_MMAP_MIN_PAYLOAD_SIZE \<le> p" "p \<le> 0xFFFFFFFB" "p + 4 \<le> mmap_end - cursor"
  shows "unat mmap_end - unat (cursor + (p + 4)) < unat mmap_end - unat cursor"
  using walk_step_decreases [of cursor mmap_end p] assms by (simp add: not_le)

function walk_loop :: "ram \<Rightarrow> u32 \<Rightarrow> 's visitor option \<Rightarrow> u32 \<Rightarrow> u32 \<Rightarrow> 's \<Rightarrow> (bool \<times> u32 \<times> 's) option" where
  "walk_loop r mmap_end visitor cursor count s =
     (if \<not> cursor < mmap_end then Some (True, count, s)
      else
        let remaining = mmap_end - cursor in
        if remaining < 4 then Some (False, count, s)
        else do {
          payload_size \<leftarrow> read_size r cursor;
          if payload_size < MULTIBOOT_MMAP_MIN_PAYLOAD_SIZE \<or> payload_size > UINT32_MAX - 4 then Some (False, count, s)
          else
            let record_size = payload_size + 4 in
            if record_size > remaining then Some (False, count, s)
            else do {
              length \<leftarrow> read_length r cursor;
              if length = 0 then Some (False, count, s)
              else do {
                base_addr \<leftarrow> read_base_addr r cursor;
                if base_addr > UINT64_MAX - length \<or> count = UINT32_MAX then Some (False, count, s)
                else do {
                  type \<leftarrow> read_type r cursor;
                  let region = \<lparr>region_base = base_addr, region_length = length, region_type = type\<rparr>;
                  let count = count + 1;
                  let (proceed, s) = (case visitor of None \<Rightarrow> (True, s) | Some v \<Rightarrow> v region s);
                  if \<not> proceed then Some (False, count, s)
                  else walk_loop r mmap_end visitor (cursor + record_size) count s
                }
              }
            }
        })"
  by pat_completeness auto
termination
  by (relation "measure (\<lambda>(r, mmap_end, visitor, cursor, count, s). unat mmap_end - unat cursor)")
    (auto simp: not_less intro: walk_measure)

text \<open>The result, the number of entries, which a caller stores only on success, and the caller's state.\<close>

definition walk_memory_map :: "ram \<Rightarrow> multiboot_view \<Rightarrow> 's visitor option \<Rightarrow> 's \<Rightarrow> (bool \<times> u32 \<times> 's) option" where
  "walk_memory_map r view visitor s =
     (if view_info view = 0 then Some (False, 0, s)
      else do {
        mmap_address \<leftarrow> read_mmap_addr r (view_info view);
        mmap_length \<leftarrow> read_mmap_length r (view_info view);
        let mmap_end = mmap_address + mmap_length;
        (completed, count, s) \<leftarrow> walk_loop r mmap_end visitor mmap_address 0 s;
        Some (if \<not> completed then (False, count, s) else if count = 0 then (False, count, s) else (True, count, s))
      })"

definition multiboot_parse :: "ram \<Rightarrow> u32 \<Rightarrow> u32 \<Rightarrow> boot_memory_summary option \<Rightarrow> (bool \<times> boot_memory_summary option) option" where
  "multiboot_parse r magic info_address summary =
     (if summary = None then Some (False, summary)
      else do {
        validated \<leftarrow> validate_multiboot_info r magic info_address;
        case validated of
          None \<Rightarrow> Some (False, summary)
        | Some view \<Rightarrow> do {
            lower_kib \<leftarrow> read_mem_lower r (view_info view);
            upper_kib \<leftarrow> read_mem_upper r (view_info view);
            (completed, count, _) \<leftarrow> walk_memory_map r view None ();
            Some (if \<not> completed then (False, summary)
                  else (True, Some \<lparr>lower_kib = lower_kib, upper_kib = upper_kib, mmap_entry_count = count\<rparr>))
          }
      })"

definition multiboot_for_each_memory_region :: "ram \<Rightarrow> u32 \<Rightarrow> u32 \<Rightarrow> 's visitor option \<Rightarrow> 's \<Rightarrow> (bool \<times> 's) option" where
  "multiboot_for_each_memory_region r magic info_address visitor s =
     (case visitor of
        None \<Rightarrow> Some (False, s)
      | Some _ \<Rightarrow> do {
          validated \<leftarrow> validate_multiboot_info r magic info_address;
          case validated of
            None \<Rightarrow> Some (False, s)
          | Some view \<Rightarrow> do {
              (completed, _, _) \<leftarrow> walk_memory_map r view None ();
              if \<not> completed then Some (False, s)
              else do { (completed, _, s) \<leftarrow> walk_memory_map r view visitor s; Some (completed, s) }
            }
        })"

definition multiboot_get_owned_ranges :: "ram \<Rightarrow> u32 \<Rightarrow> u32 \<Rightarrow> boot_owned_ranges option \<Rightarrow> (bool \<times> boot_owned_ranges option) option" where
  "multiboot_get_owned_ranges r magic info_address ranges =
     (if ranges = None then Some (False, ranges)
      else do {
        validated \<leftarrow> validate_multiboot_info r magic info_address;
        case validated of
          None \<Rightarrow> Some (False, ranges)
        | Some view \<Rightarrow> do {
            (completed, _, _) \<leftarrow> walk_memory_map r view None ();
            if \<not> completed then Some (False, ranges)
            else do {
              mmap_address \<leftarrow> read_mmap_addr r (view_info view);
              mmap_length \<leftarrow> read_mmap_length r (view_info view);
              Some (True, Some \<lparr>owned_info_address = info_address, owned_info_length = MULTIBOOT_INFO_BYTES,
                owned_mmap_address = mmap_address, owned_mmap_length = mmap_length\<rparr>)
            }
          }
      })"

declare walk_loop.simps [simp del]

section \<open>The structures in a memory\<close>

definition load64 :: "memory \<Rightarrow> u32 \<Rightarrow> u64" where
  "load64 m a = ucast (load32 m a) OR push_bit 32 (ucast (load32 m (a + 4)))"

text \<open>The packed layouts.\<close>

definition info_at :: "memory \<Rightarrow> u32 \<Rightarrow> multiboot_info" where
  "info_at m a = \<lparr>info_flags = load32 m a, mem_lower = load32 m (a + 4), mem_upper = load32 m (a + 8), boot_device = load32 m (a + 12),
     cmdline = load32 m (a + 16), mods_count = load32 m (a + 20), mods_addr = load32 m (a + 24),
     symbols = [load32 m (a + 28), load32 m (a + 32), load32 m (a + 36), load32 m (a + 40)],
     mmap_length = load32 m (a + 44), mmap_addr = load32 m (a + 48)\<rparr>"

definition entry_at :: "memory \<Rightarrow> u32 \<Rightarrow> multiboot_mmap_entry" where
  "entry_at m a = \<lparr>entry_size = load32 m a, entry_base_addr = load64 m (a + 4), entry_length = load64 m (a + 12),
     entry_type = load32 m (a + 20)\<rparr>"

text \<open>A memory that has every address.\<close>

definition whole :: "memory \<Rightarrow> ram" where
  "whole m = (\<lambda>a. Some (m a))"

lemma fetch_whole: "fetch32 (whole m) a = Some (load32 m a)" "fetch64 (whole m) a = Some (load64 m a)"
  by (simp_all add: fetch32_def fetch64_def whole_def load32_def load64_def)

lemmas read_defs = read_flags_def read_mem_lower_def read_mem_upper_def read_mmap_length_def read_mmap_addr_def read_size_def
  read_base_addr_def read_length_def read_type_def

lemma read_whole [simp]:
  "read_flags (whole m) a = Some (info_flags (info_at m a))" "read_mem_lower (whole m) a = Some (mem_lower (info_at m a))"
  "read_mem_upper (whole m) a = Some (mem_upper (info_at m a))" "read_mmap_length (whole m) a = Some (mmap_length (info_at m a))"
  "read_mmap_addr (whole m) a = Some (mmap_addr (info_at m a))" "read_size (whole m) a = Some (entry_size (entry_at m a))"
  "read_base_addr (whole m) a = Some (entry_base_addr (entry_at m a))" "read_length (whole m) a = Some (entry_length (entry_at m a))"
  "read_type (whole m) a = Some (entry_type (entry_at m a))"
  by (simp_all add: read_defs fetch_whole info_at_def entry_at_def)

section \<open>Memory maps\<close>

definition region_at :: "memory \<Rightarrow> nat \<Rightarrow> boot_memory_region" where
  "region_at m a = \<lparr>region_base = entry_base_addr (entry_at m (of_nat a)), region_length = entry_length (entry_at m (of_nat a)),
     region_type = entry_type (entry_at m (of_nat a))\<rparr>"

text \<open>
  A memory map is a sequence of records that fill a range of addresses exactly, each with room for
  an entry and a region that is neither empty nor past the end of the 64-bit address space.
\<close>

definition region_sound :: "boot_memory_region \<Rightarrow> bool" where
  "region_sound r \<longleftrightarrow> region_length r \<noteq> 0 \<and> unat (region_base r) + unat (region_length r) < 18446744073709551616"

fun memory_map :: "memory \<Rightarrow> nat \<Rightarrow> nat \<Rightarrow> boot_memory_region list \<Rightarrow> bool" where
  "memory_map m a e [] \<longleftrightarrow> a = e"
| "memory_map m a e (r # rs) \<longleftrightarrow> 20 \<le> unat (load32 m (of_nat a)) \<and> a + 4 + unat (load32 m (of_nat a)) \<le> e \<and> r = region_at m a \<and>
     region_sound r \<and> memory_map m (a + 4 + unat (load32 m (of_nat a))) e rs"

text \<open>A visitor is called on the regions in order until it refuses one.\<close>

fun visit_all :: "'s visitor \<Rightarrow> boot_memory_region list \<Rightarrow> 's \<Rightarrow> bool \<times> 's" where
  "visit_all v [] s = (True, s)"
| "visit_all v (r # rs) s = (case v r s of (proceed, s) \<Rightarrow> if proceed then visit_all v rs s else (False, s))"

lemma memory_map_unique: "memory_map m a e rs \<Longrightarrow> memory_map m a e rs' \<Longrightarrow> rs = rs'"
proof (induction rs arbitrary: a rs')
  case Nil
  then show ?case by (cases rs') auto
next
  case (Cons r rs)
  then show ?case by (cases rs') auto
qed

lemma memory_map_length: "memory_map m a e rs \<Longrightarrow> a + 24 * length rs \<le> e"
  by (induction rs arbitrary: a) fastforce+

lemma no_overflow64: "b \<le> UINT64_MAX - l \<longleftrightarrow> unat b + unat l < 18446744073709551616" for b l :: u64
proof -
  have "unat (UINT64_MAX - l) = 18446744073709551615 - unat l"
    using unat_sub_no_wrap [of l UINT64_MAX] unat_less_width(4) [of l] by (simp add: word_le_nat_alt)
  then show ?thesis using unat_less_width(4) [of l] by (simp add: word_le_nat_alt) linarith
qed

lemma region_sound_at:
  "region_sound (region_at m a) \<longleftrightarrow> entry_length (entry_at m (of_nat a)) \<noteq> 0 \<and>
     entry_base_addr (entry_at m (of_nat a)) \<le> UINT64_MAX - entry_length (entry_at m (of_nat a))"
  by (simp add: region_sound_def region_at_def no_overflow64)

text \<open>One record of the walk.\<close>

lemma walk_loop_end: "a < 4294967296 \<Longrightarrow> walk_loop r (of_nat a) v (of_nat a) count s = Some (True, count, s)"
  by (simp add: walk_loop.simps)

lemma walk_loop_record:
  assumes "a + 4 + unat (load32 m (of_nat a)) \<le> e" "20 \<le> unat (load32 m (of_nat a))" "e < 4294967296"
    and "region_sound (region_at m a)" "count \<noteq> UINT32_MAX"
  shows "walk_loop (whole m) (of_nat e) v (of_nat a) count s =
    (case (case v of None \<Rightarrow> (True, s) | Some f \<Rightarrow> f (region_at m a) s) of (proceed, s) \<Rightarrow>
       if proceed then walk_loop (whole m) (of_nat e) v (of_nat (a + 4 + unat (load32 m (of_nat a)))) (count + 1) s
       else Some (False, count + 1, s))"
proof -
  let ?p = "load32 m (of_nat a)"
  have e: "entry_size (entry_at m (of_nat a)) = ?p" by (simp add: entry_at_def)
  have lt: "(of_nat a :: u32) < of_nat e" using assms(1-3) by (simp add: word_less_nat_alt unat_of_nat32)
  have rem: "unat ((of_nat e :: u32) - of_nat a) = e - a" using assms(1-3) lt by (simp add: unat_sub_no_wrap unat_of_nat32)
  then have r4: "\<not> (of_nat e :: u32) - of_nat a < 4" using assms(1,2) by (simp add: word_less_nat_alt)
  have p: "\<not> ?p < MULTIBOOT_MMAP_MIN_PAYLOAD_SIZE" "\<not> UINT32_MAX - 4 < ?p" using assms(1-3) by (simp_all add: word_less_nat_alt)
  have "unat (?p + 4) = unat ?p + 4" using assms(1,3) by (simp add: unat_add_no_wrap)
  then have rs: "\<not> (of_nat e :: u32) - of_nat a < ?p + 4" using assms(1) rem by (simp add: word_less_nat_alt)
  have nxt: "(of_nat a :: u32) + (?p + 4) = of_nat (a + 4 + unat ?p)" by (simp add: add.assoc add.commute)
  have rg: "region_at m a = \<lparr>region_base = entry_base_addr (entry_at m (of_nat a)), region_length = entry_length (entry_at m (of_nat a)),
     region_type = entry_type (entry_at m (of_nat a))\<rparr>" by (simp add: region_at_def)
  have snd: "entry_length (entry_at m (of_nat a)) \<noteq> 0" "\<not> UINT64_MAX - entry_length (entry_at m (of_nat a)) < entry_base_addr (entry_at m (of_nat a))"
    using assms(4) by (simp_all add: region_sound_at not_less)
  show ?thesis
    unfolding walk_loop.simps [of "whole m" "of_nat e" v "of_nat a" count s] Let_def read_whole bind.bind_lunit e nxt rg [symmetric]
    using lt r4 p rs snd assms(5) by (simp add: case_prod_beta del: of_nat_add)
qed

lemma memory_map_record:
  assumes "memory_map m a e (r # rs)" "unat count + length (r # rs) < 4294967296"
  shows "a + 4 + unat (load32 m (of_nat a)) \<le> e" "20 \<le> unat (load32 m (of_nat a))" "region_sound (region_at m a)"
    and "count \<noteq> UINT32_MAX" "r = region_at m a" "memory_map m (a + 4 + unat (load32 m (of_nat a))) e rs"
    and "unat (count + 1) + length rs < 4294967296"
  using assms by (auto simp: unat_add_no_wrap)

lemma walk_checks:
  assumes "memory_map m a e rs" "e < 4294967296" "unat count + length rs < 4294967296"
  shows "walk_loop (whole m) (of_nat e) None (of_nat a) count s = Some (True, count + of_nat (length rs), s)"
  using assms
proof (induction rs arbitrary: a count)
  case (Cons r rs)
  note r = memory_map_record [OF Cons.prems(1,3)]
  show ?case
    using Cons.IH [OF r(6) Cons.prems(2) r(7)] by (simp add: walk_loop_record [OF r(1,2) Cons.prems(2) r(3,4)] del: of_nat_add)
qed (simp add: walk_loop_end)

lemma walk_visits:
  assumes "memory_map m a e rs" "e < 4294967296" "unat count + length rs < 4294967296"
  obtains c where "walk_loop (whole m) (of_nat e) (Some v) (of_nat a) count s = Some (fst (visit_all v rs s), c, snd (visit_all v rs s))"
    "fst (visit_all v rs s) \<Longrightarrow> c = count + of_nat (length rs)"
  using assms
proof (induction rs arbitrary: a count s thesis)
  case (Cons r rs)
  note r = memory_map_record [OF Cons.prems(2,4)]
  obtain b u where b: "v (region_at m a) s = (b, u)" by fastforce
  show ?case
  proof (cases b)
    case True
    obtain c where "walk_loop (whole m) (of_nat e) (Some v) (of_nat (a + 4 + unat (load32 m (of_nat a)))) (count + 1) u =
        Some (fst (visit_all v rs u), c, snd (visit_all v rs u))" "fst (visit_all v rs u) \<Longrightarrow> c = count + 1 + of_nat (length rs)"
      by (rule Cons.IH [where s = u, OF _ r(6) Cons.prems(3) r(7)]) (rule that, assumption+)
    then show ?thesis
      using True by (intro Cons.prems(1) [of c]) (auto simp: walk_loop_record [OF r(1,2) Cons.prems(3) r(3,4)] r(5) b simp del: of_nat_add)
  next
    case False
    then show ?thesis
      by (intro Cons.prems(1) [of "count + 1"]) (auto simp: walk_loop_record [OF r(1,2) Cons.prems(3) r(3,4)] r(5) b simp del: of_nat_add)
  qed
qed (simp add: walk_loop_end)

lemma walk_loop_finds_map:
  assumes "walk_loop (whole m) e (None :: 's visitor option) a count s = Some (True, c, t)" "unat a \<le> unat e"
  shows "\<exists>rs. memory_map m (unat a) (unat e) rs"
  using assms
proof (induction "unat e - unat a" arbitrary: a count s rule: less_induct)
  case less
  show ?case
  proof (cases "a < e")
    case False
    then have "unat a = unat e" using less.prems(2) by (simp add: word_less_nat_alt)
    then have "memory_map m (unat a) (unat e) []" by simp
    then show ?thesis ..
  next
    case True
    let ?p = "entry_size (entry_at m a)"
    have c: "\<not> e - a < 4" "\<not> (?p < MULTIBOOT_MMAP_MIN_PAYLOAD_SIZE \<or> UINT32_MAX - 4 < ?p)"
        "\<not> (e - a < ?p + 4 \<or> entry_length (entry_at m a) = 0)"
        "\<not> (UINT64_MAX - entry_length (entry_at m a) < entry_base_addr (entry_at m a) \<or> count = UINT32_MAX)"
      and rest: "walk_loop (whole m) e (None :: 's visitor option) (a + (?p + 4)) (count + 1) s = Some (True, c, t)"
      using less.prems(1) True by (auto simp: walk_loop.simps [of "whole m" e _ a] Let_def split: if_splits)
    then have p: "MULTIBOOT_MMAP_MIN_PAYLOAD_SIZE \<le> ?p" "?p \<le> UINT32_MAX - 4" "?p + 4 \<le> e - a" by (simp_all add: not_less)
    note st = walk_step_decreases [OF True p]
    have ld: "unat ?p = unat (load32 m (of_nat (unat a)))" by (simp add: entry_at_def)
    have dec: "unat e - unat (a + (?p + 4)) < unat e - unat a" "unat (a + (?p + 4)) \<le> unat e" using st by simp_all
    obtain rs where "memory_map m (unat (a + (?p + 4))) (unat e) rs"
      using less.hyps [OF dec(1) rest dec(2)] by blast
    moreover have "region_sound (region_at m (unat a))" using c(3,4) by (simp add: region_sound_at not_less)
    ultimately have "memory_map m (unat a) (unat e) (region_at m (unat a) # rs)"
      using st by (simp add: ld ac_simps)
    then show ?thesis ..
  qed
qed

section \<open>Boot information\<close>

definition header_sound :: "memory \<Rightarrow> u32 \<Rightarrow> u32 \<Rightarrow> bool" where
  "header_sound m magic a \<longleftrightarrow> magic = MULTIBOOT_BOOTLOADER_MAGIC \<and> a \<noteq> 0 \<and> unat a + 52 < 4294967296 \<and>
     bit (info_flags (info_at m a)) 0 \<and> bit (info_flags (info_at m a)) 6 \<and> mmap_addr (info_at m a) \<noteq> 0 \<and>
     mmap_length (info_at m a) \<noteq> 0 \<and> unat (mmap_addr (info_at m a)) + unat (mmap_length (info_at m a)) < 4294967296"

definition boot_map :: "memory \<Rightarrow> u32 \<Rightarrow> u32 \<Rightarrow> boot_memory_region list \<Rightarrow> bool" where
  "boot_map m magic a rs \<longleftrightarrow> header_sound m magic a \<and>
     memory_map m (unat (mmap_addr (info_at m a))) (unat (mmap_addr (info_at m a)) + unat (mmap_length (info_at m a))) rs"

lemma no_overflow32: "b > UINT32_MAX - l \<longleftrightarrow> \<not> unat b + unat l < 4294967296" for b l :: u32
proof -
  have "unat (UINT32_MAX - l) = 4294967295 - unat l"
    using unat_sub_no_wrap [of l UINT32_MAX] unat_less_width(3) [of l] by (simp add: word_le_nat_alt)
  then show ?thesis using unat_less_width(3) [of l] by (simp add: word_less_nat_alt) linarith
qed

lemma required_flags: "f AND (MULTIBOOT_INFO_MEMORY OR MULTIBOOT_INFO_MEMORY_MAP) = MULTIBOOT_INFO_MEMORY OR MULTIBOOT_INFO_MEMORY_MAP \<longleftrightarrow>
    bit f 0 \<and> bit f 6" for f :: u32
proof -
  have b: "bit (MULTIBOOT_INFO_MEMORY OR MULTIBOOT_INFO_MEMORY_MAP) n \<longleftrightarrow> n = 0 \<or> n = 6" for n
  proof -
    have "(0x40 :: u32) = 2 ^ 6" by simp
    then have "bit (0x40 :: u32) n \<longleftrightarrow> n = 6" by (simp only: bit_exp_iff) auto
    then show ?thesis by (simp only: bit_or_iff bit_1_iff)
  qed
  show ?thesis
  proof
    assume "f AND (MULTIBOOT_INFO_MEMORY OR MULTIBOOT_INFO_MEMORY_MAP) = MULTIBOOT_INFO_MEMORY OR MULTIBOOT_INFO_MEMORY_MAP"
    then have "bit f n" if "n = 0 \<or> n = 6" for n using b that by (metis bit_and_iff)
    then show "bit f 0 \<and> bit f 6" by simp
  next
    assume "bit f 0 \<and> bit f 6"
    then show "f AND (MULTIBOOT_INFO_MEMORY OR MULTIBOOT_INFO_MEMORY_MAP) = MULTIBOOT_INFO_MEMORY OR MULTIBOOT_INFO_MEMORY_MAP"
      by (intro bit_eqI) (auto simp only: bit_and_iff b)
  qed
qed

lemma validate_info_iff:
  "validate_multiboot_info (whole m) magic a = Some (if header_sound m magic a then Some \<lparr>view_info = a\<rparr> else None)"
proof -
  have "a > UINT32_MAX - MULTIBOOT_INFO_BYTES \<longleftrightarrow> \<not> unat a + 52 < 4294967296" using no_overflow32 [of "52" a] by simp
  then show ?thesis
    unfolding validate_multiboot_info_def header_sound_def Let_def no_overflow32 required_flags by auto
qed

lemma end_of_map: "header_sound m magic a \<Longrightarrow>
    mmap_addr (info_at m a) + mmap_length (info_at m a) = of_nat (unat (mmap_addr (info_at m a)) + unat (mmap_length (info_at m a)))"
  by simp

lemma boot_map_nonempty: "boot_map m magic a rs \<Longrightarrow> rs \<noteq> []"
  by (auto simp: boot_map_def header_sound_def unat_eq_zero)

lemma walk_check:
  assumes "boot_map m magic a rs"
  shows "walk_memory_map (whole m) \<lparr>view_info = a\<rparr> None s = Some (True, of_nat (length rs), s)"
    and "\<exists>c. walk_memory_map (whole m) \<lparr>view_info = a\<rparr> (Some v) t = Some (fst (visit_all v rs t), c, snd (visit_all v rs t))"
proof -
  let ?b = "unat (mmap_addr (info_at m a))" and ?l = "unat (mmap_length (info_at m a))"
  have a: "a \<noteq> 0" and bl: "?b + ?l < 4294967296" and mm: "memory_map m ?b (?b + ?l) rs"
    using assms by (simp_all add: header_sound_def boot_map_def)
  have len: "length rs < 4294967296" using memory_map_length [OF mm] bl by simp
  have nz: "(of_nat (length rs) :: u32) \<noteq> 0" using boot_map_nonempty [OF assms] len unat_of_nat32 [of "length rs"] by auto
  then show "walk_memory_map (whole m) \<lparr>view_info = a\<rparr> None s = Some (True, of_nat (length rs), s)"
    using walk_checks [OF mm bl, of 0 s] len a by (simp add: walk_memory_map_def Let_def)
  obtain c where "walk_loop (whole m) (of_nat (?b + ?l)) (Some v) (of_nat ?b) 0 t = Some (fst (visit_all v rs t), c, snd (visit_all v rs t))"
      "fst (visit_all v rs t) \<Longrightarrow> c = 0 + of_nat (length rs)"
    by (rule walk_visits [OF mm bl, of 0 v t]) (use len in simp_all)
  then show "\<exists>c. walk_memory_map (whole m) \<lparr>view_info = a\<rparr> (Some v) t = Some (fst (visit_all v rs t), c, snd (visit_all v rs t))"
    using a nz by (auto simp: walk_memory_map_def Let_def)
qed

lemma walk_check_none:
  assumes h: "header_sound m magic a" and no: "\<nexists>rs. boot_map m magic a rs" and w: "walk_memory_map (whole m) \<lparr>view_info = a\<rparr> None s = Some (ok, c, t)"
  shows "\<not> ok"
proof
  let ?b = "unat (mmap_addr (info_at m a))" and ?l = "unat (mmap_length (info_at m a))"
  have a: "a \<noteq> 0" and bl: "?b + ?l < 4294967296" using h by (simp_all add: header_sound_def)
  assume ok
  then obtain c' t' where "walk_loop (whole m) (of_nat (?b + ?l)) None (mmap_addr (info_at m a)) 0 s = Some (True, c', t')"
    using w a by (auto simp: walk_memory_map_def Let_def bind_eq_Some_conv split: if_splits)
  from walk_loop_finds_map [OF this] show False
    using h no bl unat_of_nat32 [OF bl] by (auto simp: boot_map_def simp del: of_nat_add)
qed

section \<open>Reads\<close>

text \<open>The bytes of a memory that a partial one has in a range.\<close>

definition present :: "ram \<Rightarrow> memory \<Rightarrow> nat \<Rightarrow> nat \<Rightarrow> bool" where
  "present r m lo hi \<longleftrightarrow> hi \<le> 4294967296 \<and> (\<forall>z. lo \<le> z \<and> z < hi \<longrightarrow> r (of_nat z) = Some (m (of_nat z)))"

lemma present_whole: "hi \<le> 4294967296 \<Longrightarrow> present (whole m) m lo hi"
  by (simp add: present_def whole_def)

lemma fetch_present:
  assumes "present r m lo hi" "lo \<le> unat a + k"
  shows "unat a + k + 4 \<le> hi \<Longrightarrow> fetch32 r (a + of_nat k) = fetch32 (whole m) (a + of_nat k)"
    and "unat a + k + 8 \<le> hi \<Longrightarrow> fetch64 r (a + of_nat k) = fetch64 (whole m) (a + of_nat k)"
proof -
  have f: "fetch32 r (of_nat x) = fetch32 (whole m) (of_nat x)" if "lo \<le> x" "x + 4 \<le> hi" for x
  proof -
    have "r (of_nat (x + i)) = Some (m (of_nat (x + i)))" if "i < 4" for i
      using assms(1) that \<open>lo \<le> x\<close> \<open>x + 4 \<le> hi\<close> unfolding present_def by (simp del: of_nat_add)
    from this [of 0] this [of 1] this [of 2] this [of 3] show ?thesis
      unfolding fetch32_def whole_def of_nat_offset32 by simp
  qed
  show "unat a + k + 4 \<le> hi \<Longrightarrow> fetch32 r (a + of_nat k) = fetch32 (whole m) (a + of_nat k)"
    using f [of "unat a + k"] assms(2) by simp
  show "unat a + k + 8 \<le> hi \<Longrightarrow> fetch64 r (a + of_nat k) = fetch64 (whole m) (a + of_nat k)"
    using f [of "unat a + k"] f [of "unat a + k + 4"] assms(2) by (simp add: fetch64_def add.assoc)
qed

lemma read_info_present:
  assumes "present r m (unat a) (unat a + 52)"
  shows "read_flags r a = read_flags (whole m) a" "read_mem_lower r a = read_mem_lower (whole m) a"
    "read_mem_upper r a = read_mem_upper (whole m) a" "read_mmap_length r a = read_mmap_length (whole m) a"
    "read_mmap_addr r a = read_mmap_addr (whole m) a"
  using fetch_present(1) [OF assms, of a 0] fetch_present(1) [OF assms, of a 4] fetch_present(1) [OF assms, of a 8]
    fetch_present(1) [OF assms, of a 44] fetch_present(1) [OF assms, of a 48]
  unfolding read_defs by simp_all

lemma read_entry_present:
  assumes "present r m lo (unat e)" "lo \<le> unat a" "a < e"
  shows "\<not> e - a < 4 \<Longrightarrow> read_size r a = read_size (whole m) a"
    and "24 \<le> unat (e - a) \<Longrightarrow> read_length r a = read_length (whole m) a" "24 \<le> unat (e - a) \<Longrightarrow> read_base_addr r a = read_base_addr (whole m) a"
    "24 \<le> unat (e - a) \<Longrightarrow> read_type r a = read_type (whole m) a"
proof -
  have u: "unat (e - a) = unat e - unat a" using assms(3) by (simp add: unat_sub_no_wrap)
  have lt: "unat a < unat e" using assms(3) by (simp add: word_less_nat_alt)
  note f = fetch_present [OF assms(1), of a]
  show "\<not> e - a < 4 \<Longrightarrow> read_size r a = read_size (whole m) a"
    using f(1) [of 0] assms(2) u lt unfolding read_defs by (simp add: word_less_nat_alt)
  show "24 \<le> unat (e - a) \<Longrightarrow> read_length r a = read_length (whole m) a" "24 \<le> unat (e - a) \<Longrightarrow> read_base_addr r a = read_base_addr (whole m) a"
    "24 \<le> unat (e - a) \<Longrightarrow> read_type r a = read_type (whole m) a"
    using f(2) [of 12] f(2) [of 4] f(1) [of 20] assms(2) u lt unfolding read_defs by simp_all
qed

text \<open>The walk reads only what lies before the end of the map.\<close>

lemma walk_loop_present:
  assumes "present r m lo (unat e)" "lo \<le> unat a"
  shows "walk_loop r e v a count s = walk_loop (whole m) e v a count s \<and> walk_loop (whole m) e v a count s \<noteq> None"
  using assms(2)
proof (induction "unat e - unat a" arbitrary: a count s rule: less_induct)
  case less
  let ?p = "entry_size (entry_at m a)"
  have sz: "a < e \<Longrightarrow> \<not> e - a < 4 \<Longrightarrow> read_size r a = Some ?p" using read_entry_present(1) [OF assms(1) less.prems] by simp
  show ?case
  proof (cases "a < e \<and> \<not> e - a < 4 \<and> \<not> (?p < MULTIBOOT_MMAP_MIN_PAYLOAD_SIZE \<or> UINT32_MAX - 4 < ?p) \<and> \<not> e - a < ?p + 4")
    case False
    then show ?thesis using sz
      by (auto simp: walk_loop.simps [of r e v a] walk_loop.simps [of "whole m" e v a] Let_def)
  next
    case True
    then have p: "MULTIBOOT_MMAP_MIN_PAYLOAD_SIZE \<le> ?p" "?p \<le> UINT32_MAX - 4" "?p + 4 \<le> e - a" and lt: "a < e" by (auto simp: not_less)
    note st = walk_step_decreases [OF lt p]
    have "unat (e - a) = unat e - unat a" using lt by (simp add: unat_sub_no_wrap)
    then have "24 \<le> unat (e - a)" using st by simp
    note en = read_entry_present(2-4) [OF assms(1) less.prems lt this]
    have "walk_loop r e v (a + (?p + 4)) c t = walk_loop (whole m) e v (a + (?p + 4)) c t \<and>
        walk_loop (whole m) e v (a + (?p + 4)) c t \<noteq> None" for c t
      using st less.prems by (intro less.hyps) auto
    then show ?thesis using True sz
      by (simp add: walk_loop.simps [of r e v a] walk_loop.simps [of "whole m" e v a] Let_def en case_prod_beta) blast
  qed
qed

text \<open>
  The addresses a call may read: none before the magic number and the address are checked, then the
  information, and the announced map once the information is sound.
\<close>

definition may_read :: "memory \<Rightarrow> u32 \<Rightarrow> u32 \<Rightarrow> u32 set" where
  "may_read m magic a =
     (if magic \<noteq> MULTIBOOT_BOOTLOADER_MAGIC \<or> a = 0 \<or> 4294967296 \<le> unat a + 52 then {}
      else {z. unat a \<le> unat z \<and> unat z < unat a + 52} \<union>
        (if header_sound m magic a
         then {z. unat (load32 m (a + 48)) \<le> unat z \<and> unat z < unat (load32 m (a + 48)) + unat (load32 m (a + 44))} else {}))"

definition reads_covered :: "ram \<Rightarrow> memory \<Rightarrow> u32 \<Rightarrow> u32 \<Rightarrow> bool" where
  "reads_covered r m magic a \<longleftrightarrow>
     (magic = MULTIBOOT_BOOTLOADER_MAGIC \<and> a \<noteq> 0 \<and> unat a + 52 < 4294967296 \<longrightarrow> present r m (unat a) (unat a + 52)) \<and>
     (header_sound m magic a \<longrightarrow>
        present r m (unat (mmap_addr (info_at m a))) (unat (mmap_addr (info_at m a)) + unat (mmap_length (info_at m a))))"

lemma covered_may_read: "reads_covered (whole m |` may_read m magic a) m magic a"
proof -
  have in_range: "present (whole m |` S) m lo hi" if "hi \<le> 4294967296" "{z. lo \<le> unat z \<and> unat z < hi} \<subseteq> S" for S lo hi
    unfolding present_def
  proof (intro conjI allI impI)
    fix z assume z: "lo \<le> z \<and> z < hi"
    then have "unat (of_nat z :: u32) = z" using that(1) by (simp add: unat_of_nat32)
    then have "(of_nat z :: u32) \<in> S" using that(2) z by auto
    then show "(whole m |` S) (of_nat z) = Some (m (of_nat z))" by (simp add: whole_def)
  qed (rule that(1))
  show ?thesis
    unfolding reads_covered_def
  proof (intro conjI impI in_range)
    assume "header_sound m magic a"
    then show "unat (mmap_addr (info_at m a)) + unat (mmap_length (info_at m a)) \<le> 4294967296"
      "{z. unat (mmap_addr (info_at m a)) \<le> unat z \<and> unat z < unat (mmap_addr (info_at m a)) + unat (mmap_length (info_at m a))} \<subseteq> may_read m magic a"
      by (auto simp: may_read_def header_sound_def info_at_def)
  qed (auto simp: may_read_def)
qed

lemma covered_whole: "reads_covered (whole m) m magic a"
  by (simp add: reads_covered_def present_whole header_sound_def)

lemma validate_covered:
  assumes "reads_covered r m magic a"
  shows "validate_multiboot_info r magic a = Some (if header_sound m magic a then Some \<lparr>view_info = a\<rparr> else None)"
proof (cases "magic = MULTIBOOT_BOOTLOADER_MAGIC \<and> a \<noteq> 0 \<and> unat a + 52 < 4294967296")
  case True
  then have "present r m (unat a) (unat a + 52)" using assms by (simp add: reads_covered_def)
  note rd = read_info_present [OF this]
  then have "validate_multiboot_info r magic a = validate_multiboot_info (whole m) magic a"
    by (simp add: validate_multiboot_info_def rd)
  then show ?thesis by (simp add: validate_info_iff)
next
  case False
  then have "validate_multiboot_info r magic a = Some None"
    using no_overflow32 [of "52" a] by (auto simp: validate_multiboot_info_def)
  then show ?thesis using False by (auto simp: header_sound_def)
qed

lemma walk_covered:
  assumes c: "reads_covered r m magic a" and h: "header_sound m magic a"
  shows "\<exists>x. walk_memory_map r \<lparr>view_info = a\<rparr> v s = Some x \<and> walk_memory_map (whole m) \<lparr>view_info = a\<rparr> v s = Some x"
    and "read_mem_lower r a = Some (mem_lower (info_at m a))" "read_mem_upper r a = Some (mem_upper (info_at m a))"
    and "read_mmap_addr r a = Some (mmap_addr (info_at m a))" "read_mmap_length r a = Some (mmap_length (info_at m a))"
proof -
  let ?e = "mmap_addr (info_at m a) + mmap_length (info_at m a)"
  have "present r m (unat a) (unat a + 52)" using c h by (simp add: reads_covered_def header_sound_def)
  then show rd: "read_mem_lower r a = Some (mem_lower (info_at m a))" "read_mem_upper r a = Some (mem_upper (info_at m a))"
    "read_mmap_addr r a = Some (mmap_addr (info_at m a))" "read_mmap_length r a = Some (mmap_length (info_at m a))"
    by (simp_all add: read_info_present)
  have "unat ?e = unat (mmap_addr (info_at m a)) + unat (mmap_length (info_at m a))"
    using h by (simp add: header_sound_def unat_add_no_wrap)
  then have "present r m (unat (mmap_addr (info_at m a))) (unat ?e)" using c h by (simp add: reads_covered_def)
  from walk_loop_present [OF this order_refl, of v 0 s]
  show "\<exists>x. walk_memory_map r \<lparr>view_info = a\<rparr> v s = Some x \<and> walk_memory_map (whole m) \<lparr>view_info = a\<rparr> v s = Some x"
    using rd by (auto simp: walk_memory_map_def)
qed

lemmas call_defs = multiboot_parse_def multiboot_for_each_memory_region_def multiboot_get_owned_ranges_def

lemma calls_covered:
  assumes c: "reads_covered r m magic a"
  shows "\<exists>x. multiboot_parse r magic a summary = Some x \<and> multiboot_parse (whole m) magic a summary = Some x"
    and "\<exists>x. multiboot_for_each_memory_region r magic a visitor s = Some x \<and> multiboot_for_each_memory_region (whole m) magic a visitor s = Some x"
    and "\<exists>x. multiboot_get_owned_ranges r magic a ranges = Some x \<and> multiboot_get_owned_ranges (whole m) magic a ranges = Some x"
proof -
  have "(\<exists>x. multiboot_parse r magic a summary = Some x \<and> multiboot_parse (whole m) magic a summary = Some x) \<and>
    (\<exists>x. multiboot_for_each_memory_region r magic a visitor s = Some x \<and> multiboot_for_each_memory_region (whole m) magic a visitor s = Some x) \<and>
    (\<exists>x. multiboot_get_owned_ranges r magic a ranges = Some x \<and> multiboot_get_owned_ranges (whole m) magic a ranges = Some x)"
  proof (cases "header_sound m magic a")
    case True
    note w = walk_covered [OF c True]
    obtain ok n u where "walk_memory_map r \<lparr>view_info = a\<rparr> None () = Some (ok, n, u)" "walk_memory_map (whole m) \<lparr>view_info = a\<rparr> None () = Some (ok, n, u)"
      using w(1) [of None "()"] by auto
    moreover obtain ok' n' t where "walk_memory_map r \<lparr>view_info = a\<rparr> visitor s = Some (ok', n', t)"
        "walk_memory_map (whole m) \<lparr>view_info = a\<rparr> visitor s = Some (ok', n', t)" using w(1) [of visitor s] by auto
    ultimately show ?thesis using True
      by (auto simp: call_defs validate_covered [OF c] validate_covered [OF covered_whole] w(2-5) split: option.split)
  next
    case False
    then show ?thesis by (auto simp: call_defs validate_covered [OF c] validate_covered [OF covered_whole] split: option.split)
  qed
  then show "\<exists>x. multiboot_parse r magic a summary = Some x \<and> multiboot_parse (whole m) magic a summary = Some x"
    "\<exists>x. multiboot_for_each_memory_region r magic a visitor s = Some x \<and> multiboot_for_each_memory_region (whole m) magic a visitor s = Some x"
    "\<exists>x. multiboot_get_owned_ranges r magic a ranges = Some x \<and> multiboot_get_owned_ranges (whole m) magic a ranges = Some x"
    by blast+
qed

section \<open>The calls\<close>

lemma boot_calls_accept:
  assumes rs: "boot_map m magic a rs"
  shows "multiboot_parse (whole m) magic a (Some old) = Some (True, Some \<lparr>lower_kib = load32 m (a + 4), upper_kib = load32 m (a + 8),
        mmap_entry_count = of_nat (length rs)\<rparr>)" and "length rs < 4294967296"
    and "multiboot_for_each_memory_region (whole m) magic a (Some v) s = Some (visit_all v rs s)"
    and "multiboot_get_owned_ranges (whole m) magic a (Some r) = Some (True, Some \<lparr>owned_info_address = a, owned_info_length = 52,
        owned_mmap_address = load32 m (a + 48), owned_mmap_length = load32 m (a + 44)\<rparr>)"
    and "boot_map m magic a rs' \<Longrightarrow> rs' = rs"
proof -
  have h: "header_sound m magic a" and mm: "memory_map m (unat (mmap_addr (info_at m a))) (unat (mmap_addr (info_at m a)) + unat (mmap_length (info_at m a))) rs"
    using rs by (simp_all add: boot_map_def)
  show "length rs < 4294967296" using memory_map_length [OF mm] h by (simp add: header_sound_def)
  show "rs' = rs" if "boot_map m magic a rs'" using memory_map_unique mm that by (auto simp: boot_map_def)
  obtain c where "walk_memory_map (whole m) \<lparr>view_info = a\<rparr> (Some v) s = Some (fst (visit_all v rs s), c, snd (visit_all v rs s))"
    using walk_check(2) [OF rs, of v s] by blast
  then show "multiboot_parse (whole m) magic a (Some old) = Some (True, Some \<lparr>lower_kib = load32 m (a + 4), upper_kib = load32 m (a + 8),
        mmap_entry_count = of_nat (length rs)\<rparr>)"
    "multiboot_for_each_memory_region (whole m) magic a (Some v) s = Some (visit_all v rs s)"
    "multiboot_get_owned_ranges (whole m) magic a (Some r) = Some (True, Some \<lparr>owned_info_address = a, owned_info_length = 52,
        owned_mmap_address = load32 m (a + 48), owned_mmap_length = load32 m (a + 44)\<rparr>)"
    using h by (simp_all add: call_defs validate_info_iff walk_check(1) [OF rs] info_at_def)
qed

lemma boot_calls_refuse:
  assumes no: "\<nexists>rs. boot_map m magic a rs"
  shows "multiboot_parse (whole m) magic a (Some old) = Some (False, Some old)"
    "multiboot_for_each_memory_region (whole m) magic a (Some v) s = Some (False, s)"
    "multiboot_get_owned_ranges (whole m) magic a (Some r) = Some (False, Some r)"
proof -
  have "header_sound m magic a \<Longrightarrow> \<exists>c t. walk_memory_map (whole m) \<lparr>view_info = a\<rparr> None () = Some (False, c, t)"
    using walk_covered(1) [OF covered_whole, of m magic a None "()"] walk_check_none [OF _ no] by fastforce
  then show "multiboot_parse (whole m) magic a (Some old) = Some (False, Some old)"
    "multiboot_for_each_memory_region (whole m) magic a (Some v) s = Some (False, s)"
    "multiboot_get_owned_ranges (whole m) magic a (Some r) = Some (False, Some r)"
    by (auto simp: call_defs validate_info_iff)
qed

section \<open>Properties\<close>

text \<open>
  (C19) The three calls agree on what a good boot loader report is: sound information whose memory
  map is filled exactly by sound records. On such a report, which has one list of regions, all of
  them succeed, the count is the number of regions, and the visitor is called on the regions in
  order until it refuses one. On any other memory contents all of them fail and nothing is stored
  and no visitor is called.
\<close>

theorem multiboot_calls_exact:
  "(\<forall>rs. boot_map m magic a rs \<longrightarrow> (\<forall>rs'. boot_map m magic a rs' \<longrightarrow> rs' = rs) \<and>
      multiboot_parse (whole m) magic a (Some old) = Some (True, Some \<lparr>lower_kib = load32 m (a + 4), upper_kib = load32 m (a + 8),
        mmap_entry_count = of_nat (length rs)\<rparr>) \<and> length rs < 4294967296 \<and>
      multiboot_for_each_memory_region (whole m) magic a (Some v) s = Some (visit_all v rs s) \<and>
      multiboot_get_owned_ranges (whole m) magic a (Some r) = Some (True, Some \<lparr>owned_info_address = a, owned_info_length = 52,
        owned_mmap_address = load32 m (a + 48), owned_mmap_length = load32 m (a + 44)\<rparr>)) \<and>
   ((\<nexists>rs. boot_map m magic a rs) \<longrightarrow> multiboot_parse (whole m) magic a (Some old) = Some (False, Some old) \<and>
      multiboot_for_each_memory_region (whole m) magic a (Some v) s = Some (False, s) \<and>
      multiboot_get_owned_ranges (whole m) magic a (Some r) = Some (False, Some r)) \<and>
   multiboot_parse (whole m) magic a None = Some (False, None) \<and>
   multiboot_for_each_memory_region (whole m) magic a None s = Some (False, s) \<and>
   multiboot_get_owned_ranges (whole m) magic a None = Some (False, None)"
proof (intro conjI allI impI)
  fix rs rs' assume "boot_map m magic a rs" "boot_map m magic a rs'"
  then show "rs' = rs" by (rule boot_calls_accept(5))
qed (simp_all add: boot_calls_accept boot_calls_refuse, simp_all add: call_defs)

text \<open>
  (C20) The parser reads nothing but the 52 bytes of the information, and those only once the magic number
  and the address are checked, and the bytes of the memory map that sound information
  announces: in a machine that has no other memory, where any other read is a fault, every call
  returns, with the result it has when all memory is present. This holds whatever the information and the map
  contain, a map cut off in the middle of a record included.
\<close>

theorem multiboot_reads_in_bounds:
  "(\<exists>x. multiboot_parse (whole m |` may_read m magic a) magic a summary = Some x \<and> multiboot_parse (whole m) magic a summary = Some x) \<and>
   (\<exists>x. multiboot_for_each_memory_region (whole m |` may_read m magic a) magic a visitor s = Some x \<and>
      multiboot_for_each_memory_region (whole m) magic a visitor s = Some x) \<and>
   (\<exists>x. multiboot_get_owned_ranges (whole m |` may_read m magic a) magic a ranges = Some x \<and>
      multiboot_get_owned_ranges (whole m) magic a ranges = Some x)"
  by (intro conjI calls_covered covered_may_read)

text \<open>A boot loader's report of one usable region.\<close>

definition sample_boot_memory :: memory where
  "sample_boot_memory = word_image
     [(0x1000, 0x41), (0x1004, 639), (0x1008, 130048), (0x102C, 24), (0x1030, 0x2000),
      (0x2000, 20), (0x2004, 0x100000), (0x2008, 0), (0x200C, 0x7F00000), (0x2010, 0), (0x2014, 1)]"

lemma sample_load: "4 dvd a \<Longrightarrow> a < 4294967296 \<Longrightarrow> load32 sample_boot_memory (of_nat a) =
    (case map_of [(0x1000, 0x41), (0x1004, 639), (0x1008, 130048), (0x102C, 24), (0x1030, 0x2000),
      (0x2000, 20), (0x2004, 0x100000), (0x2008, 0), (0x200C, 0x7F00000), (0x2010, 0), (0x2014, 1)] a of None \<Rightarrow> 0 | Some v \<Rightarrow> v)"
  unfolding sample_boot_memory_def by (rule load_word_image) auto

lemmas sample_loads = sample_load [of "0x1000"] sample_load [of "0x102C"] sample_load [of "0x1030"] sample_load [of "0x2000"]
  sample_load [of "0x2004"] sample_load [of "0x2008"] sample_load [of "0x200C"] sample_load [of "0x2010"] sample_load [of "0x2014"]

lemma sample_boot_map:
  "boot_map sample_boot_memory 0x2BADB002 0x1000 [\<lparr>region_base = 0x100000, region_length = 0x7F00000, region_type = 1\<rparr>]"
  using sample_loads
  by (simp add: boot_map_def header_sound_def info_at_def region_at_def entry_at_def load64_def region_sound_def)

theorem multiboot_calls_exact_witness:
  "multiboot_for_each_memory_region (whole sample_boot_memory) 0x2BADB002 0x1000 (Some (\<lambda>r rs. (True, rs @ [r]))) [] =
     Some (True, [\<lparr>region_base = 0x100000, region_length = 0x7F00000, region_type = 1\<rparr>]) \<and>
   multiboot_parse (whole sample_boot_memory) 7 0x1000 (Some \<lparr>lower_kib = 0, upper_kib = 0, mmap_entry_count = 9\<rparr>) =
     Some (False, Some \<lparr>lower_kib = 0, upper_kib = 0, mmap_entry_count = 9\<rparr>)"
proof -
  let ?v = "\<lambda>r rs. (True, rs @ [r])" and ?old = "\<lparr>lower_kib = 0, upper_kib = 0, mmap_entry_count = 9\<rparr>"
  let ?r = "\<lparr>owned_info_address = 0, owned_info_length = 0, owned_mmap_address = 0, owned_mmap_length = 0\<rparr>"
  have no: "\<nexists>rs. boot_map sample_boot_memory 7 0x1000 rs" by (simp add: boot_map_def header_sound_def)
  have "multiboot_for_each_memory_region (whole sample_boot_memory) 0x2BADB002 0x1000 (Some ?v) [] =
      Some (visit_all ?v [\<lparr>region_base = 0x100000, region_length = 0x7F00000, region_type = 1\<rparr>] [])"
    using multiboot_calls_exact [of sample_boot_memory "0x2BADB002" "0x1000" ?old ?v "[]" ?r] sample_boot_map by blast
  moreover have "multiboot_parse (whole sample_boot_memory) 7 0x1000 (Some ?old) = Some (False, Some ?old)"
    using multiboot_calls_exact [of sample_boot_memory 7 "0x1000" ?old ?v "[]" ?r] no by blast
  ultimately show ?thesis by simp
qed

end
