(* ===== verification/Port_IO.thy ===== *)
theory Port_IO
  imports Kernel_Prelude
begin

text \<open>
  Port output, \<open>include/io.h\<close>. A driver's state keeps the log of its writes in order; what the
  writes do to a device is a function of the log.
\<close>

type_synonym port_write = "u16 \<times> u8"

definition outb :: "u16 \<Rightarrow> u8 \<Rightarrow> port_write list \<Rightarrow> port_write list" where
  "outb port v log = log @ [(port, v)]"

end
