(* ===== verification/Serial.thy ===== *)
theory Serial
  imports C_String Port_IO
begin

text \<open>
  The first serial port, \<open>kernel/serial.c\<close>. The state keeps the
  writes to the ports in order and the number of status reads; what the line status register
  answers to each read is an argument. The wait for the transmitter may run forever, so it is a
  partial function. The device holds one byte: \<open>thr_empty\<close> is whether the last status read, with no byte written since,
  found its register empty, and a byte written in any other state counts as lost.
\<close>

section \<open>Operations\<close>

abbreviation COM1 :: u16 where "COM1 \<equiv> 0x3F8"

record serial =
  status_reads :: nat
  thr_empty :: bool
  lost_bytes :: nat
  serial_ports :: "port_write list"

definition char_byte :: "char \<Rightarrow> u8" where
  "char_byte c = of_nat (of_char c)"

definition transmit_ready :: "(nat \<Rightarrow> u8) \<Rightarrow> serial \<Rightarrow> bool \<times> serial" where
  "transmit_ready lsr s =
     (let ready = lsr (status_reads s) AND 0x20 \<noteq> 0 in (ready, s\<lparr>status_reads := status_reads s + 1, thr_empty := ready\<rparr>))"

text \<open>A write to the data port.\<close>

definition send_byte :: "u8 \<Rightarrow> serial \<Rightarrow> serial" where
  "send_byte b s = s\<lparr>serial_ports := outb COM1 b (serial_ports s), thr_empty := False,
     lost_bytes := (if thr_empty s then lost_bytes s else lost_bytes s + 1)\<rparr>"

partial_function (option) wait_transmit :: "(nat \<Rightarrow> u8) \<Rightarrow> serial \<Rightarrow> serial option" where
  "wait_transmit lsr s = (case transmit_ready lsr s of (ready, s) \<Rightarrow> if ready then Some s else wait_transmit lsr s)"

definition serial_write_char :: "(nat \<Rightarrow> u8) \<Rightarrow> char \<Rightarrow> serial \<Rightarrow> serial option" where
  "serial_write_char lsr c s = do {
     s \<leftarrow> wait_transmit lsr s;
     Some (send_byte (char_byte c) s)
   }"

text \<open>Programming the port empties its queue; lost bytes are counted from here.\<close>

definition serial_init :: "serial \<Rightarrow> serial" where
  "serial_init s = s\<lparr>serial_ports := fold (\<lambda>(port, v). outb port v)
     [(COM1 + 1, 0x00), (COM1 + 3, 0x80), (COM1 + 0, 0x03), (COM1 + 1, 0x00), (COM1 + 3, 0x03), (COM1 + 2, 0xC7), (COM1 + 4, 0x0B)]
     (serial_ports s), thr_empty := False, lost_bytes := 0\<rparr>"

fun serial_write :: "(nat \<Rightarrow> u8) \<Rightarrow> string \<Rightarrow> serial \<Rightarrow> serial option" where
  "serial_write lsr [] s = Some s"
| "serial_write lsr (c # cs) s =
     (if c = NUL then Some s
      else do {
        s \<leftarrow> (if c = CHR 0x0A then serial_write_char lsr (CHR 0x0D) s else Some s);
        s \<leftarrow> serial_write_char lsr c s;
        serial_write lsr cs s
      })"

section \<open>Transmission\<close>

text \<open>A transmitter that never stays busy for ever.\<close>

definition transmitter_live :: "(nat \<Rightarrow> u8) \<Rightarrow> bool" where
  "transmitter_live lsr \<longleftrightarrow> (\<forall>n. \<exists>k \<ge> n. lsr k AND 0x20 \<noteq> 0)"

lemma wait_transmit_returns:
  assumes "transmitter_live lsr"
  obtains n where "wait_transmit lsr s = Some (s\<lparr>status_reads := n, thr_empty := True\<rparr>)"
proof -
  obtain k where k: "k \<ge> status_reads s" "lsr k AND 0x20 \<noteq> 0" using assms by (auto simp: transmitter_live_def)
  then have "\<exists>n. wait_transmit lsr s = Some (s\<lparr>status_reads := n, thr_empty := True\<rparr>)"
  proof (induction "k - status_reads s" arbitrary: s)
    case 0
    then have "lsr (status_reads s) AND 0x20 \<noteq> 0" by simp
    then show ?case by (subst wait_transmit.simps) (auto simp: transmit_ready_def Let_def)
  next
    case (Suc d)
    show ?case
    proof (cases "lsr (status_reads s) AND 0x20 = 0")
      case True
      then have "wait_transmit lsr s = wait_transmit lsr (s\<lparr>status_reads := status_reads s + 1, thr_empty := False\<rparr>)"
        by (subst wait_transmit.simps) (simp add: transmit_ready_def Let_def)
      then show ?thesis using Suc.hyps(1) [of "s\<lparr>status_reads := status_reads s + 1, thr_empty := False\<rparr>"] Suc.hyps(2) Suc.prems by auto
    next
      case False
      then show ?thesis by (subst wait_transmit.simps) (auto simp: transmit_ready_def Let_def)
    qed
  qed
  then show ?thesis using that by blast
qed

text \<open>The bytes a text becomes on the line.\<close>

definition line_bytes :: "string \<Rightarrow> u8 list" where
  "line_bytes cs = concat (map (\<lambda>c. if c = CHR 0x0A then [0x0D, 0x0A] else [char_byte c]) cs)"

lemma line_bytes_simps [simp]: "line_bytes [] = []"
  "line_bytes (c # cs) = (if c = CHR 0x0A then [0x0D, 0x0A] else [char_byte c]) @ line_bytes cs"
  "line_bytes (cs @ rest) = line_bytes cs @ line_bytes rest"
  by (simp_all add: line_bytes_def)

lemma char_byte_controls [simp]: "char_byte (CHR 0x0D) = 0x0D" "char_byte (CHR 0x0A) = 0x0A" "char_byte (CHR 0x08) = 0x08"
    "char_byte CHR '' '' = 0x20"
  by (simp_all add: char_byte_def)

lemma serial_write_char_returns:
  assumes "transmitter_live lsr"
  obtains n where "serial_write_char lsr c s = Some (s\<lparr>status_reads := n, thr_empty := False, serial_ports := serial_ports s @ [(COM1, char_byte c)]\<rparr>)"
proof -
  obtain n where "wait_transmit lsr s = Some (s\<lparr>status_reads := n, thr_empty := True\<rparr>)" by (rule wait_transmit_returns [OF assms])
  then show ?thesis by (intro that [of n]) (simp add: serial_write_char_def send_byte_def outb_def)
qed

lemma serial_write_returns:
  assumes live: "transmitter_live lsr"
  obtains n b where "serial_write lsr cs s = Some (s\<lparr>status_reads := n, thr_empty := b, serial_ports := serial_ports s @ map (Pair COM1) (line_bytes (c_str cs))\<rparr>)"
proof -
  have "\<exists>n b. serial_write lsr cs s = Some (s\<lparr>status_reads := n, thr_empty := b, serial_ports := serial_ports s @ map (Pair COM1) (line_bytes (c_str cs))\<rparr>)"
  proof (induction cs arbitrary: s)
    case Nil
    show ?case by (rule exI [of _ "status_reads s"], rule exI [of _ "thr_empty s"]) (simp add: c_str_def)
  next
    case (Cons c cs)
    show ?case
    proof (cases "c = NUL")
      case True
      then show ?thesis by (intro exI [of _ "status_reads s"] exI [of _ "thr_empty s"]) (simp add: c_str_def)
    next
      case False
      obtain n b where n: "(if c = CHR 0x0A then serial_write_char lsr (CHR 0x0D) s else Some s) =
          Some (s\<lparr>status_reads := n, thr_empty := b, serial_ports := serial_ports s @ (if c = CHR 0x0A then [(COM1, 0x0D)] else [])\<rparr>)"
      proof (cases "c = CHR 0x0A")
        case True
        obtain n where "serial_write_char lsr (CHR 0x0D) s = Some (s\<lparr>status_reads := n, thr_empty := False, serial_ports := serial_ports s @ [(COM1, char_byte (CHR 0x0D))]\<rparr>)"
          by (rule serial_write_char_returns [OF live])
        then show ?thesis using True that [of False n] by simp
      next
        case False
        then show ?thesis using that [of "thr_empty s" "status_reads s"] by simp
      qed
      let ?t = "s\<lparr>status_reads := n, thr_empty := b, serial_ports := serial_ports s @ (if c = CHR 0x0A then [(COM1, 0x0D)] else [])\<rparr>"
      obtain k where k: "serial_write_char lsr c ?t = Some (?t\<lparr>status_reads := k, thr_empty := False, serial_ports := serial_ports ?t @ [(COM1, char_byte c)]\<rparr>)"
        by (rule serial_write_char_returns [OF live])
      have "c_str (c # cs) = c # c_str cs" using False by (simp add: c_str_def)
      moreover obtain n' b' where "serial_write lsr cs (?t\<lparr>status_reads := k, thr_empty := False, serial_ports := serial_ports ?t @ [(COM1, char_byte c)]\<rparr>) =
          Some (?t\<lparr>status_reads := n', thr_empty := b', serial_ports := serial_ports ?t @ [(COM1, char_byte c)] @ map (Pair COM1) (line_bytes (c_str cs))\<rparr>)"
        using Cons.IH [of "?t\<lparr>status_reads := k, thr_empty := False, serial_ports := serial_ports ?t @ [(COM1, char_byte c)]\<rparr>"] by auto
      ultimately show ?thesis using False n k by (intro exI [of _ n'] exI [of _ b']) auto
    qed
  qed
  then show ?thesis using that by blast
qed

end
