(* ===== verification/Console.thy ===== *)
theory Console
  imports Serial
begin

text \<open>
  The console, \<open>kernel/console/console.c\<close>: the text screen, which is an array of cells with a
  cursor, and the serial line, which gets the same text. Everything that prints waits for the
  transmitter and is partial; \<open>lsr\<close> is what the line status register answers to each read.
\<close>

section \<open>Operations\<close>

abbreviation VGA_WIDTH :: u32 where "VGA_WIDTH \<equiv> 80"
abbreviation VGA_HEIGHT :: u32 where "VGA_HEIGHT \<equiv> 25"
abbreviation VGA_COLOR_LIGHT_GREY_ON_BLACK :: u16 where "VGA_COLOR_LIGHT_GREY_ON_BLACK \<equiv> 0x07"
abbreviation VGA_BUFFER_CELLS :: u32 where "VGA_BUFFER_CELLS \<equiv> 2000"

record console =
  vga_buffer :: "u16 list"
  vga_row :: u32
  vga_column :: u32
  uart :: serial

definition vga_entry :: "char \<Rightarrow> u16" where
  "vga_entry c = ucast (char_byte c) OR push_bit 8 VGA_COLOR_LIGHT_GREY_ON_BLACK"

definition vga_blank :: u16 where
  "vga_blank = vga_entry CHR '' ''"

definition vga_put_cell :: "u32 \<Rightarrow> u32 \<Rightarrow> u16 \<Rightarrow> console \<Rightarrow> console" where
  "vga_put_cell row column e s =
     (let index = row * VGA_WIDTH + column in
      if index \<ge> VGA_BUFFER_CELLS then s else s\<lparr>vga_buffer := (vga_buffer s)[unat index := e]\<rparr>)"

definition vga_scroll :: "console \<Rightarrow> console" where
  "vga_scroll s =
     (let s = fold (\<lambda>row. fold (\<lambda>column s. vga_put_cell (of_nat row) (of_nat column)
                (vga_buffer s ! unat ((of_nat row + 1) * VGA_WIDTH + of_nat column)) s) [0..<unat VGA_WIDTH])
              [0..<unat (VGA_HEIGHT - 1)] s;
          s = fold (\<lambda>column. vga_put_cell (VGA_HEIGHT - 1) (of_nat column) vga_blank) [0..<unat VGA_WIDTH] s
      in s\<lparr>vga_row := VGA_HEIGHT - 1\<rparr>)"

definition vga_advance_line :: "console \<Rightarrow> console" where
  "vga_advance_line s =
     (let s = s\<lparr>vga_column := 0, vga_row := vga_row s + 1\<rparr>
      in if vga_row s = VGA_HEIGHT then vga_scroll s else s)"

definition vga_backspace :: "console \<Rightarrow> bool \<times> console" where
  "vga_backspace s =
     (let moved = (if vga_column s > 0 then Some (s\<lparr>vga_column := vga_column s - 1\<rparr>)
         else if vga_row s > 0 then Some (s\<lparr>vga_row := vga_row s - 1, vga_column := VGA_WIDTH - 1\<rparr>)
         else None)
      in case moved of
           None \<Rightarrow> (False, s)
         | Some s \<Rightarrow> (True, vga_put_cell (vga_row s) (vga_column s) vga_blank s))"

definition vga_put_printable :: "char \<Rightarrow> console \<Rightarrow> console" where
  "vga_put_printable c s =
     (let s = vga_put_cell (vga_row s) (vga_column s) (vga_entry c) s;
          s = s\<lparr>vga_column := vga_column s + 1\<rparr>
      in if vga_column s = VGA_WIDTH then vga_advance_line s else s)"

definition serial_text :: "(nat \<Rightarrow> u8) \<Rightarrow> string \<Rightarrow> console \<Rightarrow> console option" where
  "serial_text lsr cs s = map_option (\<lambda>u. s\<lparr>uart := u\<rparr>) (serial_write lsr cs (uart s))"

definition serial_putc :: "(nat \<Rightarrow> u8) \<Rightarrow> char \<Rightarrow> console \<Rightarrow> console option" where
  "serial_putc lsr c s = serial_text lsr [c, NUL] s"

definition console_clear :: "console \<Rightarrow> console" where
  "console_clear s =
     (let s = fold (\<lambda>row. fold (\<lambda>column. vga_put_cell (of_nat row) (of_nat column) vga_blank) [0..<unat VGA_WIDTH]) [0..<unat VGA_HEIGHT] s
      in s\<lparr>vga_row := 0, vga_column := 0\<rparr>)"

definition console_init :: "console \<Rightarrow> console" where
  "console_init s = console_clear (s\<lparr>uart := serial_init (uart s)\<rparr>)"

definition console_putc :: "(nat \<Rightarrow> u8) \<Rightarrow> char \<Rightarrow> console \<Rightarrow> console option" where
  "console_putc lsr c s =
     (let byte = char_byte c in
      if c = CHR 0x0A then serial_putc lsr c (vga_advance_line s)
      else if c = CHR 0x0D then serial_putc lsr c (s\<lparr>vga_column := 0\<rparr>)
      else if c = CHR 0x08 then
        (case vga_backspace s of (moved, s) \<Rightarrow> if moved then serial_text lsr [CHR 0x08, CHR '' '', CHR 0x08] s else Some s)
      else if byte < 0x20 \<or> byte > 0x7E then Some s
      else serial_putc lsr c (vga_put_printable c s))"

fun write_chars :: "(nat \<Rightarrow> u8) \<Rightarrow> string \<Rightarrow> console \<Rightarrow> console option" where
  "write_chars lsr [] s = Some s"
| "write_chars lsr (c # cs) s = (if c = NUL then Some s else do { s \<leftarrow> console_putc lsr c s; write_chars lsr cs s })"

definition console_write :: "(nat \<Rightarrow> u8) \<Rightarrow> string option \<Rightarrow> console \<Rightarrow> console option" where
  "console_write lsr cs s = (case cs of None \<Rightarrow> Some s | Some cs \<Rightarrow> write_chars lsr cs s)"

fun put_nibbles :: "(nat \<Rightarrow> u8) \<Rightarrow> u32 \<Rightarrow> nat list \<Rightarrow> console \<Rightarrow> console option" where
  "put_nibbles lsr v [] s = Some s"
| "put_nibbles lsr v (nibble # ns) s = do {
     s \<leftarrow> console_putc lsr (''0123456789abcdef'' ! unat (drop_bit (nibble * 4) v AND 0xF)) s;
     put_nibbles lsr v ns s
   }"

definition console_write_u32_hex :: "(nat \<Rightarrow> u8) \<Rightarrow> u32 \<Rightarrow> console \<Rightarrow> console option" where
  "console_write_u32_hex lsr v s = do {
     s \<leftarrow> console_write lsr (Some ''0x'') s;
     put_nibbles lsr v [7, 6, 5, 4, 3, 2, 1, 0] s
   }"

lemma div_10_less: "0 < v \<Longrightarrow> unat (v div 10) < unat v" for v :: u32
  by (simp add: unat_div_distrib word_greater_zero_iff unat_gt_0)

function fill_digits :: "u32 \<Rightarrow> char list \<Rightarrow> u32 \<Rightarrow> char list \<times> u32" where
  "fill_digits v digits count =
     (if v > 0 then fill_digits (v div 10) (digits[unat count := char_of (48 + unat (v mod 10))]) (count + 1) else (digits, count))"
  by pat_completeness auto
termination
  by (relation "measure (\<lambda>(v, digits, count). unat v)") (auto simp: div_10_less)

function put_digits :: "(nat \<Rightarrow> u8) \<Rightarrow> char list \<Rightarrow> u32 \<Rightarrow> console \<Rightarrow> console option" where
  "put_digits lsr digits count s =
     (if count > 0 then do { s \<leftarrow> console_putc lsr (digits ! unat (count - 1)) s; put_digits lsr digits (count - 1) s } else Some s)"
  by pat_completeness auto
termination
  by (relation "measure (\<lambda>(lsr, digits, count, s). unat count)") (auto simp: unat_minus_one word_greater_zero_iff unat_gt_0)

text \<open>\<open>digits\<close> is what the local array holds before the call.\<close>

definition console_write_u32_dec :: "(nat \<Rightarrow> u8) \<Rightarrow> char list \<Rightarrow> u32 \<Rightarrow> console \<Rightarrow> console option" where
  "console_write_u32_dec lsr digits v s =
     (if v = 0 then console_putc lsr CHR ''0'' s
      else case fill_digits v digits 0 of (digits, count) \<Rightarrow> put_digits lsr digits count s)"

declare fill_digits.simps [simp del] put_digits.simps [simp del]

section \<open>A terminal\<close>

text \<open>
  What the console promises: 25 lines of 80 cells, a cursor on them, and the bytes sent so far. The
  end of a line moves to the next one, the end of the last line scrolls.
\<close>

record terminal =
  term_lines :: "u16 list list"
  term_row :: nat
  term_col :: nat
  sent :: "u8 list"

definition term_put :: "u16 \<Rightarrow> terminal \<Rightarrow> terminal" where
  "term_put e t = t\<lparr>term_lines := (term_lines t)[term_row t := (term_lines t ! term_row t)[term_col t := e]]\<rparr>"

definition term_newline :: "terminal \<Rightarrow> terminal" where
  "term_newline t =
     (if term_row t < 24 then t\<lparr>term_row := term_row t + 1, term_col := 0\<rparr>
      else t\<lparr>term_lines := tl (term_lines t) @ [replicate 80 vga_blank], term_col := 0\<rparr>)"

definition term_backspace :: "terminal \<Rightarrow> terminal" where
  "term_backspace t =
     term_put vga_blank (if 0 < term_col t then t\<lparr>term_col := term_col t - 1\<rparr> else t\<lparr>term_row := term_row t - 1, term_col := 79\<rparr>)"

definition term_char :: "char \<Rightarrow> terminal \<Rightarrow> terminal" where
  "term_char c t =
     (let t = term_put (vga_entry c) t in if term_col t < 79 then t\<lparr>term_col := term_col t + 1\<rparr> else term_newline t)"

definition printable :: "char \<Rightarrow> bool" where
  "printable c \<longleftrightarrow> 0x20 \<le> char_byte c \<and> char_byte c \<le> 0x7E"

definition term_putc :: "char \<Rightarrow> terminal \<Rightarrow> terminal" where
  "term_putc c t =
     (if c = CHR 0x0A then (term_newline t)\<lparr>sent := sent t @ [0x0D, 0x0A]\<rparr>
      else if c = CHR 0x0D then t\<lparr>term_col := 0, sent := sent t @ [0x0D]\<rparr>
      else if c = CHR 0x08 then
        (if term_row t = 0 \<and> term_col t = 0 then t else (term_backspace t)\<lparr>sent := sent t @ [0x08, 0x20, 0x08]\<rparr>)
      else if printable c then (term_char c t)\<lparr>sent := sent t @ [char_byte c]\<rparr>
      else t)"

definition term_clear :: "terminal \<Rightarrow> terminal" where
  "term_clear t = t\<lparr>term_lines := replicate 25 (replicate 80 vga_blank), term_row := 0, term_col := 0\<rparr>"

definition term_ok :: "terminal \<Rightarrow> bool" where
  "term_ok t \<longleftrightarrow> length (term_lines t) = 25 \<and> (\<forall>l \<in> set (term_lines t). length l = 80) \<and> term_row t < 25 \<and> term_col t < 80"

lemma term_ok_frame [simp]: "term_ok (t\<lparr>sent := b\<rparr>) = term_ok t"
  by (simp add: term_ok_def)

lemma term_put_ok: "term_ok t \<Longrightarrow> term_ok (term_put e t)"
  by (auto simp: term_ok_def term_put_def dest!: set_update_subset_insert [THEN subsetD])

lemma term_newline_ok: "term_ok t \<Longrightarrow> term_ok (term_newline t)"
  by (auto simp: term_ok_def term_newline_def dest: list.set_sel(2) [rotated])

text \<open>The screen as rows.\<close>

lemma concat_row_nth:
  "\<forall>l \<in> set ls. length l = n \<Longrightarrow> r < length ls \<Longrightarrow> c < n \<Longrightarrow> concat ls ! (r * n + c) = ls ! r ! c"
proof (induction ls arbitrary: r)
  case (Cons l ls)
  then show ?case by (cases r) (auto simp: nth_append)
qed simp

lemma concat_row_update:
  "\<forall>l \<in> set ls. length l = n \<Longrightarrow> r < length ls \<Longrightarrow> c < n \<Longrightarrow>
    (concat ls)[r * n + c := e] = concat (ls[r := (ls ! r)[c := e]])"
proof (induction ls arbitrary: r)
  case (Cons l ls)
  then show ?case by (cases r) (auto simp: list_update_append)
qed simp

lemma length_concat_rows: "\<forall>l \<in> set ls. length l = n \<Longrightarrow> length (concat ls) = length ls * n"
  by (induction ls) auto

text \<open>A console shows a terminal.\<close>

definition shows_lines :: "console \<Rightarrow> u16 list list \<Rightarrow> bool" where
  "shows_lines s ls \<longleftrightarrow> vga_buffer s = concat ls \<and> length ls = 25 \<and> (\<forall>l \<in> set ls. length l = 80)"

lemma cell_index:
  assumes "r < 25" "c < 80"
  shows "unat ((of_nat r :: u32) * VGA_WIDTH + of_nat c) = r * 80 + c" "\<not> VGA_BUFFER_CELLS \<le> (of_nat r :: u32) * VGA_WIDTH + of_nat c"
proof -
  show u: "unat ((of_nat r :: u32) * VGA_WIDTH + of_nat c) = r * 80 + c"
    using assms unat_word_of_nat_small [where 'a = 32, of "r * 80 + c"] by simp
  show "\<not> VGA_BUFFER_CELLS \<le> (of_nat r :: u32) * VGA_WIDTH + of_nat c" using assms u by (simp add: word_le_nat_alt)
qed

lemma put_cell_lines:
  assumes "shows_lines s ls" "r < 25" "c < 80"
  shows "shows_lines (vga_put_cell (of_nat r) (of_nat c) e s) (ls[r := (ls ! r)[c := e]])"
    and "vga_put_cell (of_nat r) (of_nat c) e s = s\<lparr>vga_buffer := vga_buffer (vga_put_cell (of_nat r) (of_nat c) e s)\<rparr>"
  using assms cell_index [OF assms(2,3)] concat_row_update [of ls 80 r c e]
  by (auto simp: shows_lines_def vga_put_cell_def Let_def dest!: set_update_subset_insert [THEN subsetD])

lemma lines_cell: "shows_lines s ls \<Longrightarrow> r < 25 \<Longrightarrow> c < 80 \<Longrightarrow> vga_buffer s ! unat ((of_nat r :: u32) * VGA_WIDTH + of_nat c) = ls ! r ! c"
  using concat_row_nth [of ls 80 r c] by (simp add: cell_index shows_lines_def)

text \<open>Filling a row from left to right.\<close>

lemma fill_row:
  assumes ls: "shows_lines s ls" and r: "r < 25" and k: "k \<le> 80"
    and f: "\<And>c t ts. c < 80 \<Longrightarrow> shows_lines t ts \<Longrightarrow> (\<forall>i < 25. i \<noteq> r \<longrightarrow> ts ! i = ls ! i) \<Longrightarrow> f c t = vga_put_cell (of_nat r) (of_nat c) (g c) t"
  shows "shows_lines (fold f [0..<k] s) (ls[r := map g [0..<k] @ drop k (ls ! r)]) \<and>
    fold f [0..<k] s = s\<lparr>vga_buffer := vga_buffer (fold f [0..<k] s)\<rparr>"
  using k
proof (induction k)
  case 0
  show ?case using ls by simp
next
  case (Suc k)
  let ?t = "fold f [0..<k] s" and ?ts = "ls[r := map g [0..<k] @ drop k (ls ! r)]"
  have ih: "shows_lines ?t ?ts" "?t = s\<lparr>vga_buffer := vga_buffer ?t\<rparr>" using Suc by simp_all
  have len: "length ls = 25" "length (ls ! r) = 80" using ls r by (auto simp: shows_lines_def)
  have st: "f k ?t = vga_put_cell (of_nat r) (of_nat k) (g k) ?t" using Suc.prems ih(1) by (intro f [of k ?t ?ts]) auto
  have row: "?ts[r := (?ts ! r)[k := g k]] = ls[r := map g [0..<Suc k] @ drop (Suc k) (ls ! r)]"
    using len r Suc.prems by (simp add: list_update_append Cons_nth_drop_Suc [symmetric])
  have "shows_lines (f k ?t) (ls[r := map g [0..<Suc k] @ drop (Suc k) (ls ! r)])"
    using put_cell_lines(1) [OF ih(1) r, of k "g k"] Suc.prems by (simp only: st row)
  moreover have "f k ?t = s\<lparr>vga_buffer := vga_buffer (f k ?t)\<rparr>"
    using put_cell_lines(2) [OF ih(1) r, of k "g k"] Suc.prems ih(2) unfolding st by (metis (no_types, lifting) Suc_le_lessD console.update_convs(1) console.surjective)
  ultimately show ?case by simp
qed

lemma shows_linesD: "shows_lines s ls \<Longrightarrow> length ls = 25" "shows_lines s ls \<Longrightarrow> r < 25 \<Longrightarrow> length (ls ! r) = 80"
  by (auto simp: shows_lines_def)

lemma fill_row_all:
  assumes "shows_lines s ls" "r < 25"
    and "\<And>c t ts. c < 80 \<Longrightarrow> shows_lines t ts \<Longrightarrow> (\<forall>i < 25. i \<noteq> r \<longrightarrow> ts ! i = ls ! i) \<Longrightarrow> f c t = vga_put_cell (of_nat r) (of_nat c) (g c) t"
  shows "shows_lines (fold f [0..<80] s) (ls[r := map g [0..<80]])"
    and "fold f [0..<80] s = s\<lparr>vga_buffer := vga_buffer (fold f [0..<80] s)\<rparr>"
  using fill_row [OF assms(1,2) le_refl assms(3)] shows_linesD(2) [OF assms(1,2)] by (simp_all del: upt_rec_numeral)

lemma scroll_rows:
  assumes "shows_lines s ls" "k \<le> 24"
  defines "copy \<equiv> \<lambda>row. fold (\<lambda>column s. vga_put_cell (of_nat row) (of_nat column)
      (vga_buffer s ! unat ((of_nat row + 1) * VGA_WIDTH + of_nat column)) s) [0..<unat VGA_WIDTH]"
  shows "shows_lines (fold copy [0..<k] s) (take k (tl ls) @ drop k ls) \<and> fold copy [0..<k] s = s\<lparr>vga_buffer := vga_buffer (fold copy [0..<k] s)\<rparr>"
  using assms(2)
proof (induction k)
  case 0
  show ?case using assms(1) by simp
next
  case (Suc k)
  let ?t = "fold copy [0..<k] s" and ?ts = "take k (tl ls) @ drop k ls"
  have ih: "shows_lines ?t ?ts" "?t = s\<lparr>vga_buffer := vga_buffer ?t\<rparr>" using Suc by simp_all
  have len: "length ls = 25" using assms(1) by (rule shows_linesD)
  have k: "k < 25" "k + 1 < 25" using Suc.prems by simp_all
  have nxt: "?ts ! (k + 1) = ls ! (k + 1)" using k len by (simp add: nth_append)
  have f: "vga_put_cell (of_nat k) (of_nat c) (vga_buffer t ! unat ((of_nat k + 1) * VGA_WIDTH + of_nat c)) t =
      vga_put_cell (of_nat k) (of_nat c) (ls ! (k + 1) ! c) t"
    if "c < 80" "shows_lines t ts" "\<forall>i < 25. i \<noteq> k \<longrightarrow> ts ! i = ?ts ! i" for c t ts
    using lines_cell [OF that(2) k(2) that(1)] that(3) k(2) nxt by (simp add: add.commute)
  note row = fill_row_all [OF ih(1) k(1) f]
  have upd: "?ts[k := map (\<lambda>c. ls ! (k + 1) ! c) [0..<80]] = take (Suc k) (tl ls) @ drop (Suc k) ls"
  proof -
    have "map (\<lambda>c. ls ! (k + 1) ! c) [0..<80] = ls ! (k + 1)"
      using shows_linesD(2) [OF assms(1) k(2)] by (intro nth_equalityI) (auto simp del: upt_rec_numeral)
    then show ?thesis
      using k len by (simp add: list_update_append take_Suc_conv_app_nth nth_tl Cons_nth_drop_Suc [symmetric] del: upt_rec_numeral)
  qed
  have "copy k ?t = fold (\<lambda>c t. vga_put_cell (of_nat k) (of_nat c) (vga_buffer t ! unat ((of_nat k + 1) * VGA_WIDTH + of_nat c)) t) [0..<80] ?t"
    by (simp add: copy_def del: upt_rec_numeral)
  then have "shows_lines (copy k ?t) (take (Suc k) (tl ls) @ drop (Suc k) ls)" "copy k ?t = ?t\<lparr>vga_buffer := vga_buffer (copy k ?t)\<rparr>"
    using row by (simp_all only: upd)
  then show ?case using ih(2) by (simp del: upt_rec_numeral) (metis console.update_convs(1) console.surjective)
qed

lemma vga_scroll_lines:
  assumes "shows_lines s ls"
  shows "shows_lines (vga_scroll s) (tl ls @ [replicate 80 vga_blank])"
    and "vga_scroll s = s\<lparr>vga_buffer := vga_buffer (vga_scroll s), vga_row := 24\<rparr>"
proof -
  let ?copy = "\<lambda>row. fold (\<lambda>column s. vga_put_cell (of_nat row) (of_nat column)
      (vga_buffer s ! unat ((of_nat row + 1) * VGA_WIDTH + of_nat column)) s) [0..<unat VGA_WIDTH]"
  let ?t = "fold ?copy [0..<24] s" and ?ts = "take 24 (tl ls) @ drop 24 ls"
  have t: "shows_lines ?t ?ts" "?t = s\<lparr>vga_buffer := vga_buffer ?t\<rparr>" using scroll_rows [OF assms, of 24] by simp_all
  let ?u = "fold (\<lambda>column. vga_put_cell (of_nat 24) (of_nat column) vga_blank) [0..<80] ?t"
  note u = fill_row_all [OF t(1), of 24 "\<lambda>column. vga_put_cell (of_nat 24) (of_nat column) vga_blank" "\<lambda>_. vga_blank"]
  have len: "length ls = 25" using assms by (rule shows_linesD)
  have last: "drop 24 ls = [ls ! 24]" using len Cons_nth_drop_Suc [of 24 ls] by simp
  have "?ts[24 := map (\<lambda>_. vga_blank) [0..<80]] = tl ls @ [replicate 80 vga_blank]"
    using len last by (simp add: list_update_append map_replicate_const del: upt_rec_numeral replicate.simps)
  moreover have v: "vga_scroll s = ?u\<lparr>vga_row := 24\<rparr>" by (simp add: vga_scroll_def Let_def del: upt_rec_numeral)
  ultimately show "shows_lines (vga_scroll s) (tl ls @ [replicate 80 vga_blank])"
    using u(1) by (simp add: shows_lines_def del: upt_rec_numeral replicate.simps)
  show "vga_scroll s = s\<lparr>vga_buffer := vga_buffer (vga_scroll s), vga_row := 24\<rparr>"
  proof -
    obtain b where "?t = s\<lparr>vga_buffer := b\<rparr>" using t(2) by blast
    moreover obtain b' where "?u = ?t\<lparr>vga_buffer := b'\<rparr>" using u(2) by auto
    ultimately have "?u = s\<lparr>vga_buffer := b'\<rparr>" by simp
    then show ?thesis unfolding v by simp
  qed
qed

section \<open>The console shows the terminal\<close>

definition shows_terminal :: "port_write list \<Rightarrow> console \<Rightarrow> terminal \<Rightarrow> bool" where
  "shows_terminal pre s t \<longleftrightarrow> shows_lines s (term_lines t) \<and> term_ok t \<and> unat (vga_row s) = term_row t \<and>
     unat (vga_column s) = term_col t \<and> serial_ports (uart s) = pre @ map (Pair COM1) (sent t) \<and> lost_bytes (uart s) = 0"

lemma shows_linesI: "vga_buffer s' = vga_buffer s \<Longrightarrow> shows_lines s' ls = shows_lines s ls"
  by (simp add: shows_lines_def)

lemma put_at_cursor:
  assumes "shows_terminal pre s t"
  shows "shows_terminal pre (vga_put_cell (vga_row s) (vga_column s) e s) (term_put e t)"
    and "vga_put_cell (vga_row s) (vga_column s) e s = s\<lparr>vga_buffer := vga_buffer (vga_put_cell (vga_row s) (vga_column s) e s)\<rparr>"
proof -
  have c: "unat (vga_row s) < 25" "unat (vga_column s) < 80" and ls: "shows_lines s (term_lines t)"
    using assms by (simp_all add: shows_terminal_def term_ok_def)
  have w: "of_nat (unat (vga_row s)) = vga_row s" "of_nat (unat (vga_column s)) = vga_column s" by simp_all
  note p = put_cell_lines [OF ls c, of e, unfolded w]
  show "vga_put_cell (vga_row s) (vga_column s) e s = s\<lparr>vga_buffer := vga_buffer (vga_put_cell (vga_row s) (vga_column s) e s)\<rparr>"
    by (rule p(2))
  from p(2) obtain b where b: "vga_put_cell (vga_row s) (vga_column s) e s = s\<lparr>vga_buffer := b\<rparr>" by blast
  have "unat (vga_row s) = term_row t" "unat (vga_column s) = term_col t" using assms by (simp_all add: shows_terminal_def)
  then show "shows_terminal pre (vga_put_cell (vga_row s) (vga_column s) e s) (term_put e t)"
    using p(1) assms term_put_ok [of t e] unfolding b by (simp add: shows_terminal_def term_put_def)
qed

lemma advance_line_shows:
  assumes "shows_terminal pre s t"
  shows "shows_terminal pre (vga_advance_line s) (term_newline t)"
proof -
  have r: "unat (vga_row s) = term_row t" "term_row t < 25" "unat (vga_row s + 1) = term_row t + 1"
    using assms by (auto simp: shows_terminal_def term_ok_def unat_add_no_wrap)
  have ok: "term_ok (term_newline t)" using assms term_newline_ok by (simp add: shows_terminal_def)
  let ?s = "s\<lparr>vga_column := 0, vga_row := vga_row s + 1\<rparr>"
  have full: "vga_row s + 1 = VGA_HEIGHT \<longleftrightarrow> \<not> term_row t < 24" using r by (auto simp: word_unat_eq_iff)
  show ?thesis
  proof (cases "term_row t < 24")
    case True
    then show ?thesis using assms ok r(3) full
      by (simp add: vga_advance_line_def shows_terminal_def term_newline_def shows_lines_def)
  next
    case False
    have ls: "shows_lines ?s (term_lines t)" using assms by (simp add: shows_terminal_def shows_lines_def)
    note sc = vga_scroll_lines [OF ls]
    have a: "vga_advance_line s = vga_scroll ?s" using False full by (simp add: vga_advance_line_def)
    have f: "vga_row (vga_scroll ?s) = 24" "vga_column (vga_scroll ?s) = 0" "uart (vga_scroll ?s) = uart s"
      by (subst sc(2), simp)+
    have "term_row t = 24" using False r(2) by simp
    then show ?thesis using sc(1) f ok assms False unfolding a
      by (simp add: shows_terminal_def term_newline_def del: replicate.simps)
  qed
qed

lemma backspace_shows:
  assumes "shows_terminal pre s t"
  shows "if term_row t = 0 \<and> term_col t = 0 then vga_backspace s = (False, s)
    else fst (vga_backspace s) \<and> shows_terminal pre (snd (vga_backspace s)) (term_backspace t)"
proof -
  have rc: "unat (vga_row s) = term_row t" "unat (vga_column s) = term_col t" "term_row t < 25" "term_col t < 80"
    using assms by (auto simp: shows_terminal_def term_ok_def)
  have z: "0 < vga_column s \<longleftrightarrow> 0 < term_col t" "0 < vga_row s \<longleftrightarrow> 0 < term_row t" using rc(1,2) by (auto simp: word_less_nat_alt)
  show ?thesis
  proof (cases "0 < term_col t")
    case True
    let ?s = "s\<lparr>vga_column := vga_column s - 1\<rparr>" and ?t = "t\<lparr>term_col := term_col t - 1\<rparr>"
    have "unat (vga_column s - 1) = term_col t - 1" using rc True z by (simp add: unat_minus_one)
    then have "shows_terminal pre ?s ?t" using assms rc by (simp add: shows_terminal_def term_ok_def shows_lines_def)
    from put_at_cursor(1) [OF this, of vga_blank] show ?thesis
      using True z by (simp add: vga_backspace_def term_backspace_def)
  next
    case col: False
    show ?thesis
    proof (cases "0 < term_row t")
      case True
      let ?s = "s\<lparr>vga_row := vga_row s - 1, vga_column := VGA_WIDTH - 1\<rparr>" and ?t = "t\<lparr>term_row := term_row t - 1, term_col := 79\<rparr>"
      have "unat (vga_row s - 1) = term_row t - 1" using rc True z by (simp add: unat_minus_one)
      then have "shows_terminal pre ?s ?t" using assms rc by (simp add: shows_terminal_def term_ok_def shows_lines_def)
      from put_at_cursor(1) [OF this, of vga_blank] show ?thesis
        using True col z by (simp add: vga_backspace_def term_backspace_def)
    qed (use col z in \<open>simp add: vga_backspace_def\<close>)
  qed
qed

lemma put_printable_shows:
  assumes "shows_terminal pre s t"
  shows "shows_terminal pre (vga_put_printable c s) (term_char c t)"
proof -
  let ?s = "vga_put_cell (vga_row s) (vga_column s) (vga_entry c) s" and ?t = "term_put (vga_entry c) t"
  note p = put_at_cursor [OF assms, of "vga_entry c"]
  have col: "unat (vga_column ?s) = term_col ?t" "term_col ?t < 80" using p(1) by (simp_all add: shows_terminal_def term_ok_def)
  then have nxt: "unat (vga_column ?s + 1) = term_col ?t + 1" by (simp add: unat_add_no_wrap)
  then have full: "vga_column ?s + 1 = VGA_WIDTH \<longleftrightarrow> \<not> term_col ?t < 79" using col by (auto simp: word_unat_eq_iff)
  show ?thesis
  proof (cases "term_col ?t < 79")
    case True
    then show ?thesis using p(1) nxt full
      by (simp add: vga_put_printable_def term_char_def Let_def shows_terminal_def term_ok_def shows_lines_def)
  next
    case False
    have "vga_advance_line (?s\<lparr>vga_column := x\<rparr>) = vga_advance_line ?s" for x by (simp add: vga_advance_line_def)
    then show ?thesis using advance_line_shows [OF p(1)] False full
      by (simp add: vga_put_printable_def term_char_def Let_def)
  qed
qed

lemma serial_text_shows:
  assumes live: "transmitter_live lsr" and sh: "shows_terminal pre s t" and b: "line_bytes (c_str cs) = b"
  obtains s' where "serial_text lsr cs s = Some s'" "shows_terminal pre s' (t\<lparr>sent := sent t @ b\<rparr>)"
proof -
  obtain n e where n: "serial_write lsr cs (uart s) =
      Some ((uart s)\<lparr>status_reads := n, thr_empty := e, serial_ports := serial_ports (uart s) @ map (Pair COM1) (line_bytes (c_str cs))\<rparr>)"
    by (rule serial_write_returns [OF live])
  show ?thesis
    by (rule that [of "s\<lparr>uart := (uart s)\<lparr>status_reads := n, thr_empty := e, serial_ports := serial_ports (uart s) @ map (Pair COM1) b\<rparr>\<rparr>"])
      (use n sh b in \<open>simp_all add: serial_text_def shows_terminal_def shows_lines_def\<close>)
qed

lemma console_putc_shows:
  assumes live: "transmitter_live lsr" and sh: "shows_terminal pre s t"
  obtains s' where "console_putc lsr c s = Some s'" "shows_terminal pre s' (term_putc c t)"
proof -
  note send = serial_text_shows [OF live]
  consider "c = CHR 0x0A" | "c = CHR 0x0D" | "c = CHR 0x08" | "printable c" "c \<noteq> CHR 0x0A" "c \<noteq> CHR 0x0D" "c \<noteq> CHR 0x08"
    | "\<not> printable c" "c \<noteq> CHR 0x0A" "c \<noteq> CHR 0x0D" "c \<noteq> CHR 0x08" by blast
  then show ?thesis
  proof cases
    case 1
    obtain s' where "serial_text lsr [c, NUL] (vga_advance_line s) = Some s'"
        "shows_terminal pre s' ((term_newline t)\<lparr>sent := sent (term_newline t) @ [0x0D, 0x0A]\<rparr>)"
      by (rule send [OF advance_line_shows [OF sh], of "[c, NUL]" "[0x0D, 0x0A]"]) (use 1 in \<open>simp_all add: c_str_def\<close>)
    moreover have "sent (term_newline t) = sent t" by (simp add: term_newline_def)
    ultimately show ?thesis using 1 by (intro that [of s']) (simp_all add: console_putc_def serial_putc_def term_putc_def)
  next
    case 2
    have "shows_terminal pre (s\<lparr>vga_column := 0\<rparr>) (t\<lparr>term_col := 0\<rparr>)"
      using sh by (simp add: shows_terminal_def term_ok_def shows_lines_def)
    then obtain s' where "serial_text lsr [c, NUL] (s\<lparr>vga_column := 0\<rparr>) = Some s'"
        "shows_terminal pre s' ((t\<lparr>term_col := 0\<rparr>)\<lparr>sent := sent (t\<lparr>term_col := 0\<rparr>) @ [0x0D]\<rparr>)"
      by (rule send [of _ _ _ "[c, NUL]" "[0x0D]"]) (use 2 in \<open>simp_all add: c_str_def\<close>)
    then show ?thesis using 2 by (intro that [of s']) (simp_all add: console_putc_def serial_putc_def term_putc_def)
  next
    case 3
    show ?thesis
    proof (cases "term_row t = 0 \<and> term_col t = 0")
      case True
      then show ?thesis using 3 sh backspace_shows [OF sh] by (intro that [of s]) (simp_all add: console_putc_def term_putc_def)
    next
      case False
      then have b: "fst (vga_backspace s)" "shows_terminal pre (snd (vga_backspace s)) (term_backspace t)"
        using backspace_shows [OF sh] by auto
      obtain s' where "serial_text lsr [CHR 0x08, CHR '' '', CHR 0x08] (snd (vga_backspace s)) = Some s'"
          "shows_terminal pre s' ((term_backspace t)\<lparr>sent := sent (term_backspace t) @ [0x08, 0x20, 0x08]\<rparr>)"
        by (rule send [OF b(2), of "[CHR 0x08, CHR '' '', CHR 0x08]" "[0x08, 0x20, 0x08]"]) (simp_all add: c_str_def)
      moreover have "sent (term_backspace t) = sent t" by (simp add: term_backspace_def term_put_def)
      ultimately show ?thesis using 3 False b(1) by (intro that [of s']) (auto simp: console_putc_def term_putc_def case_prod_beta)
    qed
  next
    case 4
    have nz: "c \<noteq> NUL" using 4(1) by (auto simp: printable_def char_byte_def)
    obtain s' where "serial_text lsr [c, NUL] (vga_put_printable c s) = Some s'"
        "shows_terminal pre s' ((term_char c t)\<lparr>sent := sent (term_char c t) @ [char_byte c]\<rparr>)"
      by (rule send [OF put_printable_shows [OF sh], of "[c, NUL]" "[char_byte c]"]) (use 4 nz in \<open>simp_all add: c_str_def\<close>)
    moreover have "sent (term_char c t) = sent t" by (simp add: term_char_def term_put_def term_newline_def Let_def)
    ultimately show ?thesis using 4
      by (intro that [of s']) (auto simp: console_putc_def serial_putc_def term_putc_def printable_def Let_def not_less)
  next
    case 5
    then show ?thesis using sh by (intro that [of s]) (auto simp: console_putc_def term_putc_def printable_def not_le)
  qed
qed

lemma write_chars_shows:
  assumes live: "transmitter_live lsr" and "shows_terminal pre s t"
  obtains s' where "write_chars lsr cs s = Some s'" "shows_terminal pre s' (fold term_putc (c_str cs) t)"
  using assms(2)
proof (induction cs arbitrary: s t thesis)
  case Nil
  then show ?case by (simp add: c_str_def)
next
  case (Cons c cs)
  show ?case
  proof (cases "c = NUL")
    case True
    then show ?thesis using Cons.prems by (simp add: c_str_def)
  next
    case False
    obtain s1 where s1: "console_putc lsr c s = Some s1" "shows_terminal pre s1 (term_putc c t)"
      by (rule console_putc_shows [OF live Cons.prems(2)])
    obtain s2 where "write_chars lsr cs s1 = Some s2" "shows_terminal pre s2 (fold term_putc (c_str cs) (term_putc c t))"
      by (rule Cons.IH [OF _ s1(2)])
    then show ?thesis using False s1(1) by (intro Cons.prems(1) [of s2]) (simp_all add: c_str_def)
  qed
qed

lemma buffer_lines:
  assumes "length b = n * 80"
  shows "\<exists>ls. b = concat ls \<and> length ls = n \<and> (\<forall>l \<in> set ls. length l = 80)"
  using assms
proof (induction n arbitrary: b)
  case 0
  then show ?case by simp
next
  case (Suc n)
  from Suc.prems Suc.IH [of "drop 80 b"] obtain ls where "drop 80 b = concat ls" "length ls = n" "\<forall>l \<in> set ls. length l = 80" by auto
  then have "b = concat (take 80 b # ls) \<and> length (take 80 b # ls) = Suc n \<and> (\<forall>l \<in> set (take 80 b # ls). length l = 80)"
    using Suc.prems append_take_drop_id [of 80 b] by auto
  then show ?case by blast
qed

lemma clear_rows:
  assumes "shows_lines s ls" "k \<le> 25"
  defines "row \<equiv> \<lambda>r. fold (\<lambda>column. vga_put_cell (of_nat r) (of_nat column) vga_blank) [0..<unat VGA_WIDTH]"
  shows "shows_lines (fold row [0..<k] s) (replicate k (replicate 80 vga_blank) @ drop k ls) \<and>
    (\<exists>b. fold row [0..<k] s = s\<lparr>vga_buffer := b\<rparr>)"
  using assms(2)
proof (induction k)
  case 0
  show ?case using assms(1) by (auto intro: exI [of _ "vga_buffer s"])
next
  case (Suc k)
  let ?t = "fold row [0..<k] s" and ?ts = "replicate k (replicate 80 vga_blank) @ drop k ls"
  obtain b where ih: "shows_lines ?t ?ts" "?t = s\<lparr>vga_buffer := b\<rparr>" using Suc by auto
  have len: "length ls = 25" using assms(1) by (rule shows_linesD)
  have k: "k < 25" using Suc.prems by simp
  note r = fill_row_all [OF ih(1) k, of "\<lambda>column. vga_put_cell (of_nat k) (of_nat column) vga_blank" "\<lambda>_. vga_blank"]
  have upd: "?ts[k := map (\<lambda>_. vga_blank) [0..<80]] = replicate (Suc k) (replicate 80 vga_blank) @ drop (Suc k) ls"
    using k len by (simp add: list_update_append map_replicate_const Cons_nth_drop_Suc [symmetric] replicate_append_same
        del: upt_rec_numeral)
  have "row k ?t = fold (\<lambda>column. vga_put_cell (of_nat k) (of_nat column) vga_blank) [0..<80] ?t"
    by (simp add: row_def del: upt_rec_numeral)
  then have "shows_lines (row k ?t) (replicate (Suc k) (replicate 80 vga_blank) @ drop (Suc k) ls)" "\<exists>b'. row k ?t = ?t\<lparr>vga_buffer := b'\<rparr>"
    using r by (simp_all only: upd) blast
  then show ?case using ih(2) by (auto simp del: upt_rec_numeral replicate.simps)
qed

lemma console_clear_shows:
  assumes "length (vga_buffer s) = 2000" "serial_ports (uart s) = pre @ map (Pair COM1) (sent t) \<and> lost_bytes (uart s) = 0"
  shows "shows_terminal pre (console_clear s) (term_clear t)"
    and "uart (console_clear s) = uart s"
proof -
  let ?row = "\<lambda>r. fold (\<lambda>column. vga_put_cell (of_nat r) (of_nat column) vga_blank) [0..<unat VGA_WIDTH]"
  obtain ls where "shows_lines s ls" using buffer_lines [of "vga_buffer s" 25] assms(1) by (auto simp: shows_lines_def)
  from clear_rows [OF this, of 25] shows_linesD(1) [OF this] obtain b where
    c: "shows_lines (fold ?row [0..<25] s) (replicate 25 (replicate 80 vga_blank))" "fold ?row [0..<25] s = s\<lparr>vga_buffer := b\<rparr>"
    by (auto simp del: upt_rec_numeral replicate.simps)
  have cl: "console_clear s = s\<lparr>vga_buffer := b, vga_row := 0, vga_column := 0\<rparr>"
    using c(2) by (simp add: console_clear_def Let_def del: upt_rec_numeral replicate.simps)
  have "term_ok (term_clear t)" by (simp add: term_ok_def term_clear_def del: replicate.simps)
  then show "shows_terminal pre (console_clear s) (term_clear t)" "uart (console_clear s) = uart s"
    using c assms(2) by (simp_all add: cl shows_terminal_def term_clear_def shows_lines_def del: replicate.simps)
qed

lemma shows_buffer_length: "shows_terminal pre s t \<Longrightarrow> length (vga_buffer s) = 2000"
  using length_concat_rows [of "term_lines t" 80] by (simp add: shows_terminal_def shows_lines_def)

section \<open>Numbers\<close>

definition digit :: "nat \<Rightarrow> char" where
  "digit d = char_of (48 + d)"

fun decimal :: "nat \<Rightarrow> string" where
  "decimal n = (if n < 10 then [digit n] else decimal (n div 10) @ [digit (n mod 10)])"

declare decimal.simps [simp del]

lemma length_decimal: "n < 10 ^ Suc k \<Longrightarrow> length (decimal n) \<le> Suc k"
proof (induction k arbitrary: n)
  case 0
  then show ?case by (simp add: decimal.simps)
next
  case (Suc k)
  show ?case
  proof (cases "n < 10")
    case False
    have "n div 10 < 10 ^ Suc k" using Suc.prems by (simp add: less_mult_imp_div_less)
    from Suc.IH [OF this] show ?thesis using False by (subst decimal.simps) simp
  qed (simp add: decimal.simps)
qed

lemma digit_not_NUL: "d < 10 \<Longrightarrow> digit d \<noteq> NUL"
proof
  assume "d < 10" "digit d = NUL"
  then have "of_char (digit d) = (0 :: nat)" by simp
  then show False using \<open>d < 10\<close> by (simp add: digit_def)
qed

lemma decimal_not_NUL: "NUL \<notin> set (decimal n)"
  by (induction n rule: decimal.induct) (subst decimal.simps, auto simp: digit_not_NUL dest: digit_not_NUL [OF _, symmetric] sym)

text \<open>The text reads back as the number.\<close>

definition read_number :: "string \<Rightarrow> nat" where
  "read_number cs = foldl (\<lambda>n c. 10 * n + (of_char c - 48)) 0 cs"

lemma read_decimal: "read_number (decimal n) = n"
proof (induction n rule: decimal.induct)
  case (1 n)
  have d: "of_char (digit d) - (48 :: nat) = d" if "d < 10" for d using that by (simp add: digit_def)
  show ?case
    using 1 d [of n] d [of "n mod 10"] by (subst decimal.simps) (auto simp: read_number_def)
qed

lemma decimal_no_leading_zero: "hd (decimal n) = CHR ''0'' \<Longrightarrow> n = 0"
proof (induction n rule: decimal.induct)
  case (1 n)
  have ne: "decimal k \<noteq> []" for k by (subst decimal.simps) simp
  show ?case
  proof (cases "n < 10")
    case True
    then have "of_char (digit n) = (48 :: nat)" using 1(2) by (simp add: decimal.simps)
    then show ?thesis using True by (simp add: digit_def)
  next
    case False
    then have "hd (decimal (n div 10)) = CHR ''0''" using 1(2) ne by (subst (asm) decimal.simps) simp
    then show ?thesis using 1(1) False by simp
  qed
qed

lemma fill_digits_writes:
  assumes "c + length (decimal (unat v)) \<le> length ds" "length ds \<le> 10"
  shows "v > 0 \<Longrightarrow> fill_digits v ds (of_nat c) =
    (take c ds @ rev (decimal (unat v)) @ drop (c + length (decimal (unat v))) ds, of_nat (c + length (decimal (unat v))))"
  using assms
proof (induction "unat v" arbitrary: v c ds rule: less_induct)
  case less
  have c: "c < length ds" "unat (of_nat c :: u32) = c"
  proof -
    have "decimal (unat v) \<noteq> []" by (subst decimal.simps) simp
    then show "c < length ds" using less.prems(2) by (cases "decimal (unat v)") auto
    then show "unat (of_nat c :: u32) = c" using less.prems(3) by (simp add: unat_word_of_nat_small)
  qed
  let ?ds = "ds[c := digit (unat v mod 10)]"
  have st: "fill_digits v ds (of_nat c) = fill_digits (v div 10) ?ds (of_nat (c + 1))"
  proof -
    have "unat (v mod 10) = unat v mod 10" "(of_nat c :: u32) + 1 = of_nat (c + 1)" by (simp_all add: unat_mod_distrib)
    then show ?thesis using less.prems(1) c(2) by (subst fill_digits.simps) (simp only: digit_def if_True)
  qed
  have u: "unat (v div 10) = unat v div 10" by (simp add: unat_div_distrib)
  show ?case
  proof (cases "unat v < 10")
    case True
    then have "v div 10 = 0" using u by (simp add: word_unat_eq_iff)
    then have "fill_digits (v div 10) ?ds (of_nat (c + 1)) = (?ds, of_nat (c + 1))" by (subst fill_digits.simps) simp
    moreover have "decimal (unat v) = [digit (unat v mod 10)]" using True by (subst decimal.simps) simp
    ultimately show ?thesis using st c(1) by (simp add: upd_conv_take_nth_drop)
  next
    case False
    have dec: "decimal (unat v) = decimal (unat v div 10) @ [digit (unat v mod 10)]" using False by (subst decimal.simps) simp
    have "unat (v div 10) < unat v" "0 < v div 10" using False u by (simp_all add: word_less_nat_alt)
    from less.hyps [OF this, of "c + 1" ?ds] have "fill_digits (v div 10) ?ds (of_nat (c + 1)) =
        (take (c + 1) ?ds @ rev (decimal (unat v div 10)) @ drop (c + 1 + length (decimal (unat v div 10))) ?ds,
         of_nat (c + 1 + length (decimal (unat v div 10))))"
      using less.prems(2,3) by (simp add: u dec del: of_nat_add)
    moreover have "take (c + 1) ?ds = take c ds @ [digit (unat v mod 10)]" using c(1) by (simp add: take_Suc_conv_app_nth)
    ultimately show ?thesis using st c(1) by (simp add: dec del: of_nat_add of_nat_Suc)
  qed
qed

lemma put_digits_writes:
  assumes "unat count \<le> length ds" "NUL \<notin> set (take (unat count) ds)"
  shows "put_digits lsr ds count s = write_chars lsr (rev (take (unat count) ds)) s"
  using assms
proof (induction "unat count" arbitrary: count s)
  case 0
  then have "count = 0" by (simp add: word_unat_eq_iff)
  then show ?case by (subst put_digits.simps) simp
next
  case (Suc k)
  then have nz: "0 < count" by (auto simp: word_less_nat_alt)
  have k: "unat (count - 1) = k" using Suc.hyps(2) nz by (simp add: unat_minus_one word_greater_zero_iff)
  have tk: "take (unat count) ds = take k ds @ [ds ! k]" using Suc.prems(1) by (simp add: Suc.hyps(2) [symmetric] take_Suc_conv_app_nth)
  have "put_digits lsr ds (count - 1) = write_chars lsr (rev (take k ds))"
    using Suc.hyps(1) [of "count - 1"] Suc.hyps(2) Suc.prems k tk by (intro ext) simp
  moreover have "ds ! k \<noteq> NUL" using Suc.prems(2) tk by auto
  ultimately show ?case using nz by (subst put_digits.simps) (simp add: tk k)
qed

lemma write_chars_Nil [simp]: "write_chars lsr [] = Some"
  by (rule ext) simp

lemma write_chars_append:
  "NUL \<notin> set cs \<Longrightarrow> write_chars lsr (cs @ ds) s = do { s \<leftarrow> write_chars lsr cs s; write_chars lsr ds s }"
proof (induction cs arbitrary: s)
  case (Cons c cs)
  then show ?case by (cases "console_putc lsr c s") auto
qed simp

lemma console_write_u32_dec_eq:
  assumes "length ds = 10"
  shows "console_write_u32_dec lsr ds v s = write_chars lsr (decimal (unat v)) s"
proof (cases "v = 0")
  case True
  have "digit 0 = CHR ''0''" by (simp add: digit_def char_of_eq_iff)
  with True show ?thesis by (simp add: console_write_u32_dec_def decimal.simps)
next
  case False
  let ?d = "decimal (unat v)"
  have "unat v < 10 ^ Suc 9" using unat_less_width(3) [of v] by simp
  then have len: "length ?d \<le> 10" using length_decimal [of "unat v" 9] by simp
  then have f: "fill_digits v ds (of_nat 0) = (take 0 ds @ rev ?d @ drop (0 + length ?d) ds, of_nat (0 + length ?d))"
    using False assms by (intro fill_digits_writes) (simp_all add: word_greater_zero_iff)
  have u: "unat (of_nat (length ?d) :: u32) = length ?d" using len by (simp add: unat_word_of_nat_small)
  have "put_digits lsr (rev ?d @ drop (length ?d) ds) (of_nat (length ?d)) s = write_chars lsr ?d s"
    using put_digits_writes [of "of_nat (length ?d)" "rev ?d @ drop (length ?d) ds" lsr s] assms decimal_not_NUL by (simp add: u)
  then show ?thesis using f False by (simp add: console_write_u32_dec_def)
qed

fun hexadecimal :: "nat \<Rightarrow> nat \<Rightarrow> string" where
  "hexadecimal 0 n = []"
| "hexadecimal (Suc k) n = hexadecimal k (n div 16) @ [''0123456789abcdef'' ! (n mod 16)]"

lemma put_nibbles_writes:
  "put_nibbles lsr v ns s = write_chars lsr (map (\<lambda>i. ''0123456789abcdef'' ! (unat v div 16 ^ i mod 16)) ns) s"
proof (induction ns arbitrary: s)
  case (Cons i ns)
  have "unat (drop_bit (i * 4) v AND 0xF) = unat v div 2 ^ (i * 4) mod 2 ^ 4"
    unfolding mask_numerals(3) unat_and_mask unat_drop_bit ..
  moreover have "(2 :: nat) ^ (i * 4) = 16 ^ i" by (subst mult.commute, subst power_mult, simp)
  ultimately have "unat (drop_bit (i * 4) v AND 0xF) = unat v div 16 ^ i mod 16" by simp
  moreover have "''0123456789abcdef'' ! d \<noteq> NUL" if "d < 16" for d :: nat
  proof -
    have "''0123456789abcdef'' ! d \<in> set ''0123456789abcdef''" using that by (intro nth_mem) simp
    then show ?thesis by (auto simp del: nth_Cons_numeral)
  qed
  moreover have "put_nibbles lsr v ns = write_chars lsr (map (\<lambda>i. ''0123456789abcdef'' ! (unat v div 16 ^ i mod 16)) ns)"
    by (rule ext) (rule Cons.IH)
  ultimately show ?case by (simp only: put_nibbles.simps write_chars.simps list.map) simp
qed simp

lemma hexadecimal_nibbles:
  "hexadecimal k n = map (\<lambda>i. ''0123456789abcdef'' ! (n div 16 ^ i mod 16)) (rev [0..<k])"
proof (induction k arbitrary: n)
  case (Suc k)
  have "rev [0..<Suc k] = map Suc (rev [0..<k]) @ [0]" by (simp add: upt_conv_Cons map_Suc_upt [symmetric] rev_map del: upt_Suc)
  moreover have "n div 16 div 16 ^ i = n div 16 ^ Suc i" for i by (simp add: div_mult2_eq)
  ultimately show ?case by (simp only: hexadecimal.simps Suc.IH map_append map_map comp_def list.map power_0 div_by_1)
qed simp

lemma console_write_u32_hex_eq:
  "console_write_u32_hex lsr v s = write_chars lsr (''0x'' @ hexadecimal 8 (unat v)) s"
proof -
  have "rev [0..<8] = [7, 6, 5, 4, 3, 2, 1, 0 :: nat]" by (simp add: upt_rec)
  moreover have nn: "NUL \<notin> set ''0x''" by simp
  ultimately show ?thesis
    by (simp only: console_write_u32_hex_def put_nibbles_writes console_write_def option.case hexadecimal_nibbles write_chars_append [OF nn])
qed

text \<open>What a console call prints is a text the terminal shows.\<close>

definition prints :: "(console \<Rightarrow> console option) \<Rightarrow> string \<Rightarrow> bool" where
  "prints f cs \<longleftrightarrow> (\<forall>pre s t. shows_terminal pre s t \<longrightarrow> (\<exists>s'. f s = Some s' \<and> shows_terminal pre s' (fold term_putc cs t)))"

lemma prints_write_chars: "transmitter_live lsr \<Longrightarrow> prints (write_chars lsr cs) (c_str cs)"
  unfolding prints_def by (metis write_chars_shows)

lemma hex_not_NUL: "NUL \<notin> set (hexadecimal k n)"
proof (induction k arbitrary: n)
  case (Suc k)
  have "''0123456789abcdef'' ! (n mod 16) \<in> set ''0123456789abcdef''" by (rule nth_mem) simp
  then have "''0123456789abcdef'' ! (n mod 16) \<noteq> NUL" by (auto simp del: nth_Cons_numeral)
  then show ?case using Suc.IH [of "n div 16"] by auto
qed simp

lemma prints_putc: "transmitter_live lsr \<Longrightarrow> prints (console_putc lsr c) [c]"
  unfolding prints_def by (metis console_putc_shows fold_simps)

lemma prints_write: "transmitter_live lsr \<Longrightarrow> prints (console_write lsr (Some cs)) (c_str cs)"
  by (simp add: console_write_def prints_write_chars prints_def) (metis prints_def prints_write_chars)

lemma prints_lit: "transmitter_live lsr \<Longrightarrow> NUL \<notin> set cs \<Longrightarrow> prints (console_write lsr (Some cs)) cs"
  using prints_write [of lsr cs] by simp

lemma prints_dec: "transmitter_live lsr \<Longrightarrow> length ds = 10 \<Longrightarrow> prints (console_write_u32_dec lsr ds v) (decimal (unat v))"
  using prints_write_chars [of lsr "decimal (unat v)"] decimal_not_NUL by (simp add: prints_def console_write_u32_dec_eq)

lemma prints_hex: "transmitter_live lsr \<Longrightarrow> prints (console_write_u32_hex lsr v) (''0x'' @ hexadecimal 8 (unat v))"
proof -
  assume "transmitter_live lsr"
  from prints_write_chars [OF this, of "''0x'' @ hexadecimal 8 (unat v)"] show ?thesis
    using hex_not_NUL [of 8 "unat v"] by (simp add: prints_def console_write_u32_hex_eq del: hexadecimal.simps)
qed

lemma prints_bind: "prints f cs \<Longrightarrow> prints g ds \<Longrightarrow> prints (\<lambda>s. f s \<bind> g) (cs @ ds)"
  unfolding prints_def by (metis bind.bind_lunit fold_append comp_apply)

section \<open>Properties\<close>

datatype console_op = Putc char | Write "string option" | Write_Dec "char list" u32 | Write_Hex u32 | Clear

fun do_op :: "(nat \<Rightarrow> u8) \<Rightarrow> console_op \<Rightarrow> console \<Rightarrow> console option" where
  "do_op lsr (Putc c) s = console_putc lsr c s"
| "do_op lsr (Write cs) s = console_write lsr cs s"
| "do_op lsr (Write_Dec ds v) s = console_write_u32_dec lsr ds v s"
| "do_op lsr (Write_Hex v) s = console_write_u32_hex lsr v s"
| "do_op lsr Clear s = Some (console_clear s)"

fun run_console :: "(nat \<Rightarrow> u8) \<Rightarrow> console_op list \<Rightarrow> console \<Rightarrow> console option" where
  "run_console lsr [] s = Some s"
| "run_console lsr (x # xs) s = do { s \<leftarrow> do_op lsr x s; run_console lsr xs s }"

fun term_op :: "console_op \<Rightarrow> terminal \<Rightarrow> terminal" where
  "term_op (Putc c) t = term_putc c t"
| "term_op (Write None) t = t"
| "term_op (Write (Some cs)) t = fold term_putc (c_str cs) t"
| "term_op (Write_Dec ds v) t = fold term_putc (decimal (unat v)) t"
| "term_op (Write_Hex v) t = fold term_putc (''0x'' @ hexadecimal 8 (unat v)) t"
| "term_op Clear t = term_clear t"

fun op_arrays_ok :: "console_op \<Rightarrow> bool" where
  "op_arrays_ok (Write_Dec ds v) \<longleftrightarrow> length ds = 10"
| "op_arrays_ok _ \<longleftrightarrow> True"

lemma console_op_shows:
  assumes live: "transmitter_live lsr" and ok: "op_arrays_ok x" and sh: "shows_terminal pre s t"
  shows "\<exists>s'. do_op lsr x s = Some s' \<and> shows_terminal pre s' (term_op x t)"
proof (cases x)
  case (Putc c)
  then show ?thesis using prints_putc [OF live] sh by (auto simp: prints_def)
next
  case (Write cs)
  then show ?thesis using prints_write [OF live] sh by (cases cs) (auto simp: prints_def console_write_def)
next
  case (Write_Dec ds v)
  then show ?thesis using prints_dec [OF live] ok sh by (auto simp: prints_def)
next
  case (Write_Hex v)
  then show ?thesis using prints_hex [OF live, of v] sh unfolding Write_Hex do_op.simps term_op.simps prints_def by blast
next
  case Clear
  have "shows_terminal pre (console_clear s) (term_clear t)"
    using sh shows_buffer_length [OF sh] by (intro console_clear_shows) (simp_all add: shows_terminal_def)
  then show ?thesis by (simp add: Clear)
qed

lemma run_console_shows:
  assumes live: "transmitter_live lsr" and "\<forall>x \<in> set xs. op_arrays_ok x" and "shows_terminal pre s t"
  shows "\<exists>s'. run_console lsr xs s = Some s' \<and> shows_terminal pre s' (fold term_op xs t)"
  using assms(2,3)
proof (induction xs arbitrary: s t)
  case (Cons x xs)
  from console_op_shows [OF live _ Cons.prems(2)] Cons.prems(1) obtain s1
    where s1: "do_op lsr x s = Some s1" "shows_terminal pre s1 (term_op x t)" by auto
  from Cons.IH [OF _ s1(2)] Cons.prems(1) show ?case by (simp add: s1(1))
qed simp

definition blank_terminal :: terminal where
  "blank_terminal = \<lparr>term_lines = replicate 25 (replicate 80 vga_blank), term_row = 0, term_col = 0, sent = []\<rparr>"

lemma console_init_shows:
  assumes "length (vga_buffer s) = 2000"
  shows "shows_terminal (serial_ports (serial_init (uart s))) (console_init s) blank_terminal"
proof -
  have "shows_terminal (serial_ports (serial_init (uart s))) (console_init s) (term_clear (blank_terminal\<lparr>sent := []\<rparr>))"
    unfolding console_init_def by (rule console_clear_shows) (use assms in \<open>simp_all add: blank_terminal_def serial_init_def\<close>)
  then show ?thesis by (simp add: term_clear_def blank_terminal_def del: replicate.simps)
qed

text \<open>
  (C21) The console is a scrolling terminal of 25 lines of 80 cells with a copy of its text on the serial line:
  whatever the screen and the cursor held before, after \<open>console_init\<close> every sequence of console
  calls returns, as long as the transmitter does not stay busy for ever, and leaves the lines, the
  cursor and the bytes sent of that terminal. The cursor never leaves the screen, so no store is
  dropped or out of range, and every byte is sent after a status read of its own that found the
  transmitter ready, so none is lost.
\<close>

lemma console_refines_terminal:
  assumes "transmitter_live lsr" "length (vga_buffer s) = 2000" and "\<forall>x \<in> set xs. op_arrays_ok x"
  shows "\<exists>s'. run_console lsr xs (console_init s) = Some s' \<and> (let t = fold term_op xs blank_terminal in
    vga_buffer s' = concat (term_lines t) \<and> length (term_lines t) = 25 \<and> (\<forall>l \<in> set (term_lines t). length l = 80) \<and>
    unat (vga_row s') = term_row t \<and> term_row t < 25 \<and> unat (vga_column s') = term_col t \<and> term_col t < 80 \<and>
    serial_ports (uart s') = serial_ports (serial_init (uart s)) @ map (Pair COM1) (sent t) \<and> lost_bytes (uart s') = 0)"
  using run_console_shows [OF assms(1,3) console_init_shows [OF assms(2)]]
  by (auto simp: shows_terminal_def shows_lines_def term_ok_def Let_def)

theorem console_refines_terminal_witness:
  "\<exists>s'. run_console (\<lambda>n. if even n then 0x20 else 0) [Write (Some ''ok''), Write_Dec (replicate 10 NUL) 42, Putc (CHR 0x0A)]
      (console_init \<lparr>vga_buffer = replicate 2000 0, vga_row = 7, vga_column = 99, uart = \<lparr>status_reads = 0, thr_empty = False, lost_bytes = 0, serial_ports = []\<rparr>\<rparr>) = Some s' \<and>
    unat (vga_row s') < 25"
proof -
  have "transmitter_live (\<lambda>n. if even n then 0x20 else 0)"
    unfolding transmitter_live_def
  proof
    fix n :: nat
    show "\<exists>k \<ge> n. (if even k then 0x20 else 0) AND (0x20 :: u8) \<noteq> 0" by (rule exI [of _ "2 * n"]) simp
  qed
  from console_refines_terminal [OF this, of "\<lparr>vga_buffer = replicate 2000 0, vga_row = 7, vga_column = 99, uart = \<lparr>status_reads = 0, thr_empty = False, lost_bytes = 0, serial_ports = []\<rparr>\<rparr>"
      "[Write (Some ''ok''), Write_Dec (replicate 10 NUL) 42, Putc (CHR 0x0A)]"]
  show ?thesis by (auto simp: Let_def simp del: replicate.simps)
qed

text \<open>
  (C22) Decimal output stays inside its ten-character buffer for every 32-bit value, does not depend
  on what the buffer held, has no leading zero, and reads back as the value.
\<close>

lemma console_decimal_exact:
  assumes "length digits = 10"
  shows "console_write_u32_dec lsr digits v s = console_write lsr (Some (decimal (unat v))) s \<and>
    (0 < v \<longrightarrow> snd (fill_digits v digits 0) = of_nat (length (decimal (unat v)))) \<and> length (decimal (unat v)) \<le> 10 \<and>
    read_number (decimal (unat v)) = unat v \<and> (hd (decimal (unat v)) = CHR ''0'' \<longrightarrow> v = 0)"
proof -
  have "unat v < 10 ^ Suc 9" using unat_less_width(3) [of v] by simp
  then have len: "length (decimal (unat v)) \<le> 10" using length_decimal [of "unat v" 9] by simp
  have "snd (fill_digits v digits 0) = of_nat (length (decimal (unat v)))" if "0 < v"
    using fill_digits_writes [of 0 v digits] that assms len by simp
  moreover have "v = 0" if "hd (decimal (unat v)) = CHR ''0''"
    using decimal_no_leading_zero [of "unat v"] that by (auto simp: word_unat_eq_iff)
  ultimately show ?thesis using len read_decimal console_write_u32_dec_eq [OF assms] by (simp add: console_write_def)
qed

theorem console_decimal_exact_witness:
  "read_number (decimal (unat (4294967295 :: u32))) = 4294967295 \<and>
   snd (fill_digits 4294967295 (replicate 10 (CHR ''x'')) 0) = of_nat (length (decimal 4294967295))"
  using console_decimal_exact [of "replicate 10 (CHR ''x'')" _ "4294967295"] by (simp del: replicate.simps)

end
