(* ===== verification/Descriptors.thy ===== *)
theory Descriptors
  imports Kernel_Prelude
begin

text \<open>
  The segment descriptor table, \<open>kernel/arch/x86/gdt.c\<close> with \<open>boot/gdt_load.S\<close>, and the interrupt
  descriptor table, \<open>kernel/arch/x86/idt.c\<close> with \<open>boot/idt_load.S\<close>. The addresses of the tables and
  of the interrupt stubs are arguments. What the processor makes of a descriptor is a decoding
  function.
\<close>

section \<open>Segments\<close>

abbreviation GDT_ENTRY_COUNT :: nat where "GDT_ENTRY_COUNT \<equiv> 5"
abbreviation GDT_FLAT_LIMIT :: u32 where "GDT_FLAT_LIMIT \<equiv> 0x000FFFFF"
abbreviation GDT_FLAG_32_BIT_GRANULAR_4K :: u8 where "GDT_FLAG_32_BIT_GRANULAR_4K \<equiv> 0xC0"
abbreviation GDT_ACCESS_KERNEL_CODE :: u8 where "GDT_ACCESS_KERNEL_CODE \<equiv> 0x9A"
abbreviation GDT_ACCESS_KERNEL_DATA :: u8 where "GDT_ACCESS_KERNEL_DATA \<equiv> 0x92"
abbreviation GDT_ACCESS_USER_CODE :: u8 where "GDT_ACCESS_USER_CODE \<equiv> 0xFA"
abbreviation GDT_ACCESS_USER_DATA :: u8 where "GDT_ACCESS_USER_DATA \<equiv> 0xF2"
abbreviation GDT_KERNEL_CODE_SELECTOR :: u16 where "GDT_KERNEL_CODE_SELECTOR \<equiv> 0x08"
abbreviation GDT_KERNEL_DATA_SELECTOR :: u16 where "GDT_KERNEL_DATA_SELECTOR \<equiv> 0x10"

record gdt_entry =
  limit_low :: u16
  base_low :: u16
  base_middle :: u8
  gdt_access :: u8
  granularity :: u8
  base_high :: u8

record table_descriptor =
  table_limit :: u16
  table_base :: u32

record segments =
  gdt :: "gdt_entry list"
  gdtr :: table_descriptor
  loaded_gdtr :: table_descriptor
  seg_cs :: u16
  seg_ds :: u16
  seg_es :: u16
  seg_fs :: u16
  seg_gs :: u16
  seg_ss :: u16

definition gdt_set_entry :: "nat \<Rightarrow> u32 \<Rightarrow> u32 \<Rightarrow> u8 \<Rightarrow> u8 \<Rightarrow> segments \<Rightarrow> segments" where
  "gdt_set_entry index base limit access flags s = s\<lparr>gdt := (gdt s)[index :=
     \<lparr>limit_low = ucast (limit AND 0xFFFF), base_low = ucast (base AND 0xFFFF), base_middle = ucast (drop_bit 16 base AND 0xFF),
      gdt_access = access, granularity = ucast (drop_bit 16 limit AND 0x0F) OR (flags AND 0xF0),
      base_high = ucast (drop_bit 24 base AND 0xFF)\<rparr>]\<rparr>"

definition gdt_load :: "table_descriptor \<Rightarrow> segments \<Rightarrow> segments" where
  "gdt_load descriptor s = s\<lparr>loaded_gdtr := descriptor, seg_ds := GDT_KERNEL_DATA_SELECTOR, seg_es := GDT_KERNEL_DATA_SELECTOR,
     seg_fs := GDT_KERNEL_DATA_SELECTOR, seg_gs := GDT_KERNEL_DATA_SELECTOR, seg_ss := GDT_KERNEL_DATA_SELECTOR,
     seg_cs := GDT_KERNEL_CODE_SELECTOR\<rparr>"

definition gdt_init :: "u32 \<Rightarrow> segments \<Rightarrow> segments" where
  "gdt_init gdt_address s =
     (let s = gdt_set_entry 0 0 0 0 0 s;
          s = gdt_set_entry 1 0 GDT_FLAT_LIMIT GDT_ACCESS_KERNEL_CODE GDT_FLAG_32_BIT_GRANULAR_4K s;
          s = gdt_set_entry 2 0 GDT_FLAT_LIMIT GDT_ACCESS_KERNEL_DATA GDT_FLAG_32_BIT_GRANULAR_4K s;
          s = gdt_set_entry 3 0 GDT_FLAT_LIMIT GDT_ACCESS_USER_CODE GDT_FLAG_32_BIT_GRANULAR_4K s;
          s = gdt_set_entry 4 0 GDT_FLAT_LIMIT GDT_ACCESS_USER_DATA GDT_FLAG_32_BIT_GRANULAR_4K s;
          s = s\<lparr>gdtr := \<lparr>table_limit = of_nat (GDT_ENTRY_COUNT * 8 - 1), table_base = gdt_address\<rparr>\<rparr>
      in gdt_load (gdtr s) s)"

section \<open>Interrupt gates\<close>

abbreviation IDT_ENTRY_COUNT :: nat where "IDT_ENTRY_COUNT \<equiv> 256"
abbreviation CPU_EXCEPTION_COUNT :: nat where "CPU_EXCEPTION_COUNT \<equiv> 32"
abbreviation INTERRUPT_GATE :: u8 where "INTERRUPT_GATE \<equiv> 0x8E"

record idt_entry =
  offset_low :: u16
  gate_selector :: u16
  gate_reserved :: u8
  type_attributes :: u8
  offset_high :: u16

record interrupt_table =
  idt :: "idt_entry list"
  idtr :: table_descriptor
  loaded_idtr :: table_descriptor

definition idt_set_gate :: "u8 \<Rightarrow> u32 \<Rightarrow> u16 \<Rightarrow> u8 \<Rightarrow> interrupt_table \<Rightarrow> interrupt_table" where
  "idt_set_gate vector handler selector attributes s = s\<lparr>idt := (idt s)[unat vector :=
     \<lparr>offset_low = ucast (handler AND 0xFFFF), gate_selector = selector, gate_reserved = 0, type_attributes = attributes,
      offset_high = ucast (drop_bit 16 handler AND 0xFFFF)\<rparr>]\<rparr>"

definition idt_load :: "table_descriptor \<Rightarrow> interrupt_table \<Rightarrow> interrupt_table" where
  "idt_load descriptor s = s\<lparr>loaded_idtr := descriptor\<rparr>"

definition idt_init :: "u32 list \<Rightarrow> u32 \<Rightarrow> interrupt_table \<Rightarrow> interrupt_table" where
  "idt_init isr_stub_table idt_address s =
     (let s = fold (\<lambda>vector. idt_set_gate (of_nat vector) 0 0 0) [0..<IDT_ENTRY_COUNT] s;
          s = fold (\<lambda>vector. idt_set_gate (of_nat vector) (isr_stub_table ! vector) GDT_KERNEL_CODE_SELECTOR INTERRUPT_GATE)
                [0..<CPU_EXCEPTION_COUNT] s;
          s = s\<lparr>idtr := \<lparr>table_limit = of_nat (IDT_ENTRY_COUNT * 8 - 1), table_base = idt_address\<rparr>\<rparr>
      in idt_load (idtr s) s)"

section \<open>What the processor reads\<close>

text \<open>The fields of a segment descriptor; with the granularity flag the limit counts pages.\<close>

definition descriptor_base :: "gdt_entry \<Rightarrow> u32" where
  "descriptor_base e = ucast (base_low e) OR push_bit 16 (ucast (base_middle e)) OR push_bit 24 (ucast (base_high e))"

definition descriptor_limit :: "gdt_entry \<Rightarrow> u32" where
  "descriptor_limit e = ucast (limit_low e) OR push_bit 16 (ucast (granularity e AND 0x0F))"

definition segment_last :: "gdt_entry \<Rightarrow> u32" where
  "segment_last e = (if bit (granularity e) 7 then push_bit 12 (descriptor_limit e) OR 0xFFF else descriptor_limit e)"

definition descriptor_privilege :: "gdt_entry \<Rightarrow> nat" where
  "descriptor_privilege e = unat (drop_bit 5 (gdt_access e) AND 3)"

definition is_code :: "gdt_entry \<Rightarrow> bool" where
  "is_code e \<longleftrightarrow> bit (gdt_access e) 4 \<and> bit (gdt_access e) 3"

definition is_writable_data :: "gdt_entry \<Rightarrow> bool" where
  "is_writable_data e \<longleftrightarrow> bit (gdt_access e) 4 \<and> \<not> bit (gdt_access e) 3 \<and> bit (gdt_access e) 1"

definition selected :: "segments \<Rightarrow> u16 \<Rightarrow> gdt_entry" where
  "selected s selector = gdt s ! unat (drop_bit 3 selector)"

definition gate_offset :: "idt_entry \<Rightarrow> u32" where
  "gate_offset e = ucast (offset_low e) OR push_bit 16 (ucast (offset_high e))"

definition gate_present :: "idt_entry \<Rightarrow> bool" where
  "gate_present e \<longleftrightarrow> bit (type_attributes e) 7"

section \<open>Round trips\<close>

lemma gate_offset_split: "ucast (ucast (w AND 0xFFFF) :: u16) OR push_bit 16 (ucast (ucast (drop_bit 16 w AND 0xFFFF) :: u16)) = w" for w :: u32
proof (rule bit_eqI)
  have m: "(0xFFFF :: u32) = mask 16" by (simp add: mask_eq_exp_minus_1)
  fix n assume "possible_bit TYPE(u32) n"
  then have "n < 32" by simp
  then show "bit (ucast (ucast (w AND 0xFFFF) :: u16) OR push_bit 16 (ucast (ucast (drop_bit 16 w AND 0xFFFF) :: u16)) :: u32) n = bit w n"
    unfolding m by (auto simp: bit_simps)
qed

lemma descriptor_base_split:
  "ucast (ucast (w AND 0xFFFF) :: u16) OR push_bit 16 (ucast (ucast (drop_bit 16 w AND 0xFF) :: u8)) OR
     push_bit 24 (ucast (ucast (drop_bit 24 w AND 0xFF) :: u8)) = w" for w :: u32
proof (rule bit_eqI)
  have m: "(0xFFFF :: u32) = mask 16" "(0xFF :: u32) = mask 8" by (simp_all add: mask_eq_exp_minus_1)
  fix n assume "possible_bit TYPE(u32) n"
  then consider "n < 16" | "16 \<le> n" "n < 24" | "24 \<le> n" "n < 32" by force
  then show "bit (ucast (ucast (w AND 0xFFFF) :: u16) OR push_bit 16 (ucast (ucast (drop_bit 16 w AND 0xFF) :: u8)) OR
     push_bit 24 (ucast (ucast (drop_bit 24 w AND 0xFF) :: u8)) :: u32) n = bit w n"
    unfolding m by cases (auto simp: bit_simps)
qed

lemma descriptor_limit_split:
  fixes limit :: u32 and flags :: u8
  assumes "unat limit < 2 ^ 20"
  shows "ucast (ucast (limit AND 0xFFFF) :: u16) OR push_bit 16 (ucast ((ucast (drop_bit 16 limit AND 0x0F) OR (flags AND 0xF0)) AND 0x0F :: u8)) = limit"
proof (rule bit_eqI)
  have m: "(0xFFFF :: u32) = mask 16" "(0x0F :: u32) = mask 4" "(0x0F :: u8) = mask 4" "(0xF0 :: u8) = push_bit 4 (mask 4)"
    by (simp_all add: mask_eq_exp_minus_1 push_bit_eq_mult)
  have hi: "\<not> bit limit n" if "20 \<le> n" for n
  proof -
    have "take_bit 20 limit = limit" using assms by (simp add: word_unat_eq_iff unsigned_take_bit_eq take_bit_nat_eq_self)
    then show ?thesis using that by (metis bit_take_bit_iff linorder_not_le)
  qed
  fix n assume "possible_bit TYPE(u32) n"
  then consider "n < 16" | "16 \<le> n" "n < 20" | "20 \<le> n" "n < 32" by force
  then show "bit (ucast (ucast (limit AND 0xFFFF) :: u16) OR push_bit 16 (ucast ((ucast (drop_bit 16 limit AND 0x0F) OR (flags AND 0xF0)) AND 0x0F :: u8)) :: u32) n = bit limit n"
    unfolding m by cases (auto simp: bit_simps hi)
qed

text \<open>A gate, and a table filled with gates.\<close>

definition make_gate :: "u32 \<Rightarrow> u16 \<Rightarrow> u8 \<Rightarrow> idt_entry" where
  "make_gate handler selector attributes = \<lparr>offset_low = ucast (handler AND 0xFFFF), gate_selector = selector, gate_reserved = 0,
     type_attributes = attributes, offset_high = ucast (drop_bit 16 handler AND 0xFFFF)\<rparr>"

lemma gate_offset_make [simp]: "gate_offset (make_gate handler selector attributes) = handler"
  using gate_offset_split [of handler] by (simp add: gate_offset_def make_gate_def)

lemma make_gate_sel [simp]: "gate_selector (make_gate h sel a) = sel" "type_attributes (make_gate h sel a) = a"
  by (simp_all add: make_gate_def)

lemma idt_set_gate_eq: "idt_set_gate v h sel a s = s\<lparr>idt := (idt s)[unat v := make_gate h sel a]\<rparr>"
  by (simp add: idt_set_gate_def make_gate_def)

lemma fold_set_gates:
  assumes "lo + n \<le> 256" "length (idt s) = 256"
  shows "fold (\<lambda>i. idt_set_gate (of_nat (lo + i)) (f i) sel a) [0..<n] s =
    s\<lparr>idt := map (\<lambda>v. if lo \<le> v \<and> v < lo + n then make_gate (f (v - lo)) sel a else idt s ! v) [0..<256]\<rparr>"
  using assms(1)
proof (induction n)
  case 0
  have "map ((!) (idt s)) [0..<256] = idt s" unfolding assms(2) [symmetric] by (rule map_nth)
  moreover have "(\<lambda>v. if lo \<le> v \<and> v < lo + 0 then make_gate (f (v - lo)) sel a else idt s ! v) = (!) (idt s)" by (rule ext) auto
  ultimately show ?case by (simp only: upt_0 fold_simps) simp
next
  case (Suc n)
  have u: "unat (of_nat (lo + n) :: u8) = lo + n" using Suc.prems by (simp add: unat_word_of_nat_small del: of_nat_add)
  have "(map (\<lambda>v. if lo \<le> v \<and> v < lo + n then make_gate (f (v - lo)) sel a else idt s ! v) [0..<256])[lo + n := make_gate (f n) sel a] =
      map (\<lambda>v. if lo \<le> v \<and> v < lo + Suc n then make_gate (f (v - lo)) sel a else idt s ! v) [0..<256]"
  proof (rule nth_equalityI, goal_cases)
    case (2 v)
    then have "v < 256" by (simp del: upt_rec_numeral)
    then show ?case by (cases "v = lo + n") (auto simp del: upt_rec_numeral)
  qed (simp del: upt_rec_numeral)
  moreover have "fold (\<lambda>i. idt_set_gate (of_nat (lo + i)) (f i) sel a) [0..<n] s =
      s\<lparr>idt := map (\<lambda>v. if lo \<le> v \<and> v < lo + n then make_gate (f (v - lo)) sel a else idt s ! v) [0..<256]\<rparr>"
    using Suc by simp
  ultimately show ?case
    using idt_set_gate_eq [of "of_nat (lo + n)" "f n" sel a] by (simp add: u del: upt_rec_numeral of_nat_add)
qed

lemma idt_init_eq:
  assumes "length (idt s) = 256" "length isr = 32"
  shows "idt (idt_init isr a s) = map (\<lambda>v. if v < 32 then make_gate (isr ! v) GDT_KERNEL_CODE_SELECTOR INTERRUPT_GATE else make_gate 0 0 0) [0..<256]"
    and "loaded_idtr (idt_init isr a s) = \<lparr>table_limit = 2047, table_base = a\<rparr>" "length (idt (idt_init isr a s)) = 256"
proof -
  let ?s1 = "fold (\<lambda>vector. idt_set_gate (of_nat vector) 0 0 0) [0..<256] s"
  have 1: "?s1 = s\<lparr>idt := map (\<lambda>v. make_gate 0 0 0) [0..<256]\<rparr>"
    using fold_set_gates [of 0 256 s "\<lambda>_. 0" 0 0] assms(1) by (simp cong: map_cong del: upt_rec_numeral)
  have 2: "idt (fold (\<lambda>vector. idt_set_gate (of_nat vector) (isr ! vector) GDT_KERNEL_CODE_SELECTOR INTERRUPT_GATE) [0..<32] ?s1) =
      map (\<lambda>v. if v < 32 then make_gate (isr ! v) GDT_KERNEL_CODE_SELECTOR INTERRUPT_GATE else make_gate 0 0 0) [0..<256]"
    using fold_set_gates [of 0 32 ?s1 "\<lambda>v. isr ! v" GDT_KERNEL_CODE_SELECTOR INTERRUPT_GATE]
    by (simp add: 1 cong: map_cong del: upt_rec_numeral)
  then show "idt (idt_init isr a s) = map (\<lambda>v. if v < 32 then make_gate (isr ! v) GDT_KERNEL_CODE_SELECTOR INTERRUPT_GATE else make_gate 0 0 0) [0..<256]"
    "loaded_idtr (idt_init isr a s) = \<lparr>table_limit = 2047, table_base = a\<rparr>"
    by (simp_all add: idt_init_def idt_load_def Let_def del: upt_rec_numeral)
  then show "length (idt (idt_init isr a s)) = 256" by (simp del: upt_rec_numeral)
qed

section \<open>Properties\<close>

definition flat_segment :: "gdt_entry \<Rightarrow> nat \<Rightarrow> bool" where
  "flat_segment e privilege \<longleftrightarrow> bit (gdt_access e) 7 \<and> descriptor_base e = 0 \<and> segment_last e = 0xFFFFFFFF \<and> bit (granularity e) 6 \<and>
     descriptor_privilege e = privilege"

text \<open>
  (C29) A descriptor the kernel writes decodes to the base, the limit, the access byte and the flags
  it was written with. After \<open>gdt_init\<close> the processor runs on flat 4 GiB segments: code and writable
  data of privilege 0 in every segment register, code and data of privilege 3 behind the user
  selectors, whose requested privilege is 3, and no segment behind the null selector.
\<close>

lemma gdt_descriptors_decode:
  assumes "length (gdt s) = GDT_ENTRY_COUNT" "index < GDT_ENTRY_COUNT" "unat limit < 2 ^ 20"
  shows "(let e = gdt (gdt_set_entry index base limit access flags s) ! index in
      descriptor_base e = base \<and> descriptor_limit e = limit \<and> gdt_access e = access \<and> granularity e AND 0xF0 = flags AND 0xF0) \<and>
    (let s' = gdt_init gdt_address s in
      loaded_gdtr s' = \<lparr>table_limit = 39, table_base = gdt_address\<rparr> \<and> \<not> bit (gdt_access (selected s' 0)) 7 \<and>
      flat_segment (selected s' (seg_cs s')) 0 \<and> is_code (selected s' (seg_cs s')) \<and>
      (\<forall>r \<in> {seg_ds s', seg_es s', seg_fs s', seg_gs s', seg_ss s'}. flat_segment (selected s' r) 0 \<and> is_writable_data (selected s' r) \<and> r AND 3 = 0) \<and>
      flat_segment (selected s' 0x1B) 3 \<and> is_code (selected s' 0x1B) \<and> flat_segment (selected s' 0x23) 3 \<and> is_writable_data (selected s' 0x23))"
proof -
  have g: "(ucast (drop_bit 16 limit AND 0x0F) OR (flags AND 0xF0)) AND 0xF0 = flags AND (0xF0 :: u8)"
  proof (rule bit_eqI)
    have m: "(0x0F :: u32) = mask 4" "(0xF0 :: u8) = push_bit 4 (mask 4)" by (simp_all add: mask_eq_exp_minus_1 push_bit_eq_mult)
    fix n show "bit ((ucast (drop_bit 16 limit AND 0x0F) OR (flags AND 0xF0)) AND 0xF0) n = bit (flags AND (0xF0 :: u8)) n"
      unfolding m by (auto simp: bit_simps)
  qed
  have "let e = gdt (gdt_set_entry index base limit access flags s) ! index in
      descriptor_base e = base \<and> descriptor_limit e = limit \<and> gdt_access e = access \<and> granularity e AND 0xF0 = flags AND 0xF0"
    using assms(1,2) descriptor_base_split [of base] descriptor_limit_split [OF assms(3), of flags] g
    by (simp add: gdt_set_entry_def descriptor_base_def descriptor_limit_def Let_def or.assoc)
  moreover have "gdt (gdt_init a s) = [\<lparr>limit_low = 0, base_low = 0, base_middle = 0, gdt_access = 0, granularity = 0, base_high = 0\<rparr>,
      \<lparr>limit_low = 0xFFFF, base_low = 0, base_middle = 0, gdt_access = 0x9A, granularity = 0xCF, base_high = 0\<rparr>,
      \<lparr>limit_low = 0xFFFF, base_low = 0, base_middle = 0, gdt_access = 0x92, granularity = 0xCF, base_high = 0\<rparr>,
      \<lparr>limit_low = 0xFFFF, base_low = 0, base_middle = 0, gdt_access = 0xFA, granularity = 0xCF, base_high = 0\<rparr>,
      \<lparr>limit_low = 0xFFFF, base_low = 0, base_middle = 0, gdt_access = 0xF2, granularity = 0xCF, base_high = 0\<rparr>]" for a
  proof -
    obtain a b c d e where "gdt s = [a, b, c, d, e]" using assms(1) by (auto simp: length_Suc_conv numeral_eq_Suc)
    then show ?thesis by (simp add: gdt_init_def gdt_set_entry_def gdt_load_def Let_def)
  qed
  ultimately show ?thesis
    by (simp add: Let_def selected_def flat_segment_def is_code_def is_writable_data_def descriptor_base_def segment_last_def
        descriptor_limit_def descriptor_privilege_def gdt_init_def gdt_load_def bit_simps)
qed

theorem gdt_descriptors_decode_witness:
  fixes s :: segments
  defines "s \<equiv> \<lparr>gdt = replicate 5 \<lparr>limit_low = 0, base_low = 0, base_middle = 0, gdt_access = 0, granularity = 0, base_high = 0\<rparr>,
     gdtr = \<lparr>table_limit = 0, table_base = 0\<rparr>, loaded_gdtr = \<lparr>table_limit = 0, table_base = 0\<rparr>,
     seg_cs = 0, seg_ds = 0, seg_es = 0, seg_fs = 0, seg_gs = 0, seg_ss = 0\<rparr>"
  shows "descriptor_limit (gdt (gdt_set_entry 3 0x12345678 0xABCDE 0x92 0x40 s) ! 3) = 0xABCDE \<and> flat_segment (selected (gdt_init 0x5000 s) 0x1B) 3"
  using gdt_descriptors_decode [of s 3 "0xABCDE" "0x12345678" "0x92" "0x40" "0x5000"] unfolding Let_def
  by (simp add: s_def)

end
