(* ===== verification/Irq.thy ===== *)
theory Irq
  imports Descriptors Port_IO
begin

text \<open>
  The interrupt controllers, \<open>kernel/arch/x86/pic.c\<close>, the interval timer, \<open>pit.c\<close>, and the dispatch
  of interrupt requests, \<open>irq.c\<close>. Handlers act on a state of their own, whose type is a parameter.
  The controllers and the timer themselves are read off the port writes, as their data sheets
  describe them.
\<close>

section \<open>The interrupt controllers\<close>

abbreviation PIC_MASTER_COMMAND :: u16 where "PIC_MASTER_COMMAND \<equiv> 0x20"
abbreviation PIC_MASTER_DATA :: u16 where "PIC_MASTER_DATA \<equiv> 0x21"
abbreviation PIC_SLAVE_COMMAND :: u16 where "PIC_SLAVE_COMMAND \<equiv> 0xA0"
abbreviation PIC_SLAVE_DATA :: u16 where "PIC_SLAVE_DATA \<equiv> 0xA1"
abbreviation PIC_ICW1_INIT :: u8 where "PIC_ICW1_INIT \<equiv> 0x11"
abbreviation PIC_ICW4_8086 :: u8 where "PIC_ICW4_8086 \<equiv> 0x01"
abbreviation PIC_MASTER_VECTOR_OFFSET :: u8 where "PIC_MASTER_VECTOR_OFFSET \<equiv> 0x20"
abbreviation PIC_SLAVE_VECTOR_OFFSET :: u8 where "PIC_SLAVE_VECTOR_OFFSET \<equiv> 0x28"
abbreviation PIC_MASTER_CASCADE_IRQ :: u8 where "PIC_MASTER_CASCADE_IRQ \<equiv> 0x04"
abbreviation PIC_SLAVE_CASCADE_ID :: u8 where "PIC_SLAVE_CASCADE_ID \<equiv> 0x02"
abbreviation PIC_ALL_MASKED :: u8 where "PIC_ALL_MASKED \<equiv> 0xFF"
abbreviation PIC_SLAVE_IRQ_BASE :: u8 where "PIC_SLAVE_IRQ_BASE \<equiv> 8"

record pic =
  master_mask :: u8
  slave_mask :: u8
  pic_ports :: "port_write list"

definition pic_write_masks :: "pic \<Rightarrow> pic" where
  "pic_write_masks p = p\<lparr>pic_ports := outb PIC_SLAVE_DATA (slave_mask p) (outb PIC_MASTER_DATA (master_mask p) (pic_ports p))\<rparr>"

definition pic_init :: "pic \<Rightarrow> pic" where
  "pic_init p =
     (let p = p\<lparr>pic_ports := fold (\<lambda>(port, v). outb port v)
            [(PIC_MASTER_COMMAND, PIC_ICW1_INIT), (PIC_SLAVE_COMMAND, PIC_ICW1_INIT),
             (PIC_MASTER_DATA, PIC_MASTER_VECTOR_OFFSET), (PIC_SLAVE_DATA, PIC_SLAVE_VECTOR_OFFSET),
             (PIC_MASTER_DATA, PIC_MASTER_CASCADE_IRQ), (PIC_SLAVE_DATA, PIC_SLAVE_CASCADE_ID),
             (PIC_MASTER_DATA, PIC_ICW4_8086), (PIC_SLAVE_DATA, PIC_ICW4_8086)] (pic_ports p)\<rparr>
      in pic_write_masks (p\<lparr>master_mask := PIC_ALL_MASKED, slave_mask := PIC_ALL_MASKED\<rparr>))"

definition pic_set_mask :: "u8 \<Rightarrow> bool \<Rightarrow> pic \<Rightarrow> bool \<times> pic" where
  "pic_set_mask irq masked p =
     (if irq \<ge> 16 then (False, p)
      else if irq < PIC_SLAVE_IRQ_BASE then
        let b = push_bit (unat irq) 1;
            m = (if masked then master_mask p OR b else master_mask p AND NOT b)
        in (True, p\<lparr>master_mask := m, pic_ports := outb PIC_MASTER_DATA m (pic_ports p)\<rparr>)
      else
        let b = push_bit (unat (irq - PIC_SLAVE_IRQ_BASE)) 1;
            m = (if masked then slave_mask p OR b else slave_mask p AND NOT b)
        in (True, p\<lparr>slave_mask := m, pic_ports := outb PIC_SLAVE_DATA m (pic_ports p)\<rparr>))"

definition pic_get_mask :: "pic \<Rightarrow> u16" where
  "pic_get_mask p = ucast (master_mask p) OR push_bit 8 (ucast (slave_mask p))"

definition pic_send_eoi :: "u8 \<Rightarrow> pic \<Rightarrow> pic" where
  "pic_send_eoi irq p =
     (if irq \<ge> 16 then p
      else
        let p = (if irq \<ge> PIC_SLAVE_IRQ_BASE then p\<lparr>pic_ports := outb PIC_SLAVE_COMMAND 0x20 (pic_ports p)\<rparr> else p)
        in p\<lparr>pic_ports := outb PIC_MASTER_COMMAND 0x20 (pic_ports p)\<rparr>)"

section \<open>The timer\<close>

abbreviation PIT_INPUT_HZ :: u32 where "PIT_INPUT_HZ \<equiv> 1193182"
abbreviation PIT_CHANNEL_0_PORT :: u16 where "PIT_CHANNEL_0_PORT \<equiv> 0x40"
abbreviation PIT_COMMAND_PORT :: u16 where "PIT_COMMAND_PORT \<equiv> 0x43"
abbreviation PIT_CHANNEL_0_LO_HI_MODE_3 :: u8 where "PIT_CHANNEL_0_LO_HI_MODE_3 \<equiv> 0x36"
abbreviation PIT_MAX_DIVISOR :: u32 where "PIT_MAX_DIVISOR \<equiv> 65535"

record pit =
  tick_count :: u32
  configured_frequency_hz :: u32
  pit_ports :: "port_write list"

definition pit_configure :: "u32 \<Rightarrow> pit \<Rightarrow> bool \<times> pit" where
  "pit_configure requested_hz p =
     (if requested_hz = 0 then (False, p)
      else
        let divisor = PIT_INPUT_HZ div requested_hz in
        if divisor = 0 \<or> divisor > PIT_MAX_DIVISOR then (False, p)
        else
          let actual_hz = PIT_INPUT_HZ div divisor;
              ports = outb PIT_COMMAND_PORT PIT_CHANNEL_0_LO_HI_MODE_3 (pit_ports p);
              ports = outb PIT_CHANNEL_0_PORT (ucast (divisor AND 0xFF)) ports;
              ports = outb PIT_CHANNEL_0_PORT (ucast (drop_bit 8 divisor AND 0xFF)) ports
          in (True, p\<lparr>pit_ports := ports, configured_frequency_hz := actual_hz, tick_count := 0\<rparr>))"

definition pit_handle_irq :: "pit \<Rightarrow> pit" where
  "pit_handle_irq p = p\<lparr>tick_count := tick_count p + 1\<rparr>"

definition pit_ticks :: "pit \<Rightarrow> u32" where
  "pit_ticks p = tick_count p"

definition pit_frequency_hz :: "pit \<Rightarrow> u32" where
  "pit_frequency_hz p = configured_frequency_hz p"

section \<open>Interrupt requests\<close>

abbreviation IRQ_COUNT :: nat where "IRQ_COUNT \<equiv> 16"
abbreviation IRQ_VECTOR_BASE :: u32 where "IRQ_VECTOR_BASE \<equiv> 32"

text \<open>The driver, with the controllers and the interrupt table it sets up. A null handler is \<open>None\<close>.\<close>

record 'w irq_system =
  handlers :: "('w \<Rightarrow> 'w) option list"
  counts :: "u32 list"
  irq_pic :: pic
  irq_idt :: interrupt_table

definition irq_init :: "u32 list \<Rightarrow> 'w irq_system \<Rightarrow> 'w irq_system" where
  "irq_init irq_stub_table q =
     fold (\<lambda>irq q. q\<lparr>handlers := (handlers q)[irq := None], counts := (counts q)[irq := 0],
         irq_idt := idt_set_gate (ucast (IRQ_VECTOR_BASE + of_nat irq)) (irq_stub_table ! irq) GDT_KERNEL_CODE_SELECTOR INTERRUPT_GATE (irq_idt q)\<rparr>)
       [0..<IRQ_COUNT] (q\<lparr>irq_pic := pic_init (irq_pic q)\<rparr>)"

definition irq_register_handler :: "u8 \<Rightarrow> ('w \<Rightarrow> 'w) option \<Rightarrow> 'w irq_system \<Rightarrow> bool \<times> 'w irq_system" where
  "irq_register_handler irq handler q =
     (if irq \<ge> of_nat IRQ_COUNT then (False, q)
      else case handler of
        None \<Rightarrow> (False, q)
      | Some f \<Rightarrow> (case handlers q ! unat irq of
            Some _ \<Rightarrow> (False, q)
          | None \<Rightarrow> (True, q\<lparr>handlers := (handlers q)[unat irq := Some f]\<rparr>)))"

definition irq_unregister_handler :: "u8 \<Rightarrow> 'w irq_system \<Rightarrow> bool \<times> 'w irq_system" where
  "irq_unregister_handler irq q =
     (if irq \<ge> of_nat IRQ_COUNT then (False, q)
      else case handlers q ! unat irq of
        None \<Rightarrow> (False, q)
      | Some _ \<Rightarrow> (True, q\<lparr>handlers := (handlers q)[unat irq := None]\<rparr>))"

definition irq_set_enabled :: "u8 \<Rightarrow> bool \<Rightarrow> 'w irq_system \<Rightarrow> bool \<times> 'w irq_system" where
  "irq_set_enabled irq enabled q = (case pic_set_mask irq (\<not> enabled) (irq_pic q) of (r, p) \<Rightarrow> (r, q\<lparr>irq_pic := p\<rparr>))"

definition irq_count :: "u8 \<Rightarrow> 'w irq_system \<Rightarrow> u32" where
  "irq_count irq q = (if irq \<ge> of_nat IRQ_COUNT then 0 else counts q ! unat irq)"

definition irq_dispatch :: "u8 \<Rightarrow> 'w irq_system \<times> 'w \<Rightarrow> 'w irq_system \<times> 'w" where
  "irq_dispatch irq = (\<lambda>(q, w).
     if irq \<ge> of_nat IRQ_COUNT then (q, w)
     else
       let q = q\<lparr>counts := (counts q)[unat irq := counts q ! unat irq + 1]\<rparr>;
           w = (case handlers q ! unat irq of None \<Rightarrow> w | Some handler \<Rightarrow> handler w)
       in (q\<lparr>irq_pic := pic_send_eoi irq (irq_pic q)\<rparr>, w))"

section \<open>The devices\<close>

text \<open>
  An 8259A: a command with bit 4 starts its initialisation, whose next three data writes are the
  vector base, the cascade word and the mode; afterwards a data write is the interrupt mask and the
  command \<open>0x20\<close> ends the request of highest priority that is in service.
\<close>

datatype pic_phase = Ready | Expect_Base | Expect_Cascade | Expect_Mode

record pic_device =
  phase :: pic_phase
  vector_base :: u8
  cascade :: u8
  imr :: u8
  in_service :: "nat set"

definition end_highest :: "nat set \<Rightarrow> nat set" where
  "end_highest xs = (if xs = {} then {} else xs - {Min xs})"

definition pic_command :: "u8 \<Rightarrow> pic_device \<Rightarrow> pic_device" where
  "pic_command v d =
     (if bit v 4 then d\<lparr>phase := Expect_Base, imr := 0, in_service := {}\<rparr>
      else if v = 0x20 then d\<lparr>in_service := end_highest (in_service d)\<rparr> else d)"

definition pic_data :: "u8 \<Rightarrow> pic_device \<Rightarrow> pic_device" where
  "pic_data v d =
     (case phase d of
        Expect_Base \<Rightarrow> d\<lparr>vector_base := v AND 0xF8, phase := Expect_Cascade\<rparr>
      | Expect_Cascade \<Rightarrow> d\<lparr>cascade := v, phase := Expect_Mode\<rparr>
      | Expect_Mode \<Rightarrow> d\<lparr>phase := Ready\<rparr>
      | Ready \<Rightarrow> d\<lparr>imr := v\<rparr>)"

definition pic_write :: "port_write \<Rightarrow> pic_device \<times> pic_device \<Rightarrow> pic_device \<times> pic_device" where
  "pic_write = (\<lambda>(port, v) (m, s).
     if port = PIC_MASTER_COMMAND then (pic_command v m, s)
     else if port = PIC_MASTER_DATA then (pic_data v m, s)
     else if port = PIC_SLAVE_COMMAND then (m, pic_command v s)
     else if port = PIC_SLAVE_DATA then (m, pic_data v s)
     else (m, s))"

lemma pic_write_simps:
  "pic_write (PIC_MASTER_COMMAND, v) (m, s) = (pic_command v m, s)" "pic_write (PIC_MASTER_DATA, v) (m, s) = (pic_data v m, s)"
  "pic_write (PIC_SLAVE_COMMAND, v) (m, s) = (m, pic_command v s)" "pic_write (PIC_SLAVE_DATA, v) (m, s) = (m, pic_data v s)"
  by (simp_all add: pic_write_def)

definition pic_devices :: "pic_device \<times> pic_device \<Rightarrow> pic \<Rightarrow> pic_device \<times> pic_device" where
  "pic_devices d p = fold pic_write (pic_ports p) d"

lemma outb_devices: "pic_devices d (p\<lparr>pic_ports := outb port v log\<rparr>) = pic_write (port, v) (fold pic_write log d)"
  by (simp add: pic_devices_def outb_def)

text \<open>The controllers are set up and their masks are those the driver keeps.\<close>

definition pic_agrees :: "pic_device \<times> pic_device \<Rightarrow> pic \<Rightarrow> bool" where
  "pic_agrees d p = (case pic_devices d p of (m, s) \<Rightarrow>
     phase m = Ready \<and> phase s = Ready \<and> vector_base m = 0x20 \<and> vector_base s = 0x28 \<and> cascade m = 0x04 \<and> cascade s = 0x02 \<and>
     imr m = master_mask p \<and> imr s = slave_mask p)"

lemma pic_init_agrees: "pic_agrees d (pic_init p)"
  by (cases "fold pic_write (pic_ports p) d")
    (simp add: pic_agrees_def pic_devices_def pic_init_def pic_write_masks_def outb_def pic_write_def pic_command_def pic_data_def Let_def bit_simps)

lemma get_mask_bit:
  assumes "n < 16"
  shows "bit (pic_get_mask p) n \<longleftrightarrow> (if n < 8 then bit (master_mask p) n else bit (slave_mask p) (n - 8))"
  using assms by (auto simp: pic_get_mask_def bit_simps dest: bit_imp_le_length)

text \<open>What the driver's calls make of the controllers, and of the set of masked requests.\<close>

datatype pic_op = Set_Mask u8 bool | Send_Eoi u8

fun do_pic :: "pic_op \<Rightarrow> pic \<Rightarrow> pic" where
  "do_pic (Set_Mask irq masked) p = snd (pic_set_mask irq masked p)"
| "do_pic (Send_Eoi irq) p = pic_send_eoi irq p"

fun masked_after :: "pic_op \<Rightarrow> nat set \<Rightarrow> nat set" where
  "masked_after (Set_Mask irq masked) M =
     (if irq \<ge> 16 then M else if masked then insert (unat irq) M else M - {unat irq})"
| "masked_after (Send_Eoi irq) M = M"

lemma irq_range: "irq \<ge> 16 \<longleftrightarrow> \<not> unat irq < 16" "irq < 8 \<longleftrightarrow> unat irq < 8" "irq \<ge> 8 \<longleftrightarrow> \<not> unat irq < 8"
    "unat irq < 16 \<Longrightarrow> \<not> unat irq < 8 \<Longrightarrow> unat (irq - 8) = unat irq - 8" for irq :: u8
  by (auto simp: word_le_nat_alt word_less_nat_alt unat_sub_no_wrap)

lemma do_pic_writes:
  obtains (nothing) "do_pic x p = p"
    | (master) m where "do_pic x p = p\<lparr>master_mask := m, pic_ports := pic_ports p @ [(PIC_MASTER_DATA, m)]\<rparr>"
    | (slave) m where "do_pic x p = p\<lparr>slave_mask := m, pic_ports := pic_ports p @ [(PIC_SLAVE_DATA, m)]\<rparr>"
    | (end_master) "do_pic x p = p\<lparr>pic_ports := pic_ports p @ [(PIC_MASTER_COMMAND, 0x20)]\<rparr>"
    | (end_both) "do_pic x p = p\<lparr>pic_ports := pic_ports p @ [(PIC_SLAVE_COMMAND, 0x20), (PIC_MASTER_COMMAND, 0x20)]\<rparr>"
proof (cases x)
  case (Set_Mask irq masked)
  consider "16 \<le> irq" | "\<not> 16 \<le> irq" "irq < 8" | "\<not> 16 \<le> irq" "\<not> irq < 8" by blast
  then show ?thesis
  proof cases
    case 1
    show ?thesis by (rule nothing) (use 1 in \<open>simp add: Set_Mask pic_set_mask_def\<close>)
  next
    case 2
    show ?thesis
      by (rule master [of "if masked then master_mask p OR push_bit (unat irq) 1 else master_mask p AND NOT (push_bit (unat irq) 1)"])
        (use 2 in \<open>simp add: Set_Mask pic_set_mask_def Let_def outb_def\<close>)
  next
    case 3
    show ?thesis
      by (rule slave [of "if masked then slave_mask p OR push_bit (unat (irq - 8)) 1 else slave_mask p AND NOT (push_bit (unat (irq - 8)) 1)"])
        (use 3 in \<open>simp add: Set_Mask pic_set_mask_def Let_def outb_def\<close>)
  qed
next
  case (Send_Eoi irq)
  consider "16 \<le> irq" | "\<not> 16 \<le> irq" "\<not> 8 \<le> irq" | "\<not> 16 \<le> irq" "8 \<le> irq" by blast
  then show ?thesis
  proof cases
    case 1
    show ?thesis by (rule nothing) (use 1 in \<open>simp add: Send_Eoi pic_send_eoi_def\<close>)
  next
    case 2
    show ?thesis by (rule end_master) (use 2 in \<open>simp add: Send_Eoi pic_send_eoi_def outb_def\<close>)
  next
    case 3
    show ?thesis by (rule end_both) (use 3 in \<open>simp add: Send_Eoi pic_send_eoi_def outb_def\<close>)
  qed
qed

lemma do_pic_agrees:
  assumes "pic_agrees d p"
  shows "pic_agrees d (do_pic x p)"
proof -
  obtain m s where ms: "fold pic_write (pic_ports p) d = (m, s)" by fastforce
  have ag: "phase m = Ready" "phase s = Ready" "vector_base m = 0x20" "vector_base s = 0x28" "cascade m = 0x04" "cascade s = 0x02"
    "imr m = master_mask p" "imr s = slave_mask p"
    using assms by (simp_all add: pic_agrees_def pic_devices_def ms)
  show "pic_agrees d (do_pic x p)"
  proof -
    have q: "pic_agrees d q" if "fold pic_write (pic_ports q) d = (m', s')" "phase m' = Ready" "phase s' = Ready" "vector_base m' = 0x20"
        "vector_base s' = 0x28" "cascade m' = 0x04" "cascade s' = 0x02" "imr m' = master_mask q" "imr s' = slave_mask q" for q m' s'
      using that by (simp add: pic_agrees_def pic_devices_def)
    show ?thesis
    proof (cases rule: do_pic_writes [of x p])
      case nothing
      then show ?thesis using assms by simp
    next
      case (master k)
      show ?thesis unfolding master by (rule q [of _ "m\<lparr>imr := k\<rparr>" s]) (use ag in \<open>simp_all add: ms pic_write_simps pic_data_def\<close>)
    next
      case (slave k)
      show ?thesis unfolding slave by (rule q [of _ m "s\<lparr>imr := k\<rparr>"]) (use ag in \<open>simp_all add: ms pic_write_simps pic_data_def\<close>)
    next
      case end_master
      show ?thesis unfolding end_master by (rule q [of _ "m\<lparr>in_service := end_highest (in_service m)\<rparr>" s])
          (use ag in \<open>simp_all add: ms pic_write_simps pic_command_def bit_simps\<close>)
    next
      case end_both
      show ?thesis unfolding end_both
        by (rule q [of _ "m\<lparr>in_service := end_highest (in_service m)\<rparr>" "s\<lparr>in_service := end_highest (in_service s)\<rparr>"])
          (use ag in \<open>simp_all add: ms pic_write_simps pic_command_def bit_simps\<close>)
    qed
  qed
qed

lemma do_pic_mask:
  assumes "\<forall>n < 16. bit (pic_get_mask p) n \<longleftrightarrow> n \<in> M"
  shows "\<forall>n < 16. bit (pic_get_mask (do_pic x p)) n \<longleftrightarrow> n \<in> masked_after x M"
proof -
  show "\<forall>n < 16. bit (pic_get_mask (do_pic x p)) n \<longleftrightarrow> n \<in> masked_after x M"
  proof (cases x)
    case (Send_Eoi irq)
    then show ?thesis using assms by (simp add: pic_send_eoi_def Let_def pic_get_mask_def)
  next
    case (Set_Mask irq masked)
    show ?thesis
    proof (intro allI impI)
      fix n :: nat assume n: "n < 16"
      have old: "(if n < 8 then bit (master_mask p) n else bit (slave_mask p) (n - 8)) \<longleftrightarrow> n \<in> M"
        using assms n get_mask_bit by simp
      consider "16 \<le> irq" | "unat irq < 8" "irq < 8" "\<not> 16 \<le> irq" | "\<not> unat irq < 8" "unat irq < 16" "\<not> irq < 8" "\<not> 16 \<le> irq"
        using irq_range(1,2) [of irq] by blast
      then show "bit (pic_get_mask (do_pic x p)) n \<longleftrightarrow> n \<in> masked_after x M"
      proof cases
        case 1
        then show ?thesis using assms n by (simp add: Set_Mask pic_set_mask_def)
      next
        case 2
        let ?b = "push_bit (unat irq) 1"
        have m: "master_mask (do_pic x p) = (if masked then master_mask p OR ?b else master_mask p AND NOT ?b)"
          "slave_mask (do_pic x p) = slave_mask p" "masked_after x M = (if masked then insert (unat irq) M else M - {unat irq})"
          using 2 by (simp_all add: Set_Mask pic_set_mask_def Let_def)
        show ?thesis unfolding get_mask_bit [OF n] m using old 2(1) by (cases masked) (simp_all only: if_True if_False bit_set_iff bit_clear_iff, auto)
      next
        case 3
        let ?b = "push_bit (unat irq - 8) 1"
        have m: "slave_mask (do_pic x p) = (if masked then slave_mask p OR ?b else slave_mask p AND NOT ?b)"
          "master_mask (do_pic x p) = master_mask p" "masked_after x M = (if masked then insert (unat irq) M else M - {unat irq})"
          using 3 irq_range(4) [OF 3(2,1)] by (simp_all add: Set_Mask pic_set_mask_def Let_def)
        show ?thesis unfolding get_mask_bit [OF n] m using old 3(1,2) n by (cases masked) (simp_all only: if_True if_False bit_set_iff bit_clear_iff, auto)
      qed
    qed
  qed
qed

section \<open>Properties\<close>

text \<open>
  (C26) The driver's copies of the interrupt masks are true of the controllers: from any state the
  devices were in, after \<open>pic_init\<close> and any sequence of mask changes and ends of interrupt, both
  controllers are out of initialisation with vectors 32 to 47 and the cascade set, their mask
  registers hold the driver's copies, and \<open>pic_get_mask\<close> is exactly the set of requests masked and not
  unmasked since. A mask change fails exactly outside the sixteen requests.
\<close>

lemma pic_masks_agree:
  "let p' = fold do_pic xs (pic_init p) in
     pic_agrees d p' \<and> (\<forall>n < 16. bit (pic_get_mask p') n \<longleftrightarrow> n \<in> fold masked_after xs {0..<16}) \<and>
     (\<forall>irq masked. fst (pic_set_mask irq masked p') \<longleftrightarrow> unat irq < 16)"
proof -
  let ?p = "fold do_pic xs (pic_init p)"
  have run: "pic_agrees d (fold do_pic xs q) \<and> (\<forall>n < 16. bit (pic_get_mask (fold do_pic xs q)) n \<longleftrightarrow> n \<in> fold masked_after xs M)"
    if "pic_agrees d q" "\<forall>n < 16. bit (pic_get_mask q) n \<longleftrightarrow> n \<in> M" for q M
    using that
  proof (induction xs arbitrary: q M)
    case (Cons x xs)
    from Cons.IH [OF do_pic_agrees [OF Cons.prems(1)] do_pic_mask [OF Cons.prems(2)]] show ?case by simp
  qed simp
  have "bit (pic_get_mask (pic_init p)) n" if "n < 16" for n
  proof -
    have m: "(0xFF :: u8) = mask 8" by (simp add: mask_eq_exp_minus_1)
    have "master_mask (pic_init p) = mask 8" "slave_mask (pic_init p) = mask 8"
      unfolding m [symmetric] by (simp_all add: pic_init_def pic_write_masks_def Let_def)
    then show ?thesis using that by (auto simp: get_mask_bit bit_mask_iff)
  qed
  with run [OF pic_init_agrees, of p "{0..<16}"]
  have "pic_agrees d ?p" "\<forall>n < 16. bit (pic_get_mask ?p) n \<longleftrightarrow> n \<in> fold masked_after xs {0..<16}" by auto
  moreover have "fst (pic_set_mask irq masked ?p) \<longleftrightarrow> unat irq < 16" for irq masked
    using irq_range(1) [of irq] by (auto simp: pic_set_mask_def Let_def)
  ultimately show ?thesis by (simp add: Let_def)
qed

theorem pic_masks_agree_witness:
  "\<not> bit (pic_get_mask (fold do_pic [Set_Mask 0 False, Set_Mask 1 False, Send_Eoi 0, Set_Mask 99 True]
      (pic_init \<lparr>master_mask = 0, slave_mask = 0, pic_ports = []\<rparr>))) 1"
proof -
  let ?xs = "[Set_Mask 0 False, Set_Mask 1 False, Send_Eoi 0, Set_Mask 99 True]"
  have "bit (pic_get_mask (fold do_pic ?xs (pic_init \<lparr>master_mask = 0, slave_mask = 0, pic_ports = []\<rparr>))) n \<longleftrightarrow>
      n \<in> fold masked_after ?xs {0..<16}" if "n < 16" for n
    using pic_masks_agree [of ?xs "\<lparr>master_mask = 0, slave_mask = 0, pic_ports = []\<rparr>"] that unfolding Let_def by blast
  from this [of 1] have "bit (pic_get_mask (fold do_pic ?xs (pic_init \<lparr>master_mask = 0, slave_mask = 0, pic_ports = []\<rparr>))) 1 \<longleftrightarrow>
      1 \<in> fold masked_after ?xs {0..<16}" by simp
  moreover have "1 \<notin> fold masked_after ?xs {0..<16}" by (simp add: word_le_nat_alt)
  ultimately show ?thesis by blast
qed

text \<open>
  (C27) \<open>pit_configure\<close> succeeds exactly for 19 to 1193182 Hz. It then loads the timer with the
  16-bit divisor, low byte first, records the frequency that the divisor gives, which is at least
  the requested one, and restarts the tick count; otherwise it changes nothing.
\<close>

lemma pit_configure_exact:
  "pit_configure hz p =
     (if 19 \<le> unat hz \<and> unat hz \<le> 1193182
      then (True, p\<lparr>tick_count := 0, configured_frequency_hz := of_nat (1193182 div (1193182 div unat hz)),
        pit_ports := pit_ports p @ [(0x43, 0x36), (0x40, of_nat (1193182 div unat hz mod 256)), (0x40, of_nat (1193182 div unat hz div 256))]\<rparr>)
      else (False, p)) \<and>
   (19 \<le> unat hz \<and> unat hz \<le> 1193182 \<longrightarrow> unat hz \<le> 1193182 div (1193182 div unat hz) \<and>
      unat (pit_frequency_hz (snd (pit_configure hz p))) = 1193182 div (1193182 div unat hz) \<and> pit_ticks (snd (pit_configure hz p)) = 0)"
proof -
  let ?h = "unat hz" and ?d = "1193182 div unat hz"
  have d: "unat (PIT_INPUT_HZ div hz) = ?d" by (simp add: unat_div_distrib)
  have big: "PIT_MAX_DIVISOR < PIT_INPUT_HZ div hz \<longleftrightarrow> 65536 \<le> ?d" using d by (simp add: word_less_nat_alt) linarith
  have none: "PIT_INPUT_HZ div hz = 0 \<longleftrightarrow> ?d = 0" using d by (simp add: word_unat_eq_iff)
  have range: "hz \<noteq> 0 \<and> ?d \<noteq> 0 \<and> \<not> 65536 \<le> ?d \<longleftrightarrow> 19 \<le> ?h \<and> ?h \<le> 1193182"
  proof (cases "?h = 0")
    case False
    then have "65536 \<le> ?d \<longleftrightarrow> 65536 * ?h \<le> 1193182" by (simp add: less_eq_div_iff_mult_less_eq)
    moreover have "?d = 0 \<longleftrightarrow> 1193182 < ?h" using False by (simp add: div_eq_0_iff)
    ultimately show ?thesis using False by (auto simp: word_unat_eq_iff)
  qed (simp add: word_unat_eq_iff)
  have small: "?d < 65536" if "19 \<le> ?h" "?h \<le> 1193182" using range that by simp
  have hz: "unat (PIT_INPUT_HZ div (PIT_INPUT_HZ div hz)) = 1193182 div ?d" by (simp add: unat_div_distrib)
  have bytes: "ucast ((PIT_INPUT_HZ div hz) AND 0xFF) = (of_nat (?d mod 256) :: u8)"
    "ucast (drop_bit 8 (PIT_INPUT_HZ div hz) AND 0xFF) = (of_nat (?d div 256) :: u8)" if "?d < 65536"
  proof -
    have m: "(0xFF :: u32) = mask 8" by (simp add: mask_eq_exp_minus_1)
    have "unat ((PIT_INPUT_HZ div hz) AND 0xFF) = ?d mod 2 ^ 8" "unat (drop_bit 8 (PIT_INPUT_HZ div hz) AND 0xFF) = ?d div 2 ^ 8 mod 2 ^ 8"
      unfolding m unat_and_mask unat_drop_bit d by simp_all
    moreover have "?d div 256 < 256" using that by simp
    ultimately show "ucast ((PIT_INPUT_HZ div hz) AND 0xFF) = (of_nat (?d mod 256) :: u8)"
      "ucast (drop_bit 8 (PIT_INPUT_HZ div hz) AND 0xFF) = (of_nat (?d div 256) :: u8)"
      by (simp_all add: word_unat_eq_iff unat_ucast_small unat_word_of_nat_small)
  qed
  have freq: "of_nat (1193182 div ?d) = PIT_INPUT_HZ div (PIT_INPUT_HZ div hz)" unfolding hz [symmetric] by simp
  have "pit_configure hz p = (if 19 \<le> ?h \<and> ?h \<le> 1193182
      then (True, p\<lparr>tick_count := 0, configured_frequency_hz := of_nat (1193182 div ?d),
        pit_ports := pit_ports p @ [(0x43, 0x36), (0x40, of_nat (?d mod 256)), (0x40, of_nat (?d div 256))]\<rparr>)
      else (False, p))"
  proof (cases "19 \<le> ?h \<and> ?h \<le> 1193182")
    case True
    then have c: "hz \<noteq> 0" "\<not> (PIT_INPUT_HZ div hz = 0 \<or> PIT_MAX_DIVISOR < PIT_INPUT_HZ div hz)" using range none big by auto
    show ?thesis using True bytes [OF small] unfolding pit_configure_def Let_def if_not_P [OF c(1)] if_not_P [OF c(2)] freq
      by (simp add: outb_def)
  next
    case False
    then show ?thesis using range none big by (auto simp: pit_configure_def Let_def)
  qed
  moreover have "?h \<le> 1193182 div ?d" if "19 \<le> ?h" "?h \<le> 1193182"
    using that range by (simp add: less_eq_div_iff_mult_less_eq)
  ultimately show ?thesis by (auto simp: pit_frequency_hz_def pit_ticks_def freq hz)
qed

theorem pit_configure_exact_witness:
  "pit_frequency_hz (snd (pit_configure 100 \<lparr>tick_count = 5, configured_frequency_hz = 0, pit_ports = []\<rparr>)) = 100 \<and>
   \<not> fst (pit_configure 18 \<lparr>tick_count = 5, configured_frequency_hz = 0, pit_ports = []\<rparr>)"
proof -
  have "unat (pit_frequency_hz (snd (pit_configure 100 \<lparr>tick_count = 5, configured_frequency_hz = 0, pit_ports = []\<rparr>))) = 1193182 div (1193182 div 100)"
    using conjunct2 [OF pit_configure_exact [of 100 "\<lparr>tick_count = 5, configured_frequency_hz = 0, pit_ports = []\<rparr>"]] by simp
  moreover have "\<not> fst (pit_configure 18 \<lparr>tick_count = 5, configured_frequency_hz = 0, pit_ports = []\<rparr>)"
    using conjunct1 [OF pit_configure_exact [of 18 "\<lparr>tick_count = 5, configured_frequency_hz = 0, pit_ports = []\<rparr>"]] by simp
  ultimately show ?thesis by (simp add: word_unat_eq_iff)
qed

section \<open>Set-up and dispatch\<close>

definition irq_sizes :: "'w irq_system \<Rightarrow> bool" where
  "irq_sizes q \<longleftrightarrow> length (handlers q) = IRQ_COUNT \<and> length (counts q) = IRQ_COUNT"

lemma irq_init_fields:
  assumes "irq_sizes q"
  shows "handlers (irq_init stubs q) = replicate 16 None" "counts (irq_init stubs q) = replicate 16 0"
    "irq_pic (irq_init stubs q) = pic_init (irq_pic q)"
    "irq_idt (irq_init stubs q) = fold (\<lambda>i. idt_set_gate (of_nat (32 + i)) (stubs ! i) GDT_KERNEL_CODE_SELECTOR INTERRUPT_GATE) [0..<16] (irq_idt q)"
proof -
  let ?f = "\<lambda>irq q. q\<lparr>handlers := (handlers q)[irq := None], counts := (counts q)[irq := 0],
         irq_idt := idt_set_gate (ucast (IRQ_VECTOR_BASE + of_nat irq)) (stubs ! irq) GDT_KERNEL_CODE_SELECTOR INTERRUPT_GATE (irq_idt q)\<rparr>"
  have v: "(ucast (IRQ_VECTOR_BASE + of_nat i) :: u8) = of_nat (32 + i)" for i
  proof -
    have "ucast (of_nat (32 + i) :: u32) = (of_nat (32 + i) :: u8)"
      by (simp add: word_unat_eq_iff unat_of_nat unsigned_ucast_eq take_bit_eq_mod mod_mod_cancel del: of_nat_add)
    then show ?thesis by simp
  qed
  have h: "handlers (fold ?f xs q) = fold (\<lambda>i hs. hs[i := None]) xs (handlers q)" for xs q by (induction xs arbitrary: q) simp_all
  have c: "counts (fold ?f xs q) = fold (\<lambda>i cs. cs[i := 0]) xs (counts q)" for xs q by (induction xs arbitrary: q) simp_all
  have p: "irq_pic (fold ?f xs q) = irq_pic q" for xs q by (induction xs arbitrary: q) simp_all
  have t: "irq_idt (fold ?f xs q) = fold (\<lambda>i. idt_set_gate (of_nat (32 + i)) (stubs ! i) GDT_KERNEL_CODE_SELECTOR INTERRUPT_GATE) xs (irq_idt q)" for xs q
    by (induction xs arbitrary: q) (simp_all add: v del: of_nat_add)
  have fill: "fold (\<lambda>i xs. xs[i := x]) [0..<16] ys = replicate 16 x" if "length ys = 16" for x :: 'z and ys
    using that by (subst fold_fill_upt) (auto simp: map_replicate_const simp del: upt_rec_numeral)
  show "handlers (irq_init stubs q) = replicate 16 None" "counts (irq_init stubs q) = replicate 16 0"
    "irq_pic (irq_init stubs q) = pic_init (irq_pic q)"
    "irq_idt (irq_init stubs q) = fold (\<lambda>i. idt_set_gate (of_nat (32 + i)) (stubs ! i) GDT_KERNEL_CODE_SELECTOR INTERRUPT_GATE) [0..<16] (irq_idt q)"
    unfolding irq_init_def h c p t using assms by (simp_all add: fill irq_sizes_def del: upt_rec_numeral replicate.simps of_nat_add)
qed

text \<open>The writes that end an interrupt.\<close>

definition eoi_writes :: "u8 \<Rightarrow> port_write list" where
  "eoi_writes irq = (if unat irq < 8 then [(0x20, 0x20)] else if unat irq < 16 then [(0xA0, 0x20), (0x20, 0x20)] else [])"

lemma send_eoi_ports: "pic_send_eoi irq p = p\<lparr>pic_ports := pic_ports p @ eoi_writes irq\<rparr>"
  by (cases "unat irq < 8"; cases "unat irq < 16") (simp_all add: pic_send_eoi_def eoi_writes_def irq_range outb_def)

lemma irq_count_nth: "irq_count n q = (if unat n < 16 then counts q ! unat n else 0)"
  by (simp add: irq_count_def irq_range)

lemma dispatch_step:
  assumes "irq_sizes q"
  shows "irq_dispatch irq (q, w) = (q\<lparr>counts := (if unat irq < 16 then (counts q)[unat irq := counts q ! unat irq + 1] else counts q),
       irq_pic := (irq_pic q)\<lparr>pic_ports := pic_ports (irq_pic q) @ eoi_writes irq\<rparr>\<rparr>,
     if unat irq < 16 then (case handlers q ! unat irq of None \<Rightarrow> w | Some handler \<Rightarrow> handler w) else w)"
  by (cases "unat irq < 16") (simp_all add: irq_dispatch_def irq_range send_eoi_ports Let_def eoi_writes_def)

text \<open>
  (C28) After \<open>idt_init\<close> and \<open>irq_init\<close> the vectors the processor can deliver are exactly the 32
  exceptions and the 16 requests: each has an interrupt gate of privilege 0 to its own stub in the
  kernel's code segment, and every other gate is absent. No handler is installed, every count is
  zero, and the first handler for a request, and no second one, can be registered.
\<close>

lemma interrupt_gates_exact:
  assumes "length (idt t) = IDT_ENTRY_COUNT" "length isr_stub_table = CPU_EXCEPTION_COUNT" "irq_sizes q" "length irq_stub_table = IRQ_COUNT"
    and "irq_idt q = idt_init isr_stub_table idt_address t"
  shows "let q' = irq_init irq_stub_table q in
    loaded_idtr (irq_idt q') = \<lparr>table_limit = 2047, table_base = idt_address\<rparr> \<and> length (idt (irq_idt q')) = 256 \<and>
    (\<forall>v < 256. let e = idt (irq_idt q') ! v in gate_present e = (v < 48) \<and>
      (v < 48 \<longrightarrow> gate_offset e = (if v < 32 then isr_stub_table ! v else irq_stub_table ! (v - 32)) \<and> gate_selector e = GDT_KERNEL_CODE_SELECTOR \<and>
        type_attributes e = 0x8E)) \<and>
    (\<forall>irq. irq_count irq q' = 0) \<and>
    (\<forall>irq f. (case irq_register_handler irq (Some f) q' of (ok, q1) \<Rightarrow> ok = (unat irq < 16) \<and>
      (\<forall>g. \<not> fst (irq_register_handler irq g q1)) \<and> (ok \<longrightarrow> snd (irq_unregister_handler irq q1) = q')))"
proof -
  let ?q = "irq_init irq_stub_table q"
  note init = idt_init_eq [OF assms(1,2), of idt_address]
  have "irq_idt ?q = (irq_idt q)\<lparr>idt := map (\<lambda>v. if 32 \<le> v \<and> v < 32 + 16 then make_gate (irq_stub_table ! (v - 32)) GDT_KERNEL_CODE_SELECTOR INTERRUPT_GATE
      else idt (irq_idt q) ! v) [0..<256]\<rparr>"
    unfolding irq_init_fields(4) [OF assms(3)] by (rule fold_set_gates) (simp_all add: assms(5) init(3))
  then have gates: "loaded_idtr (irq_idt ?q) = \<lparr>table_limit = 2047, table_base = idt_address\<rparr>" "length (idt (irq_idt ?q)) = 256"
    "\<And>v. v < 256 \<Longrightarrow> idt (irq_idt ?q) ! v = (if v < 32 then make_gate (isr_stub_table ! v) GDT_KERNEL_CODE_SELECTOR INTERRUPT_GATE
       else if v < 48 then make_gate (irq_stub_table ! (v - 32)) GDT_KERNEL_CODE_SELECTOR INTERRUPT_GATE else make_gate 0 0 0)"
    using init by (simp_all add: assms(5) del: upt_rec_numeral)
  have "gate_present (make_gate h sel 0x8E)" "\<not> gate_present (make_gate h sel 0)" for h sel by (simp_all add: gate_present_def)
  then have "\<forall>v < 256. let e = idt (irq_idt ?q) ! v in gate_present e = (v < 48) \<and>
      (v < 48 \<longrightarrow> gate_offset e = (if v < 32 then isr_stub_table ! v else irq_stub_table ! (v - 32)) \<and> gate_selector e = GDT_KERNEL_CODE_SELECTOR \<and>
        type_attributes e = 0x8E)"
    by (auto simp: gates(3) Let_def)
  moreover have "irq_count irq ?q = 0" for irq
    by (simp add: irq_count_nth irq_init_fields(2) [OF assms(3)] del: replicate.simps)
  moreover have "case irq_register_handler irq (Some f) ?q of (ok, q1) \<Rightarrow> ok = (unat irq < 16) \<and>
      (\<forall>g. \<not> fst (irq_register_handler irq g q1)) \<and> (ok \<longrightarrow> snd (irq_unregister_handler irq q1) = ?q)" for irq f
  proof (cases "unat irq < 16")
    case True
    have "(handlers ?q)[unat irq := None] = handlers ?q"
      unfolding irq_init_fields(1) [OF assms(3)] using True by (metis list_update_id nth_replicate)
    then have "?q\<lparr>handlers := (handlers ?q)[unat irq := None]\<rparr> = ?q" by simp
    then have "?q\<lparr>handlers := (replicate 16 None)[unat irq := None]\<rparr> = ?q" unfolding irq_init_fields(1) [OF assms(3)] .
    then show ?thesis using True
      by (simp add: irq_register_handler_def irq_unregister_handler_def irq_range(1) irq_init_fields(1) [OF assms(3)] split: option.split
          del: replicate.simps)
  next
    case False
    then show ?thesis by (simp add: irq_register_handler_def irq_range(1))
  qed
  ultimately show ?thesis using gates(1,2) by (simp add: Let_def)
qed

theorem interrupt_gates_exact_witness:
  fixes t :: interrupt_table and q :: "nat irq_system"
  defines "t \<equiv> \<lparr>idt = replicate 256 (make_gate 1 2 3), idtr = \<lparr>table_limit = 0, table_base = 0\<rparr>, loaded_idtr = \<lparr>table_limit = 0, table_base = 0\<rparr>\<rparr>"
    and "q \<equiv> \<lparr>handlers = replicate 16 (Some Suc), counts = replicate 16 7, irq_pic = \<lparr>master_mask = 0, slave_mask = 0, pic_ports = []\<rparr>,
      irq_idt = idt_init (replicate 32 0x1000) 0x8000 t\<rparr>"
  shows "gate_offset (idt (irq_idt (irq_init (replicate 16 0x2000) q)) ! 33) = 0x2000"
proof -
  have "let e = idt (irq_idt (irq_init (replicate 16 0x2000) q)) ! 33 in gate_present e = (33 < (48 :: nat)) \<and>
      (33 < (48 :: nat) \<longrightarrow> gate_offset e = (if 33 < (32 :: nat) then replicate 32 0x1000 ! 33 else replicate 16 0x2000 ! (33 - 32)) \<and>
        gate_selector e = GDT_KERNEL_CODE_SELECTOR \<and> type_attributes e = 0x8E)"
    using interrupt_gates_exact [of t "replicate 32 0x1000" q "replicate 16 0x2000" "0x8000"] unfolding Let_def
    by (simp add: t_def q_def irq_sizes_def del: replicate.simps)
  then show ?thesis by (simp add: Let_def nth_replicate del: replicate.simps)
qed

text \<open>
  (C25) Every interrupt request is counted and handled exactly once, in order: a sequence of
  dispatches runs exactly the handlers registered for them, in that order, adds the number of its
  dispatches to each request's count and to no other, leaves the handlers alone, and ends each
  interrupt at the controllers concerned. When the request is the one of highest priority in service
  there, its end takes exactly that one out of service. Numbers past the last request do nothing.
\<close>

lemma irq_dispatch_exact:
  assumes "irq_sizes q"
  shows "(case fold irq_dispatch irqs (q, w) of (q', w') \<Rightarrow>
      w' = fold (\<lambda>irq w. if unat irq < 16 then (case handlers q ! unat irq of None \<Rightarrow> w | Some handler \<Rightarrow> handler w) else w) irqs w \<and>
      (\<forall>n. unat n < 16 \<longrightarrow> irq_count n q' = irq_count n q + of_nat (count_list irqs n)) \<and> handlers q' = handlers q \<and>
      pic_ports (irq_pic q') = pic_ports (irq_pic q) @ concat (map eoi_writes irqs) \<and> pic_get_mask (irq_pic q') = pic_get_mask (irq_pic q)) \<and>
    (case (pic_devices d (irq_pic q), pic_devices d (irq_pic (fst (irq_dispatch irq (q, w))))) of ((m, s), (m', s')) \<Rightarrow>
      (unat irq < 8 \<and> in_service m \<noteq> {} \<and> Min (in_service m) = unat irq \<longrightarrow> in_service m' = in_service m - {unat irq} \<and> s' = s) \<and>
      (8 \<le> unat irq \<and> unat irq < 16 \<and> in_service s \<noteq> {} \<and> Min (in_service s) = unat irq - 8 \<and> in_service m \<noteq> {} \<and> Min (in_service m) = 2 \<longrightarrow>
        in_service s' = in_service s - {unat irq - 8} \<and> in_service m' = in_service m - {2}))"
proof
  show "case fold irq_dispatch irqs (q, w) of (q', w') \<Rightarrow>
      w' = fold (\<lambda>irq w. if unat irq < 16 then (case handlers q ! unat irq of None \<Rightarrow> w | Some handler \<Rightarrow> handler w) else w) irqs w \<and>
      (\<forall>n. unat n < 16 \<longrightarrow> irq_count n q' = irq_count n q + of_nat (count_list irqs n)) \<and> handlers q' = handlers q \<and>
      pic_ports (irq_pic q') = pic_ports (irq_pic q) @ concat (map eoi_writes irqs) \<and> pic_get_mask (irq_pic q') = pic_get_mask (irq_pic q)"
    using assms
  proof (induction irqs arbitrary: q w)
    case (Cons irq irqs)
    obtain q1 w1 where s1: "irq_dispatch irq (q, w) = (q1, w1)" by fastforce
    note st = dispatch_step [OF Cons.prems, of irq w, unfolded s1, simplified prod.inject]
    have q1: "irq_sizes q1" "handlers q1 = handlers q" "pic_ports (irq_pic q1) = pic_ports (irq_pic q) @ eoi_writes irq"
        "pic_get_mask (irq_pic q1) = pic_get_mask (irq_pic q)"
      using Cons.prems st by (auto simp: irq_sizes_def pic_get_mask_def)
    have c: "irq_count n q1 = irq_count n q + (if n = irq then 1 else 0)" if "unat n < 16" for n
      using st Cons.prems that by (cases "n = irq") (auto simp: irq_count_nth irq_sizes_def nth_list_update word_unat_eq_iff)
    obtain q2 w2 where s2: "fold irq_dispatch irqs (q1, w1) = (q2, w2)" by fastforce
    have w1: "(if unat irq < 16 then (case handlers q ! unat irq of None \<Rightarrow> w | Some handler \<Rightarrow> handler w) else w) = w1" using st by simp
    note ih = Cons.IH [OF q1(1), of w1, unfolded s2 prod.case q1(2-4)]
    show ?case unfolding fold_simps s1 s2 prod.case w1 using ih c by auto
  qed simp
  obtain m s where ms: "fold pic_write (pic_ports (irq_pic q)) d = (m, s)" by fastforce
  show "case (pic_devices d (irq_pic q), pic_devices d (irq_pic (fst (irq_dispatch irq (q, w))))) of ((m, s), (m', s')) \<Rightarrow>
      (unat irq < 8 \<and> in_service m \<noteq> {} \<and> Min (in_service m) = unat irq \<longrightarrow> in_service m' = in_service m - {unat irq} \<and> s' = s) \<and>
      (8 \<le> unat irq \<and> unat irq < 16 \<and> in_service s \<noteq> {} \<and> Min (in_service s) = unat irq - 8 \<and> in_service m \<noteq> {} \<and> Min (in_service m) = 2 \<longrightarrow>
        in_service s' = in_service s - {unat irq - 8} \<and> in_service m' = in_service m - {2})"
    using assms by (simp add: dispatch_step pic_devices_def ms eoi_writes_def pic_write_simps pic_command_def end_highest_def bit_simps)
qed

theorem irq_dispatch_exact_witness:
  fixes q :: "nat irq_system"
  defines "q \<equiv> \<lparr>handlers = (replicate 16 None)[0 := Some Suc], counts = replicate 16 0, irq_pic = \<lparr>master_mask = 0, slave_mask = 0, pic_ports = []\<rparr>,
      irq_idt = \<lparr>idt = [], idtr = \<lparr>table_limit = 0, table_base = 0\<rparr>, loaded_idtr = \<lparr>table_limit = 0, table_base = 0\<rparr>\<rparr>\<rparr>"
  shows "snd (fold irq_dispatch [0, 1, 0, 200] (q, 5)) = 7 \<and> irq_count 0 (fst (fold irq_dispatch [0, 1, 0, 200] (q, 5))) = 2"
proof -
  have "irq_sizes q" by (simp add: q_def irq_sizes_def)
  note ex = conjunct1 [OF irq_dispatch_exact [OF this, of "[0, 1, 0, 200]" 5]]
  obtain q' w' where r: "fold irq_dispatch [0, 1, 0, 200] (q, 5) = (q', w')" by fastforce
  have "handlers q ! 0 = Some Suc" "handlers q ! Suc 0 = None" by (simp_all add: q_def)
  then have "w' = 7" using ex unfolding r prod.case by simp
  moreover have "irq_count 0 q' = irq_count 0 q + of_nat (count_list [0, 1, 0, 200] (0 :: u8))" using ex unfolding r prod.case by simp
  ultimately have "w' = 7" "irq_count 0 q' = 2" by (simp_all add: q_def irq_count_nth)
  then show ?thesis unfolding r by simp
qed

end
