(* ===== verification/Interrupt.thy ===== *)
theory Interrupt
  imports Console Irq Byte_Memory
begin

text \<open>
  Interrupts from the stub to the handler and back: the stubs and the common entry of
  \<open>boot/isr_stubs.S\<close> and \<open>boot/irq_stubs.S\<close>, \<open>interrupt_dispatch\<close> of \<open>kernel/arch/x86/interrupt.c\<close>
  and the page fault report of \<open>kernel/arch/x86/paging.c\<close>. What the processor pushes before a
  stub runs and pops in \<open>iret\<close> is written out for an interrupt that does not change privilege. The
  address the processor faulted on, the return address of the call and the contents of local arrays
  before they are filled are arguments.
\<close>

section \<open>Frames\<close>

record interrupt_frame =
  frame_edi :: u32
  frame_esi :: u32
  frame_ebp :: u32
  frame_saved_esp :: u32
  frame_ebx :: u32
  frame_edx :: u32
  frame_ecx :: u32
  frame_eax :: u32
  frame_vector :: u32
  frame_error_code :: u32
  frame_eip :: u32
  frame_cs :: u32
  frame_eflags :: u32

definition frame_at :: "memory \<Rightarrow> u32 \<Rightarrow> interrupt_frame" where
  "frame_at m a = \<lparr>frame_edi = load32 m a, frame_esi = load32 m (a + 4), frame_ebp = load32 m (a + 8), frame_saved_esp = load32 m (a + 12),
     frame_ebx = load32 m (a + 16), frame_edx = load32 m (a + 20), frame_ecx = load32 m (a + 24), frame_eax = load32 m (a + 28),
     frame_vector = load32 m (a + 32), frame_error_code = load32 m (a + 36), frame_eip = load32 m (a + 40), frame_cs = load32 m (a + 44),
     frame_eflags = load32 m (a + 48)\<rparr>"

record machine =
  ram :: memory
  m_eax :: u32
  m_ecx :: u32
  m_edx :: u32
  m_ebx :: u32
  m_esp :: u32
  m_ebp :: u32
  m_esi :: u32
  m_edi :: u32
  m_eip :: u32
  m_cs :: u32
  m_eflags :: u32

definition push_words :: "u32 list \<Rightarrow> machine \<Rightarrow> machine" where
  "push_words ws c = (case fold push32 ws (m_esp c, ram c) of (sp, m) \<Rightarrow> c\<lparr>m_esp := sp, ram := m\<rparr>)"

section \<open>Entry and exit\<close>

text \<open>The exceptions whose stub finds an error code that the processor has pushed.\<close>

definition isr_with_error :: "nat \<Rightarrow> bool" where
  "isr_with_error number \<longleftrightarrow> number \<in> {8, 10, 11, 12, 13, 14, 17, 21, 29, 30}"

definition isr_stub :: "nat \<Rightarrow> machine \<Rightarrow> machine" where
  "isr_stub number c = (if isr_with_error number then push_words [of_nat number] c else push_words [0, of_nat number] c)"

definition irq_stub :: "nat \<Rightarrow> machine \<Rightarrow> machine" where
  "irq_stub number c = push_words [0, of_nat (32 + number)] c"

definition interrupt_common_entry :: "u32 \<Rightarrow> machine \<Rightarrow> machine" where
  "interrupt_common_entry return_address c =
     (let c = push_words [m_eax c, m_ecx c, m_edx c, m_ebx c, m_esp c, m_ebp c, m_esi c, m_edi c] c;
          c = c\<lparr>m_eflags := m_eflags c AND NOT 0x400\<rparr>;
          c = c\<lparr>m_ebx := m_esp c\<rparr>;
          c = c\<lparr>m_esp := m_esp c AND NOT 0xF\<rparr>;
          c = c\<lparr>m_esp := m_esp c - 12\<rparr>;
          c = push_words [m_ebx c] c
      in push_words [return_address] c)"

definition interrupt_common_exit :: "machine \<Rightarrow> machine" where
  "interrupt_common_exit c =
     (let sp = m_ebx c; m = ram c;
          (edi, sp) = pop32 m sp;
          (esi, sp) = pop32 m sp;
          (ebp, sp) = pop32 m sp;
          (skipped, sp) = pop32 m sp;
          (ebx, sp) = pop32 m sp;
          (edx, sp) = pop32 m sp;
          (ecx, sp) = pop32 m sp;
          (eax, sp) = pop32 m sp;
          sp = sp + 8;
          (eip, sp) = pop32 m sp;
          (cs, sp) = pop32 m sp;
          (flags, sp) = pop32 m sp
      in c\<lparr>m_eax := eax, m_ecx := ecx, m_edx := edx, m_ebx := ebx, m_esp := sp, m_ebp := ebp, m_esi := esi, m_edi := edi,
           m_eip := eip, m_cs := cs, m_eflags := flags\<rparr>)"

section \<open>Dispatch\<close>

text \<open>Whether the interrupted code goes on.\<close>

datatype 's dispatched = Resume 's | Halted 's

text \<open>\<open>locals\<close> gives what the local array of each decimal print holds before it is filled.\<close>

definition paging_handle_page_fault :: "(nat \<Rightarrow> u8) \<Rightarrow> (nat \<Rightarrow> char list) \<Rightarrow> u32 \<Rightarrow> interrupt_frame \<Rightarrow> console \<Rightarrow> console option" where
  "paging_handle_page_fault lsr locals paging_fault_address frame s =
     (let error = frame_error_code frame in do {
        s \<leftarrow> console_write lsr (Some ''PAGE_FAULT address='') s;
        s \<leftarrow> console_write_u32_hex lsr paging_fault_address s;
        s \<leftarrow> console_write lsr (Some '' error='') s;
        s \<leftarrow> console_write_u32_hex lsr error s;
        s \<leftarrow> console_write lsr (Some '' present='') s;
        s \<leftarrow> console_write_u32_dec lsr (locals 0) (error AND 1) s;
        s \<leftarrow> console_write lsr (Some '' write='') s;
        s \<leftarrow> console_write_u32_dec lsr (locals 1) (drop_bit 1 error AND 1) s;
        s \<leftarrow> console_write lsr (Some '' user='') s;
        s \<leftarrow> console_write_u32_dec lsr (locals 2) (drop_bit 2 error AND 1) s;
        console_putc lsr (CHR 0x0A) s
      })"

definition interrupt_dispatch :: "(nat \<Rightarrow> u8) \<Rightarrow> (nat \<Rightarrow> char list) \<Rightarrow> u32 \<Rightarrow> interrupt_frame \<Rightarrow> console \<times> 'w irq_system \<times> 'w \<Rightarrow>
    (console \<times> 'w irq_system \<times> 'w) dispatched option" where
  "interrupt_dispatch lsr locals fault_address frame = (\<lambda>(s, q, w).
     if frame_vector frame \<ge> 32 \<and> frame_vector frame < 48 then
       Some (Resume (s, irq_dispatch (ucast (frame_vector frame - 32)) (q, w)))
     else if frame_vector frame = 14 then
       do { s \<leftarrow> paging_handle_page_fault lsr locals fault_address frame s; Some (Halted (s, q, w)) }
     else do {
       s \<leftarrow> console_write lsr (Some ''EXCEPTION vector='') s;
       s \<leftarrow> console_write_u32_dec lsr (locals 0) (frame_vector frame) s;
       s \<leftarrow> console_putc lsr (CHR 0x0A) s;
       if frame_vector frame = 3 then Some (Resume (s, q, w)) else Some (Halted (s, q, w))
     })"

section \<open>What the processor does\<close>

text \<open>
  The words pushed on delivery through an interrupt gate, which also clears the interrupt and trap flags, and the exceptions that come with an error code: double fault,
  invalid TSS, segment not present, stack fault, general protection, page fault, alignment check,
  control protection, VMM communication and security exception.
\<close>

definition cpu_deliver :: "u32 option \<Rightarrow> machine \<Rightarrow> machine" where
  "cpu_deliver error c = (push_words ([m_eflags c, m_cs c, m_eip c] @ (case error of None \<Rightarrow> [] | Some e \<Rightarrow> [e])) c)
     \<lparr>m_eflags := m_eflags c AND NOT 0x300\<rparr>"

definition cpu_error_vectors :: "nat set" where
  "cpu_error_vectors = {8, 10, 11, 12, 13, 14, 17, 21, 29, 30}"

text \<open>The machine on entry to \<open>interrupt_dispatch\<close>, and the frame its argument points to.\<close>

definition entered :: "u32 \<Rightarrow> nat \<Rightarrow> u32 \<Rightarrow> machine \<Rightarrow> machine" where
  "entered return_address vector error c =
     interrupt_common_entry return_address
       (if vector < 32 then isr_stub vector (cpu_deliver (if vector \<in> cpu_error_vectors then Some error else None) c)
        else irq_stub (vector - 32) (cpu_deliver None c))"

lemma push_words_append: "push_words (xs @ ys) c = push_words ys (push_words xs c)"
  by (simp add: push_words_def case_prod_beta)

lemma push_words_flags: "push_words xs (c\<lparr>m_eflags := f\<rparr>) = (push_words xs c)\<lparr>m_eflags := f\<rparr>"
  by (simp add: push_words_def case_prod_beta)

lemma push_words_frame [simp]:
  "m_eax (push_words xs c) = m_eax c" "m_ecx (push_words xs c) = m_ecx c" "m_edx (push_words xs c) = m_edx c" "m_ebx (push_words xs c) = m_ebx c"
  "m_ebp (push_words xs c) = m_ebp c" "m_esi (push_words xs c) = m_esi c" "m_edi (push_words xs c) = m_edi c" "m_eip (push_words xs c) = m_eip c"
  "m_cs (push_words xs c) = m_cs c" "m_eflags (push_words xs c) = m_eflags c"
  by (simp_all add: push_words_def case_prod_beta)

lemma push_words_esp: "m_esp (push_words ws c) = m_esp c - 4 * of_nat (length ws)"
proof -
  have "fst (fold push32 ws (sp, m)) = sp - 4 * of_nat (length ws)" for sp m
  proof (induction ws arbitrary: sp m)
    case (Cons w ws)
    have "push32 w (sp, m) = (sp - 4, store32 m (sp - 4) w)" by (simp add: push32_def)
    then show ?case by (simp add: Cons.IH)
  qed simp
  then show ?thesis by (simp add: push_words_def case_prod_beta)
qed

lemma push_words_spec:
  assumes "4 * length ws \<le> unat (m_esp c)"
  obtains m where "push_words ws c = c\<lparr>m_esp := m_esp c - 4 * of_nat (length ws), ram := m\<rparr>"
    "\<And>i. i < length ws \<Longrightarrow> load32 m (m_esp c - 4 * of_nat (i + 1)) = ws ! i"
    "\<And>z. z < 4294967296 \<Longrightarrow> z < unat (m_esp c) - 4 * length ws \<or> unat (m_esp c) \<le> z \<Longrightarrow> m (of_nat z) = ram c (of_nat z)"
proof -
  let ?x = "unat (m_esp c)"
  have "?x \<le> 4294967295" using unat_less_width(3) [of "m_esp c"] by simp
  from push_all [OF assms this, of "ram c"] obtain m where m: "fold push32 ws (of_nat ?x, ram c) = (of_nat (?x - 4 * length ws), m)"
    "\<And>i. i < length ws \<Longrightarrow> load32 m (of_nat (?x - 4 * (i + 1))) = ws ! i"
    "\<And>z. z < 4294967296 \<Longrightarrow> z < ?x - 4 * length ws \<or> ?x \<le> z \<Longrightarrow> m (of_nat z) = ram c (of_nat z)"
    by blast
  have sp: "(of_nat (?x - 4 * k) :: u32) = m_esp c - 4 * of_nat k" if "k \<le> length ws" for k
    using assms that by (simp add: of_nat_diff)
  show ?thesis
  proof (rule that [of m])
    show "push_words ws c = c\<lparr>m_esp := m_esp c - 4 * of_nat (length ws), ram := m\<rparr>"
      using m(1) sp [of "length ws"] by (simp add: push_words_def)
    show "load32 m (m_esp c - 4 * of_nat (i + 1)) = ws ! i" if "i < length ws" for i
      using m(2) [OF that] sp [of "i + 1"] that by (simp del: of_nat_add)
  qed (use m(3) in blast)
qed

lemma exit_frame:
  "interrupt_common_exit c = (let f = frame_at (ram c) (m_ebx c) in
     c\<lparr>m_eax := frame_eax f, m_ecx := frame_ecx f, m_edx := frame_edx f, m_ebx := frame_ebx f, m_esp := m_ebx c + 52, m_ebp := frame_ebp f,
       m_esi := frame_esi f, m_edi := frame_edi f, m_eip := frame_eip f, m_cs := frame_cs f, m_eflags := frame_eflags f\<rparr>)"
  by (simp add: interrupt_common_exit_def pop32_def frame_at_def Let_def add.assoc)

text \<open>The words on the stack when the frame is complete.\<close>

definition frame_words :: "nat \<Rightarrow> u32 \<Rightarrow> machine \<Rightarrow> u32 list" where
  "frame_words vector error c = [m_eflags c, m_cs c, m_eip c, if vector \<in> cpu_error_vectors then error else 0, of_nat vector,
     m_eax c, m_ecx c, m_edx c, m_ebx c, m_esp c - 20, m_ebp c, m_esi c, m_edi c]"

lemma stub_pushes:
  assumes "vector < 48"
  shows "(if vector < 32 then isr_stub vector (cpu_deliver (if vector \<in> cpu_error_vectors then Some error else None) c)
        else irq_stub (vector - 32) (cpu_deliver None c)) =
    (push_words [m_eflags c, m_cs c, m_eip c, if vector \<in> cpu_error_vectors then error else 0, of_nat vector] c)
      \<lparr>m_eflags := m_eflags c AND NOT 0x300\<rparr>"
proof (cases "vector < 32")
  case True
  then show ?thesis
    by (simp add: isr_stub_def cpu_deliver_def isr_with_error_def cpu_error_vectors_def push_words_flags flip: push_words_append)
next
  case False
  then have "vector \<notin> cpu_error_vectors" by (auto simp: cpu_error_vectors_def)
  moreover have "32 + (vector - 32) = vector" using False by simp
  ultimately show ?thesis using False by (simp add: irq_stub_def cpu_deliver_def push_words_flags flip: push_words_append)
qed

lemma entered_frame:
  assumes "vector < 48" and room: "128 \<le> unat (m_esp c)"
  obtains m where "entered ra vector error c =
      c\<lparr>m_eflags := m_eflags c AND NOT 0x300 AND NOT 0x400, m_ebx := m_esp c - 52, m_esp := ((m_esp c - 52) AND NOT 0xF) - 20, ram := m\<rparr>"
    "load32 m (((m_esp c - 52) AND NOT 0xF) - 20) = ra" "load32 m (((m_esp c - 52) AND NOT 0xF) - 16) = m_esp c - 52"
    "\<And>i. i < 13 \<Longrightarrow> load32 m (m_esp c - 4 * of_nat (i + 1)) = frame_words vector error c ! i"
    "\<And>z. z < 4294967296 \<Longrightarrow> unat (m_esp c) \<le> z \<Longrightarrow> m (of_nat z) = ram c (of_nat z)"
    "16 dvd unat ((m_esp c - 52) AND NOT 0xF)" "36 \<le> unat ((m_esp c - 52) AND NOT 0xF)"
proof -
  let ?ws = "frame_words vector error c" and ?fp = "m_esp c - 52"
  define base where "base = ?fp AND NOT 0xF"
  have len: "length ?ws = 13" by (simp add: frame_words_def)
  obtain m1 where m1: "push_words ?ws c = c\<lparr>m_esp := m_esp c - 4 * of_nat (length ?ws), ram := m1\<rparr>"
    "\<And>i. i < length ?ws \<Longrightarrow> load32 m1 (m_esp c - 4 * of_nat (i + 1)) = ?ws ! i"
    "\<And>z. z < 4294967296 \<Longrightarrow> z < unat (m_esp c) - 4 * length ?ws \<or> unat (m_esp c) \<le> z \<Longrightarrow> m1 (of_nat z) = ram c (of_nat z)"
    by (rule push_words_spec [of ?ws c]) (use len room in simp_all)
  have fp: "unat ?fp = unat (m_esp c) - 52" using room by (simp add: unat_sub_no_wrap word_le_nat_alt)
  have b: "unat base = unat ?fp div 2 ^ 4 * 2 ^ 4" unfolding base_def mask_numerals(3) by (rule unat_and_not_mask)
  then have b': "16 dvd unat base" "unat base \<le> unat ?fp" "unat ?fp < unat base + 16" by simp_all
  let ?c = "c\<lparr>m_eflags := m_eflags c AND NOT 0x300 AND NOT 0x400, m_ebx := ?fp, m_esp := base - 12, ram := m1\<rparr>"
  have esp12: "unat (base - 12) = unat base - 12" using b' fp room by (simp add: unat_sub_no_wrap word_le_nat_alt)
  obtain m2 where m2: "push_words [?fp, ra] ?c = ?c\<lparr>m_esp := m_esp ?c - 4 * of_nat (length [?fp, ra]), ram := m2\<rparr>"
    "\<And>i. i < length [?fp, ra] \<Longrightarrow> load32 m2 (m_esp ?c - 4 * of_nat (i + 1)) = [?fp, ra] ! i"
    "\<And>z. z < 4294967296 \<Longrightarrow> z < unat (m_esp ?c) - 4 * length [?fp, ra] \<or> unat (m_esp ?c) \<le> z \<Longrightarrow> m2 (of_nat z) = ram ?c (of_nat z)"
    by (rule push_words_spec [of "[?fp, ra]" ?c]) (use esp12 b' fp room in simp_all)
  have keep: "m2 (of_nat z) = m1 (of_nat z)" if "z < 4294967296" "unat ?fp \<le> z" for z
  proof -
    have "unat (base - 12) \<le> z" using that(2) esp12 b'(2) by linarith
    then show ?thesis using m2(3) [of z] that(1) by simp
  qed
  have all: "push_words [m_eax c, m_ecx c, m_edx c, m_ebx c, m_esp c - 20, m_ebp c, m_esi c, m_edi c]
      (push_words [m_eflags c, m_cs c, m_eip c, if vector \<in> cpu_error_vectors then error else 0, of_nat vector] c) = push_words ?ws c"
    by (simp add: frame_words_def flip: push_words_append)
  have sp5: "m_esp (push_words [m_eflags c, m_cs c, m_eip c, if vector \<in> cpu_error_vectors then error else 0, of_nat vector] c) = m_esp c - 20"
    by (simp add: push_words_esp)
  show ?thesis
  proof (rule that [of m2])
    let ?d = "push_words ?ws c"
    let ?x = "?d\<lparr>m_eflags := m_eflags ?d AND NOT 0x300 AND NOT 0x400, m_ebx := m_esp ?d, m_esp := (m_esp ?d AND NOT 0xF) - 12\<rparr>"
    have ent: "entered ra vector error c = push_words [ra] (push_words [m_ebx ?x] ?x)"
      unfolding entered_def stub_pushes [OF assms(1)] interrupt_common_entry_def Let_def by (simp add: push_words_flags sp5 all and.assoc)
    have x: "?x = ?c" unfolding m1(1) len base_def by (intro machine.equality) simp_all
    have "entered ra vector error c = push_words [ra] (push_words [m_ebx ?c] ?c)" using ent unfolding x .
    then have "entered ra vector error c = push_words [ra] (push_words [?fp] ?c)" by simp
    then show "entered ra vector error c =
        c\<lparr>m_eflags := m_eflags c AND NOT 0x300 AND NOT 0x400, m_ebx := ?fp, m_esp := (?fp AND NOT 0xF) - 20, ram := m2\<rparr>"
      using m2(1) push_words_append [of "[?fp]" "[ra]" ?c] by (simp add: base_def)
    show "load32 m2 ((?fp AND NOT 0xF) - 20) = ra" "load32 m2 ((?fp AND NOT 0xF) - 16) = ?fp"
      using m2(2) [of 1] m2(2) [of 0] by (simp_all add: base_def)
    show "load32 m2 (m_esp c - 4 * of_nat (i + 1)) = ?ws ! i" if i: "i < 13" for i
    proof -
      have "(of_nat (unat (m_esp c) - 4 * (i + 1)) :: u32) = m_esp c - 4 * of_nat (i + 1)" using room i by (simp add: of_nat_diff)
      moreover have "load32 m2 (of_nat (unat (m_esp c) - 4 * (i + 1))) = load32 m1 (of_nat (unat (m_esp c) - 4 * (i + 1)))"
      proof (rule load_cong)
        show "unat (m_esp c) - 4 * (i + 1) + 4 \<le> 4294967296" using unat_less_width(3) [of "m_esp c"] by simp
        show "m2 (of_nat z) = m1 (of_nat z)" if "unat (m_esp c) - 4 * (i + 1) \<le> z" "z < unat (m_esp c) - 4 * (i + 1) + 4" for z
          using that i room fp unat_less_width(3) [of "m_esp c"] by (intro keep) simp_all
      qed
      ultimately show ?thesis using m1(2) [of i] i len by simp
    qed
    show "m2 (of_nat z) = ram c (of_nat z)" if "z < 4294967296" "unat (m_esp c) \<le> z" for z
      using keep [of z] m1(3) [of z] that fp by simp
    show "16 dvd unat (?fp AND NOT 0xF)" "36 \<le> unat (?fp AND NOT 0xF)" using b' fp room unfolding base_def by simp_all
  qed
qed

section \<open>Properties\<close>

text \<open>
  (C23) An interrupt is invisible to the code it interrupts, and visible to the handler. For each of
  the 48 vectors, whatever the registers and the memory, the handler is called on an aligned stack
  with a pointer to a frame that holds every register of the interrupted code, the vector and the
  error code the processor supplied or zero, with interrupts off, the direction flag clear and nothing above the
  interrupted stack pointer changed. When the handler returns with the frame and \<open>ebx\<close> as it got
  them, every register, the stack pointer and the flags of the interrupted code are restored.
\<close>

lemma interrupt_transparent:
  assumes "vector < 48" "128 \<le> unat (m_esp c)"
  shows "let e = entered return_address vector error c; frame = load32 (ram e) (m_esp e + 4) in
    frame_at (ram e) frame = \<lparr>frame_edi = m_edi c, frame_esi = m_esi c, frame_ebp = m_ebp c, frame_saved_esp = m_esp c - 20, frame_ebx = m_ebx c,
      frame_edx = m_edx c, frame_ecx = m_ecx c, frame_eax = m_eax c, frame_vector = of_nat vector,
      frame_error_code = (if vector \<in> cpu_error_vectors then error else 0), frame_eip = m_eip c, frame_cs = m_cs c, frame_eflags = m_eflags c\<rparr> \<and>
    (unat (m_esp e) + 4) mod 16 = 0 \<and> load32 (ram e) (m_esp e) = return_address \<and> \<not> bit (m_eflags e) 9 \<and> \<not> bit (m_eflags e) 10 \<and>
    (\<forall>z < 4294967296. unat (m_esp c) \<le> z \<longrightarrow> ram e (of_nat z) = ram c (of_nat z)) \<and>
    (\<forall>r. m_ebx r = m_ebx e \<and> frame_at (ram r) frame = frame_at (ram e) frame \<longrightarrow> interrupt_common_exit r = c\<lparr>ram := ram r\<rparr>)"
proof -
  let ?b = "(m_esp c - 52) AND NOT 0xF"
  obtain m where e: "entered return_address vector error c =
      c\<lparr>m_eflags := m_eflags c AND NOT 0x300 AND NOT 0x400, m_ebx := m_esp c - 52, m_esp := ?b - 20, ram := m\<rparr>"
    and l: "load32 m (?b - 20) = return_address" "load32 m (?b - 16) = m_esp c - 52"
      "\<And>i. i < 13 \<Longrightarrow> load32 m (m_esp c - 4 * of_nat (i + 1)) = frame_words vector error c ! i"
      "\<And>z. z < 4294967296 \<Longrightarrow> unat (m_esp c) \<le> z \<Longrightarrow> m (of_nat z) = ram c (of_nat z)"
    and b: "16 dvd unat ?b" "36 \<le> unat ?b"
    by (rule entered_frame [OF assms, of return_address error]) (rule that, assumption+)
  have sum: "?b - 20 + 4 = ?b - 16" by simp
  have fr: "frame_at m (m_esp c - 52) = \<lparr>frame_edi = m_edi c, frame_esi = m_esi c, frame_ebp = m_ebp c, frame_saved_esp = m_esp c - 20, frame_ebx = m_ebx c,
      frame_edx = m_edx c, frame_ecx = m_ecx c, frame_eax = m_eax c, frame_vector = of_nat vector,
      frame_error_code = (if vector \<in> cpu_error_vectors then error else 0), frame_eip = m_eip c, frame_cs = m_cs c, frame_eflags = m_eflags c\<rparr>"
    using l(3) [of 0] l(3) [of 1] l(3) [of 2] l(3) [of 3] l(3) [of 4] l(3) [of 5] l(3) [of 6] l(3) [of 7] l(3) [of 8] l(3) [of 9]
      l(3) [of 10] l(3) [of 11] l(3) [of 12]
    by (simp add: frame_at_def frame_words_def)
  have "(unat (?b - 20) + 4) mod 16 = 0"
  proof -
    have "unat (?b - 20) = unat ?b - 20" using b(2) by (simp add: unat_sub_no_wrap word_le_nat_alt)
    moreover obtain k where "unat ?b = 16 * k" using b(1) by (auto simp: dvd_def)
    ultimately have "unat (?b - 20) + 4 = 16 * (k - 1)" using b(2) by simp
    then show ?thesis by simp
  qed
  moreover have "\<not> bit (m_eflags c AND NOT 0x300 AND NOT 0x400) 9" "\<not> bit (m_eflags c AND NOT 0x300 AND NOT 0x400) 10"
  proof -
    have "bit (0x400 :: u32) 10" "bit (0x300 :: u32) 9" by simp_all
    then show "\<not> bit (m_eflags c AND NOT 0x300 AND NOT 0x400) 9" "\<not> bit (m_eflags c AND NOT 0x300 AND NOT 0x400) 10"
      by (simp_all only: bit_and_iff bit_not_iff) simp_all
  qed
  moreover have "interrupt_common_exit r = c\<lparr>ram := ram r\<rparr>" if "m_ebx r = m_esp c - 52" "frame_at (ram r) (m_esp c - 52) = frame_at m (m_esp c - 52)" for r
    unfolding exit_frame Let_def that fr by (intro machine.equality) simp_all
  ultimately show ?thesis using l fr by (simp add: e Let_def sum)
qed

theorem interrupt_transparent_witness:
  fixes c :: machine
  defines "c \<equiv> \<lparr>ram = (\<lambda>_. 0), m_eax = 1, m_ecx = 2, m_edx = 3, m_ebx = 4, m_esp = 0x8003, m_ebp = 5, m_esi = 6, m_edi = 7, m_eip = 0x1234,
    m_cs = 8, m_eflags = 0x602\<rparr>"
  shows "interrupt_common_exit (entered 0x9999 14 2 c) = c\<lparr>ram := ram (entered 0x9999 14 2 c)\<rparr>"
proof -
  have room: "128 \<le> unat (m_esp c)" by (simp add: c_def)
  have vec: "14 < (48 :: nat)" by simp
  let ?e = "entered 0x9999 14 2 c"
  have "\<forall>r. m_ebx r = m_ebx ?e \<and> frame_at (ram r) (load32 (ram ?e) (m_esp ?e + 4)) = frame_at (ram ?e) (load32 (ram ?e) (m_esp ?e + 4)) \<longrightarrow>
      interrupt_common_exit r = c\<lparr>ram := ram r\<rparr>"
    using interrupt_transparent [OF vec room, of "0x9999" 2] unfolding Let_def by (elim conjE)
  then show ?thesis by blast
qed

text \<open>The reports.\<close>

definition exception_text :: "u32 \<Rightarrow> string" where
  "exception_text vector = ''EXCEPTION vector='' @ decimal (unat vector) @ [CHR 0x0A]"

definition page_fault_text :: "u32 \<Rightarrow> u32 \<Rightarrow> string" where
  "page_fault_text address error =
     ''PAGE_FAULT address='' @ (''0x'' @ hexadecimal 8 (unat address)) @ '' error='' @ (''0x'' @ hexadecimal 8 (unat error)) @
     '' present='' @ decimal (of_bool (bit error 0)) @ '' write='' @ decimal (of_bool (bit error 1)) @
     '' user='' @ decimal (of_bool (bit error 2)) @ [CHR 0x0A]"

lemma error_bit: "unat (drop_bit n e AND 1) = of_bool (bit e n)" for e :: u32
proof -
  have "drop_bit n e AND 1 = of_bool (bit e n)" by (simp add: and_one_eq bit_iff_odd_drop_bit mod2_eq_if)
  then show ?thesis by simp
qed

lemma prints_page_fault:
  assumes live: "transmitter_live lsr" and locals: "\<forall>i. length (locals i) = 10"
  shows "prints (paging_handle_page_fault lsr locals a frame) (page_fault_text a (frame_error_code frame))"
proof -
  have bits: "decimal (of_bool (bit e 0)) = decimal (unat (e AND 1))" "decimal (of_bool (bit e 1)) = decimal (unat (drop_bit 1 e AND 1))"
    "decimal (of_bool (bit e 2)) = decimal (unat (drop_bit 2 e AND 1))" for e :: u32
    using error_bit [of 0 e] error_bit [of 1 e] error_bit [of 2 e] by simp_all
  show ?thesis
    unfolding paging_handle_page_fault_def page_fault_text_def Let_def bits
    by (intro prints_bind prints_lit [OF live] prints_hex [OF live] prints_dec [OF live] prints_putc [OF live]) (use locals in simp_all)
qed

lemma prints_exception:
  assumes live: "transmitter_live lsr" and locals: "\<forall>i. length (locals i) = 10"
  shows "prints (\<lambda>s. do { s \<leftarrow> console_write lsr (Some ''EXCEPTION vector='') s; s \<leftarrow> console_write_u32_dec lsr (locals i) v s; console_putc lsr (CHR 0x0A) s })
    (exception_text v)"
  unfolding exception_text_def
  by (intro prints_bind prints_lit [OF live] prints_dec [OF live] prints_putc [OF live]) (use locals in simp_all)

text \<open>
  (C24) Dispatch by vector: the sixteen requests go to \<open>irq_dispatch\<close> and print nothing; a breakpoint
  is reported and resumed; a page fault reports the address and the error bits, every other
  exception its number, and both stop the machine. A report is written in full whenever the
  transmitter is live, and no exception changes the drivers' state.
\<close>

lemma interrupt_dispatch_exact:
  assumes "transmitter_live lsr" "\<forall>i. length (locals i) = 10" and "shows_terminal pre s t"
  shows "(let v = unat (frame_vector frame) in
    if 32 \<le> v \<and> v < 48 then interrupt_dispatch lsr locals a frame (s, q, w) = Some (Resume (s, irq_dispatch (of_nat (v - 32)) (q, w)))
    else \<exists>s'. interrupt_dispatch lsr locals a frame (s, q, w) = Some (if v = 3 then Resume (s', q, w) else Halted (s', q, w)) \<and>
      shows_terminal pre s' (fold term_putc (if v = 14 then page_fault_text a (frame_error_code frame) else exception_text (frame_vector frame)) t))"
proof -
  let ?v = "frame_vector frame"
  have r: "32 \<le> ?v \<longleftrightarrow> 32 \<le> unat ?v" "?v < 48 \<longleftrightarrow> unat ?v < 48" "?v = 14 \<longleftrightarrow> unat ?v = 14" "?v = 3 \<longleftrightarrow> unat ?v = 3"
    by (simp_all add: word_le_nat_alt word_less_nat_alt word_unat_eq_iff)
  show ?thesis
  proof (cases "32 \<le> unat ?v \<and> unat ?v < 48")
    case True
    have u: "unat (?v - 32) = unat ?v - 32" using True by (simp add: unat_sub_no_wrap word_le_nat_alt)
    have n: "unat ?v - 32 < 256" using True by linarith
    have "unat (ucast (?v - 32) :: u8) = unat ?v - 32" using n by (subst unat_ucast_small) (simp_all add: u)
    moreover have "unat (of_nat (unat ?v - 32) :: u8) = unat ?v - 32" using n by (intro unat_word_of_nat_small) simp
    ultimately have "(ucast (?v - 32) :: u8) = of_nat (unat ?v - 32)" by (simp only: word_unat_eq_iff)
    then show ?thesis using True by (simp add: interrupt_dispatch_def r Let_def)
  next
    case False
    then have nr: "\<not> (32 \<le> ?v \<and> ?v < 48)" unfolding r .
    show ?thesis
    proof (cases "unat ?v = 14")
      case True
      from prints_page_fault [OF assms(1,2), of a frame] assms(3) obtain s' where
        "paging_handle_page_fault lsr locals a frame s = Some s'" "shows_terminal pre s' (fold term_putc (page_fault_text a (frame_error_code frame)) t)"
        unfolding prints_def by blast
      then show ?thesis using True by (simp add: interrupt_dispatch_def r Let_def)
    next
      case nf: False
      from prints_exception [OF assms(1,2), of 0 ?v] assms(3) obtain s' where
        s': "do { s \<leftarrow> console_write lsr (Some ''EXCEPTION vector='') s; s \<leftarrow> console_write_u32_dec lsr (locals 0) ?v s; console_putc lsr (CHR 0x0A) s } = Some s'"
          "shows_terminal pre s' (fold term_putc (exception_text ?v) t)"
        unfolding prints_def by blast
      have "interrupt_dispatch lsr locals a frame (s, q, w) = do {
          s \<leftarrow> do { s \<leftarrow> console_write lsr (Some ''EXCEPTION vector='') s; s \<leftarrow> console_write_u32_dec lsr (locals 0) ?v s; console_putc lsr (CHR 0x0A) s };
          if ?v = 3 then Some (Resume (s, q, w)) else Some (Halted (s, q, w)) }"
        using nr nf by (auto simp: interrupt_dispatch_def r(3))
      then show ?thesis using s' False nf by (auto simp: r(4) Let_def)
    qed
  qed
qed

theorem interrupt_dispatch_exact_witness:
  fixes q :: "nat irq_system" and f :: interrupt_frame
  defines "q \<equiv> \<lparr>handlers = replicate 16 None, counts = replicate 16 0, irq_pic = \<lparr>master_mask = 0xFF, slave_mask = 0xFF, pic_ports = []\<rparr>,
      irq_idt = \<lparr>idt = [], idtr = \<lparr>table_limit = 0, table_base = 0\<rparr>, loaded_idtr = \<lparr>table_limit = 0, table_base = 0\<rparr>\<rparr>\<rparr>"
    and "f \<equiv> \<lparr>frame_edi = 0, frame_esi = 0, frame_ebp = 0, frame_saved_esp = 0, frame_ebx = 0, frame_edx = 0, frame_ecx = 0, frame_eax = 0,
      frame_vector = 14, frame_error_code = 2, frame_eip = 0x100000, frame_cs = 8, frame_eflags = 2\<rparr>"
  shows "\<exists>s'. interrupt_dispatch (\<lambda>_. 0x20) (\<lambda>_. replicate 10 NUL) 0x400123 f
      (console_init \<lparr>vga_buffer = replicate 2000 0, vga_row = 7, vga_column = 99, uart = \<lparr>status_reads = 0, thr_empty = False, lost_bytes = 0, serial_ports = []\<rparr>\<rparr>, q, 0) =
    Some (Halted (s', q, 0))"
proof -
  have live: "transmitter_live (\<lambda>_. 0x20)" by (auto simp: transmitter_live_def)
  have l: "\<forall>i :: nat. length (replicate 10 NUL) = 10" by simp
  have b: "length (vga_buffer \<lparr>vga_buffer = replicate 2000 0, vga_row = 7, vga_column = 99, uart = \<lparr>status_reads = 0, thr_empty = False, lost_bytes = 0, serial_ports = []\<rparr>\<rparr>) = 2000" by simp
  have v: "unat (frame_vector f) = 14" by (simp add: f_def)
  show ?thesis
    using interrupt_dispatch_exact [OF live l console_init_shows [OF b], of f "0x400123" q 0] unfolding v Let_def by auto
qed

end
