(* ===== verification/System_Status.thy ===== *)
theory System_Status
  imports Pmm Heap Irq Keyboard Task
begin

text \<open>
  The snapshot of the kernel's counters, \<open>kernel/diag/system_status.c\<close>. Each getter is applied to the
  state its component has when it is called; the states need not be of the same moment, since
  interrupts arrive in between. Sizes have 32 bits, so the narrowing always succeeds.
\<close>

record system_status =
  status_pmm_total_pages :: u32
  status_pmm_free_pages :: u32
  status_heap_total_bytes :: u32
  status_heap_free_bytes :: u32
  status_heap_largest_free_block :: u32
  status_heap_allocated_blocks :: u32
  status_pit_ticks :: u32
  status_irq0_count :: u32
  status_keyboard_dropped :: u32
  status_task_switches :: u32
  status_task_finished :: u32

text \<open>The components the snapshot reads.\<close>

record 'w observed =
  seen_pmm :: pmm
  seen_heap :: heap
  seen_pit :: pit
  seen_irq :: "'w irq_system"
  seen_keyboard :: keyboard
  seen_tasks :: scheduler

definition size_to_u32 :: "u32 \<Rightarrow> u32 option" where
  "size_to_u32 v = Some v"

definition system_status_read :: "u32 \<Rightarrow> bool \<Rightarrow> 'w observed \<Rightarrow> system_status option" where
  "system_status_read arena status k =
     (if \<not> status then None
      else do {
        h \<leftarrow> kheap_get_stats arena True (seen_heap k);
        total \<leftarrow> size_to_u32 (total_bytes h);
        free \<leftarrow> size_to_u32 (free_bytes h);
        largest \<leftarrow> size_to_u32 (largest_free_block h);
        Some \<lparr>status_pmm_total_pages = pmm_total_page_count (seen_pmm k), status_pmm_free_pages = pmm_free_page_count (seen_pmm k),
          status_heap_total_bytes = total, status_heap_free_bytes = free, status_heap_largest_free_block = largest,
          status_heap_allocated_blocks = allocated_blocks h, status_pit_ticks = pit_ticks (seen_pit k), status_irq0_count = irq_count 0 (seen_irq k),
          status_keyboard_dropped = keyboard_dropped_count (seen_keyboard k), status_task_switches = task_switch_count (seen_tasks k),
          status_task_finished = task_finished_count (seen_tasks k)\<rparr>
      })"

end
