(* ===== verification/Self_Test.thy ===== *)
theory Self_Test
  imports Kernel_Prelude
begin

text \<open>
  The conditions of the self-tests: a disjunction of failures, evaluated from left to right and
  given up at the first that holds, where each operand may change the state.
\<close>

type_synonym 's test = "'s \<Rightarrow> bool \<times> 's"

definition holds :: "('s \<Rightarrow> bool) \<Rightarrow> 's test" where
  "holds P s = (P s, s)"

definition returns :: "('s \<Rightarrow> 'r \<times> 's) \<Rightarrow> 'r \<Rightarrow> 's test" where
  "returns f r s = (case f s of (x, s') \<Rightarrow> (x = r, s'))"

fun run_tests :: "'s test list \<Rightarrow> 's test" where
  "run_tests [] s = (True, s)"
| "run_tests (t # ts) s = (case t s of (ok, s') \<Rightarrow> if ok then run_tests ts s' else (False, s'))"

lemma run_tests_append: "run_tests (xs @ ys) s = (case run_tests xs s of (ok, s') \<Rightarrow> if ok then run_tests ys s' else (False, s'))"
  by (induction xs arbitrary: s) (simp_all split: prod.splits)

lemma run_holds [simp]: "run_tests (holds P # ts) s = (if P s then run_tests ts s else (False, s))"
  by (simp add: holds_def)

lemma run_returns: "f s = (r, s') \<Longrightarrow> run_tests (returns f r # ts) s = run_tests ts s'"
  by (simp add: returns_def)

end
