(* ===== verification/Runtime.thy ===== *)
theory Runtime
  imports System_Status Console Ramfs Line_Editor Command Self_Test
begin

text \<open>
  The interactive shell, \<open>kernel/shell/runtime.c\<close>: characters go to the line editor, submitted lines to
  the parser, commands to the file system, and the answers to the console. What the uninitialised
  local variables hold is the argument \<open>l\<close>; a call that waits for ever on the serial line is \<open>None\<close>.
  The specification is a session over words, a map of files and a terminal.
\<close>

section \<open>State\<close>

abbreviation SHELL_TEXT_CAPACITY :: u32 where "SHELL_TEXT_CAPACITY \<equiv> 256"

record runtime =
  files :: ramfs
  screen :: console
  runtime_editor :: shell_line_editor
  runtime_initialized :: bool
  runtime_started :: bool

record shell_locals =
  l_text :: "char list"
  l_line :: "char list"
  l_command :: shell_command
  l_parsed :: shell_command
  l_data :: "u8 list"
  l_digits :: "nat \<Rightarrow> char list"

section \<open>Self-tests\<close>

definition bytes_equal :: "u8 list \<Rightarrow> u8 list \<Rightarrow> u32 \<Rightarrow> bool" where
  "bytes_equal left right len \<longleftrightarrow> find (\<lambda>index. left ! index \<noteq> right ! index) [0..<unat len] = None"

text \<open>The state is the file system with the locals \<open>output\<close> and \<open>length\<close>.\<close>

definition ramfs_self_test :: "u8 list \<Rightarrow> ramfs \<Rightarrow> bool \<times> ramfs" where
  "ramfs_self_test output fs =
     (let name = Some ''self-test'';
          first = map char_byte ''abc'';
          appended = map char_byte ''d'';
          expected = map char_byte ''abcd'';
          on_fs = (\<lambda>f (fs, v). case f fs of (r, fs) \<Rightarrow> (r, fs, v));
          read = (\<lambda>capacity (fs, out, len). case ramfs_read name (Some out) capacity True fs of
            (r, out', len') \<Rightarrow> (r, fs, the out', case len' of None \<Rightarrow> len | Some n \<Rightarrow> n));
          (ok, fs, output, len) = run_tests [
            holds (\<lambda>(fs, _). ramfs_validate fs),
            holds (\<lambda>(fs, _). ramfs_count fs = 0),
            returns (on_fs (ramfs_create name)) RAMFS_RESULT_OK,
            returns (on_fs (ramfs_create name)) RAMFS_RESULT_ALREADY_EXISTS,
            returns (on_fs (ramfs_create (Some ''bad/name''))) RAMFS_RESULT_INVALID_NAME,
            returns (on_fs (ramfs_write name (Some first) 3)) RAMFS_RESULT_OK,
            returns (on_fs (ramfs_append name (Some appended) 1)) RAMFS_RESULT_OK,
            holds (\<lambda>(fs, _). ramfs_count fs = 1),
            holds (\<lambda>(fs, _). case ramfs_get_info 0 True fs of None \<Rightarrow> False
              | Some (info_name, info_size) \<Rightarrow> strings_equal info_name ''self-test'' \<and> info_size = 4)]
            (ramfs_init fs, output, 0)
      in if \<not> ok then (False, fs)
      else let (ok, fs, output, len) = run_tests [
            returns (read (4 - 1)) RAMFS_RESULT_TOO_LARGE,
            holds (\<lambda>(_, output, _). output ! 0 = 0xA5),
            holds (\<lambda>(_, _, len). len = 0xA5A5A5A5),
            returns (on_fs (ramfs_append name (Some appended) (of_nat RAMFS_FILE_MAX_BYTES - 4 + 1))) RAMFS_RESULT_TOO_LARGE]
            (fs, output[0 := 0xA5], 0xA5A5A5A5)
      in if \<not> ok then (False, fs)
      else let (ok, fs, output, len) = run_tests [
            returns (read 4) RAMFS_RESULT_OK,
            holds (\<lambda>(_, _, len). len = 4),
            holds (\<lambda>(_, output, _). bytes_equal output expected 4),
            holds (\<lambda>(fs, _). ramfs_validate fs),
            returns (on_fs (ramfs_remove name)) RAMFS_RESULT_OK,
            holds (\<lambda>(fs, _). ramfs_count fs = 0),
            holds (\<lambda>(fs, _). ramfs_validate fs)]
            (fs, output, 0)
      in (ok, fs))"

text \<open>The state is the editor and the local \<open>output\<close>.\<close>

definition line_editor_self_test :: "shell_line_editor \<Rightarrow> char list \<Rightarrow> bool" where
  "line_editor_self_test editor output =
     (let feed = (\<lambda>c (e, out). case shell_line_editor_feed e c of (ev, e) \<Rightarrow> (ev, e, out));
          take_line = (\<lambda>capacity (e, out). case shell_line_editor_take e (Some out) capacity of (ok, out', e) \<Rightarrow> (ok, e, the out'))
      in fst (run_tests ([
           holds (\<lambda>(e, _). line_length (the e) = 0),
           holds (\<lambda>(e, _). \<not> ready (the e)),
           holds (\<lambda>(e, _). shell_line_editor_overflow_count e = 0),
           returns (feed CHR ''a'') SHELL_LINE_ECHO,
           returns (feed CHR ''b'') SHELL_LINE_ECHO,
           returns (feed (CHR 0x08)) SHELL_LINE_ERASE,
           returns (feed (CHR 0x0A)) SHELL_LINE_READY,
           returns (feed CHR ''x'') SHELL_LINE_NONE,
           returns (take_line 1) False,
           returns (take_line 128) True,
           holds (\<lambda>(_, out). strings_equal out ''a'')] @
         replicate SHELL_LINE_MAX (returns (feed CHR ''x'') SHELL_LINE_ECHO) @ [
           returns (feed CHR ''y'') SHELL_LINE_FULL,
           holds (\<lambda>(e, _). shell_line_editor_overflow_count e = 1),
           returns (feed (CHR 0x0D)) SHELL_LINE_READY,
           returns (take_line 128) True,
           holds (\<lambda>(_, out). out ! SHELL_LINE_MAX = NUL),
           holds (\<lambda>(e, _). line_length (the e) = 0),
           holds (\<lambda>(e, _). \<not> ready (the e))])
         (shell_line_editor_init (Some editor), output)))"

definition parser_self_test :: "shell_command \<Rightarrow> shell_command \<Rightarrow> bool" where
  "parser_self_test parsed command =
     (let parse = (\<lambda>line command. shell_command_parse parsed (Some line) command)
      in fst (run_tests [
           returns (parse (''  write'' @ [CHR 0x09] @ ''note  hello world '')) SHELL_PARSE_OK,
           holds (\<lambda>c. kind (the c) = SHELL_COMMAND_WRITE),
           holds (\<lambda>c. argument_count (the c) = 3),
           holds (\<lambda>c. strings_equal (cmd_name (the c)) ''write''),
           holds (\<lambda>c. strings_equal (arguments (the c) ! 0) ''note''),
           holds (\<lambda>c. strings_equal (arguments (the c) ! 1) ''hello''),
           holds (\<lambda>c. strings_equal (arguments (the c) ! 2) ''world''),
           holds shell_command_has_valid_arity,
           holds (\<lambda>c. shell_command_usage (kind (the c)) \<noteq> None),
           holds (\<lambda>_. Some shell_command_help \<noteq> None),
           returns (parse ''nosuch'') SHELL_PARSE_OK,
           holds (\<lambda>c. kind (the c) = SHELL_COMMAND_UNKNOWN),
           holds (\<lambda>c. \<not> shell_command_has_valid_arity c),
           returns (parse [CHR '' '', CHR 0x09, CHR '' '']) SHELL_PARSE_EMPTY] (Some command)))"

section \<open>Commands\<close>

definition buffer_append_char :: "u32 \<Rightarrow> char \<Rightarrow> char list \<times> u32 \<Rightarrow> bool \<times> char list \<times> u32" where
  "buffer_append_char capacity character = (\<lambda>(dest, len).
     if len + 1 \<ge> capacity then (False, dest, len)
     else let dest = dest[unat len := character]; len = len + 1
       in (True, dest[unat len := NUL], len))"

text \<open>The loops of \<open>join_arguments\<close>, over the characters of a word and over the words.\<close>

fun append_word :: "u32 \<Rightarrow> string \<Rightarrow> char list \<times> u32 \<Rightarrow> bool \<times> char list \<times> u32" where
  "append_word capacity [] b = (True, b)"
| "append_word capacity (c # cs) b =
     (if c = NUL then (True, b)
      else case buffer_append_char capacity c b of (ok, b) \<Rightarrow> if ok then append_word capacity cs b else (False, b))"

fun append_arguments :: "shell_command \<Rightarrow> u32 \<Rightarrow> nat \<Rightarrow> nat list \<Rightarrow> char list \<times> u32 \<Rightarrow> bool \<times> char list \<times> u32" where
  "append_arguments command capacity first_argument [] b = (True, b)"
| "append_arguments command capacity first_argument (argument # rest) b =
     (case (if argument \<noteq> first_argument then buffer_append_char capacity CHR '' '' b else (True, b)) of (ok, b) \<Rightarrow>
      if \<not> ok then (False, b)
      else case append_word capacity (arguments command ! argument) b of (ok, b) \<Rightarrow>
        if \<not> ok then (False, b) else append_arguments command capacity first_argument rest b)"

text \<open>A null pointer is \<open>None\<close>; the result is the buffer and the length, unless the call fails.\<close>

definition join_arguments :: "shell_command option \<Rightarrow> u32 \<Rightarrow> bool \<Rightarrow> char list option \<Rightarrow> u32 \<Rightarrow> bool \<Rightarrow> (char list \<times> u32) option" where
  "join_arguments command first_argument leading_space dest capacity len_ptr =
     (case (command, dest) of
        (Some command, Some dest) \<Rightarrow>
          if \<not> len_ptr \<or> capacity = 0 \<or> first_argument > argument_count command then None
          else
            let b = (dest[0 := NUL], 0);
                (ok, b) = (if leading_space then buffer_append_char capacity CHR '' '' b else (True, b)) in
            if \<not> ok then None
            else (case append_arguments command capacity (unat first_argument) [unat first_argument..<unat (argument_count command)] b of
              (ok, b) \<Rightarrow> if ok then Some b else None)
      | _ \<Rightarrow> None)"

definition print_prompt :: "(nat \<Rightarrow> u8) \<Rightarrow> console \<Rightarrow> console option" where
  "print_prompt lsr = console_write lsr (Some ''tiny> '')"

fun print_ramfs_result :: "(nat \<Rightarrow> u8) \<Rightarrow> ramfs_result \<Rightarrow> console \<Rightarrow> console option" where
  "print_ramfs_result lsr RAMFS_RESULT_INVALID_ARGUMENT s = console_write lsr (Some (''error: invalid argument'' @ [CHR 0x0A])) s"
| "print_ramfs_result lsr RAMFS_RESULT_INVALID_NAME s = console_write lsr (Some (''error: invalid name'' @ [CHR 0x0A])) s"
| "print_ramfs_result lsr RAMFS_RESULT_NOT_FOUND s = console_write lsr (Some (''error: file not found'' @ [CHR 0x0A])) s"
| "print_ramfs_result lsr RAMFS_RESULT_ALREADY_EXISTS s = console_write lsr (Some (''error: file exists'' @ [CHR 0x0A])) s"
| "print_ramfs_result lsr RAMFS_RESULT_NO_SPACE s = console_write lsr (Some (''error: ramfs full'' @ [CHR 0x0A])) s"
| "print_ramfs_result lsr RAMFS_RESULT_TOO_LARGE s = console_write lsr (Some (''error: file too large'' @ [CHR 0x0A])) s"
| "print_ramfs_result lsr RAMFS_RESULT_OK s = Some s"

text \<open>\<open>status\<close> is what \<open>system_status_read\<close> returns.\<close>

definition print_status :: "(nat \<Rightarrow> u8) \<Rightarrow> (nat \<Rightarrow> char list) \<Rightarrow> system_status option \<Rightarrow> console \<Rightarrow> console option" where
  "print_status lsr digits status s = (case status of
     None \<Rightarrow> console_write lsr (Some (''error: status unavailable'' @ [CHR 0x0A])) s
   | Some status \<Rightarrow> do {
       s \<leftarrow> console_write lsr (Some ''PMM pages: free='') s;
       s \<leftarrow> console_write_u32_dec lsr (digits 0) (status_pmm_free_pages status) s;
       s \<leftarrow> console_write lsr (Some '' total='') s;
       s \<leftarrow> console_write_u32_dec lsr (digits 1) (status_pmm_total_pages status) s;
       s \<leftarrow> console_putc lsr (CHR 0x0A) s;
       s \<leftarrow> console_write lsr (Some ''Heap bytes: free='') s;
       s \<leftarrow> console_write_u32_dec lsr (digits 2) (status_heap_free_bytes status) s;
       s \<leftarrow> console_write lsr (Some '' total='') s;
       s \<leftarrow> console_write_u32_dec lsr (digits 3) (status_heap_total_bytes status) s;
       s \<leftarrow> console_write lsr (Some '' largest='') s;
       s \<leftarrow> console_write_u32_dec lsr (digits 4) (status_heap_largest_free_block status) s;
       s \<leftarrow> console_write lsr (Some '' blocks='') s;
       s \<leftarrow> console_write_u32_dec lsr (digits 5) (status_heap_allocated_blocks status) s;
       s \<leftarrow> console_putc lsr (CHR 0x0A) s;
       s \<leftarrow> console_write lsr (Some ''Timer: ticks='') s;
       s \<leftarrow> console_write_u32_dec lsr (digits 6) (status_pit_ticks status) s;
       s \<leftarrow> console_write lsr (Some '' irq0='') s;
       s \<leftarrow> console_write_u32_dec lsr (digits 7) (status_irq0_count status) s;
       s \<leftarrow> console_putc lsr (CHR 0x0A) s;
       s \<leftarrow> console_write lsr (Some ''Keyboard: dropped='') s;
       s \<leftarrow> console_write_u32_dec lsr (digits 8) (status_keyboard_dropped status) s;
       s \<leftarrow> console_putc lsr (CHR 0x0A) s;
       s \<leftarrow> console_write lsr (Some ''Tasks: switches='') s;
       s \<leftarrow> console_write_u32_dec lsr (digits 9) (status_task_switches status) s;
       s \<leftarrow> console_write lsr (Some '' finished='') s;
       s \<leftarrow> console_write_u32_dec lsr (digits 10) (status_task_finished status) s;
       console_putc lsr (CHR 0x0A) s
     })"

text \<open>The loops over the listing run through the indices below \<open>ramfs_count\<close>.\<close>

fun size_scan :: "string \<Rightarrow> ramfs \<Rightarrow> u32 list \<Rightarrow> u32 option" where
  "size_scan name fs [] = None"
| "size_scan name fs (index # rest) = (case ramfs_get_info index True fs of None \<Rightarrow> None
     | Some (info_name, info_size) \<Rightarrow> if strings_equal info_name name then Some info_size else size_scan name fs rest)"

definition file_size :: "string \<Rightarrow> ramfs \<Rightarrow> u32 option" where
  "file_size name fs = size_scan name fs (map of_nat [0..<unat (ramfs_count fs)])"

fun ls_lines :: "(nat \<Rightarrow> u8) \<Rightarrow> (nat \<Rightarrow> char list) \<Rightarrow> ramfs \<Rightarrow> u32 list \<Rightarrow> console \<Rightarrow> console option" where
  "ls_lines lsr digits fs [] s = Some s"
| "ls_lines lsr digits fs (index # rest) s = (case ramfs_get_info index True fs of
     None \<Rightarrow> console_write lsr (Some (''error: ramfs state'' @ [CHR 0x0A])) s
   | Some (info_name, info_size) \<Rightarrow> do {
       s \<leftarrow> console_write lsr (Some info_name) s;
       s \<leftarrow> console_putc lsr CHR '' '' s;
       s \<leftarrow> console_write_u32_dec lsr (digits (unat index)) info_size s;
       s \<leftarrow> console_putc lsr (CHR 0x0A) s;
       ls_lines lsr digits fs rest s
     })"

definition execute_ls :: "(nat \<Rightarrow> u8) \<Rightarrow> (nat \<Rightarrow> char list) \<Rightarrow> ramfs \<Rightarrow> console \<Rightarrow> console option" where
  "execute_ls lsr digits fs s =
     (if ramfs_count fs = 0 then console_write lsr (Some (''(empty)'' @ [CHR 0x0A])) s
      else ls_lines lsr digits fs (map of_nat [0..<unat (ramfs_count fs)]) s)"

fun put_bytes :: "(nat \<Rightarrow> u8) \<Rightarrow> u8 list \<Rightarrow> console \<Rightarrow> console option" where
  "put_bytes lsr [] s = Some s"
| "put_bytes lsr (b # bs) s = do { s \<leftarrow> console_putc lsr (char_of (unat b)) s; put_bytes lsr bs s }"

definition execute_cat :: "(nat \<Rightarrow> u8) \<Rightarrow> u8 list \<Rightarrow> string \<Rightarrow> ramfs \<Rightarrow> console \<Rightarrow> console option" where
  "execute_cat lsr data name fs s =
     (case ramfs_read (Some name) (Some data) (of_nat RAMFS_FILE_MAX_BYTES) True fs of (result, data, len) \<Rightarrow>
      if result \<noteq> RAMFS_RESULT_OK then print_ramfs_result lsr result s
      else do {
        s \<leftarrow> put_bytes lsr (map (\<lambda>index. the data ! index) [0..<unat (the len)]) s;
        console_putc lsr (CHR 0x0A) s
      })"

definition execute_command :: "(nat \<Rightarrow> u8) \<Rightarrow> shell_locals \<Rightarrow> system_status option \<Rightarrow> shell_command \<Rightarrow> ramfs \<times> console \<Rightarrow> (ramfs \<times> console) option" where
  "execute_command lsr l status command = (\<lambda>(fs, s).
     let say = (\<lambda>p. do { s \<leftarrow> p s; Some (fs, s) });
         too_long = console_write lsr (Some (''error: text too long'' @ [CHR 0x0A]));
         report = (\<lambda>(result, fs). do {
           s \<leftarrow> (if result = RAMFS_RESULT_OK then console_write lsr (Some (''ok'' @ [CHR 0x0A])) s else print_ramfs_result lsr result s);
           Some (fs, s) });
         name = Some (arguments command ! 0) in
     case kind command of
       SHELL_COMMAND_HELP \<Rightarrow> say (\<lambda>s. do { s \<leftarrow> console_write lsr (Some shell_command_help) s; console_putc lsr (CHR 0x0A) s })
     | SHELL_COMMAND_CLEAR \<Rightarrow> say (\<lambda>s. Some (console_clear s))
     | SHELL_COMMAND_ECHO \<Rightarrow>
         (case join_arguments (Some command) 0 False (Some (l_text l)) SHELL_TEXT_CAPACITY True of
            None \<Rightarrow> say too_long
          | Some (t, text_length) \<Rightarrow> say (\<lambda>s. do { s \<leftarrow> console_write lsr (Some t) s; console_putc lsr (CHR 0x0A) s }))
     | SHELL_COMMAND_LS \<Rightarrow> say (execute_ls lsr (l_digits l) fs)
     | SHELL_COMMAND_CAT \<Rightarrow> say (execute_cat lsr (l_data l) (arguments command ! 0) fs)
     | SHELL_COMMAND_TOUCH \<Rightarrow> report (ramfs_create name fs)
     | SHELL_COMMAND_WRITE \<Rightarrow>
         (case join_arguments (Some command) 1 False (Some (l_text l)) SHELL_TEXT_CAPACITY True of
            None \<Rightarrow> say too_long
          | Some (t, text_length) \<Rightarrow> report (ramfs_write name (Some (map char_byte t)) text_length fs))
     | SHELL_COMMAND_APPEND \<Rightarrow>
         (let found = file_size (arguments command ! 0) fs \<noteq> None;
              existing_size = (case file_size (arguments command ! 0) fs of None \<Rightarrow> 0 | Some n \<Rightarrow> n) in
          case join_arguments (Some command) 1 (found \<and> existing_size \<noteq> 0) (Some (l_text l)) SHELL_TEXT_CAPACITY True of
            None \<Rightarrow> say too_long
          | Some (t, text_length) \<Rightarrow> report (ramfs_append name (Some (map char_byte t)) text_length fs))
     | SHELL_COMMAND_RM \<Rightarrow> report (ramfs_remove name fs)
     | SHELL_COMMAND_STATUS \<Rightarrow> say (print_status lsr (l_digits l) status)
     | SHELL_COMMAND_ABOUT \<Rightarrow> say (console_write lsr (Some
         (''TinyShell OS is an i386 teaching microkernel prototype. '' @ ''Shell and RAMFS currently run in Ring 0.'' @ [CHR 0x0A])))
     | SHELL_COMMAND_UNKNOWN \<Rightarrow> say (console_write lsr (Some (''error: unknown command'' @ [CHR 0x0A]))))"

section \<open>The shell\<close>

text \<open>\<open>output\<close>, \<open>editor\<close>, \<open>got\<close>, \<open>parsed\<close> and \<open>command\<close> are the locals of the three self-tests.\<close>

definition shell_runtime_init :: "u8 list \<Rightarrow> shell_line_editor \<Rightarrow> char list \<Rightarrow> shell_command \<Rightarrow> shell_command \<Rightarrow> runtime \<Rightarrow> bool \<times> runtime" where
  "shell_runtime_init output editor got parsed command r =
     (let r = r\<lparr>runtime_initialized := False, runtime_started := False\<rparr>;
          (ok, fs) = ramfs_self_test output (files r);
          r = r\<lparr>files := fs\<rparr> in
      if \<not> ok \<or> \<not> line_editor_self_test editor got \<or> \<not> parser_self_test parsed command then (False, r)
      else (True, r\<lparr>files := ramfs_init (files r), runtime_editor := the (shell_line_editor_init (Some (runtime_editor r))),
        runtime_initialized := True\<rparr>))"

definition shell_runtime_start :: "(nat \<Rightarrow> u8) \<Rightarrow> runtime \<Rightarrow> runtime option" where
  "shell_runtime_start lsr r =
     (if \<not> runtime_initialized r \<or> runtime_started r then Some r
      else do {
        let r = r\<lparr>runtime_started := True\<rparr>;
        s \<leftarrow> console_write lsr (Some (''TinyShell OS interactive shell (Ring 0)'' @ [CHR 0x0A])) (screen r);
        s \<leftarrow> print_prompt lsr s;
        Some (r\<lparr>screen := s\<rparr>)
      })"

definition shell_runtime_handle_char :: "(nat \<Rightarrow> u8) \<Rightarrow> shell_locals \<Rightarrow> system_status option \<Rightarrow> char \<Rightarrow> runtime \<Rightarrow> runtime option" where
  "shell_runtime_handle_char lsr l status character r =
     (if \<not> runtime_initialized r \<or> \<not> runtime_started r then Some r
      else
        let (event, e) = shell_line_editor_feed (Some (runtime_editor r)) character;
            r = r\<lparr>runtime_editor := the e\<rparr>;
            prompt_after = (\<lambda>p r. do { s \<leftarrow> p (screen r); s \<leftarrow> print_prompt lsr s; Some (r\<lparr>screen := s\<rparr>) }) in
        case event of
          SHELL_LINE_ECHO \<Rightarrow> do { s \<leftarrow> console_putc lsr character (screen r); Some (r\<lparr>screen := s\<rparr>) }
        | SHELL_LINE_ERASE \<Rightarrow> do { s \<leftarrow> console_putc lsr (CHR 0x08) (screen r); Some (r\<lparr>screen := s\<rparr>) }
        | SHELL_LINE_READY \<Rightarrow> do {
            s \<leftarrow> console_putc lsr (CHR 0x0A) (screen r);
            let r = r\<lparr>screen := s\<rparr>;
                (got, line, e) = shell_line_editor_take (Some (runtime_editor r)) (Some (l_line l)) 128 in
            if \<not> got then do {
              s \<leftarrow> console_write lsr (Some (''error: line unavailable'' @ [CHR 0x0A])) (screen r);
              let r = r\<lparr>screen := s, runtime_editor := the (shell_line_editor_init e)\<rparr> in
              prompt_after Some r }
            else
              let r = r\<lparr>runtime_editor := the e\<rparr>;
                  (parse_result, command) = shell_command_parse (l_parsed l) line (Some (l_command l)) in
              if parse_result = SHELL_PARSE_EMPTY then prompt_after Some r
              else if parse_result = SHELL_PARSE_TOO_MANY_ARGUMENTS then
                prompt_after (console_write lsr (Some (''error: too many arguments'' @ [CHR 0x0A]))) r
              else if parse_result = SHELL_PARSE_ARGUMENT_TOO_LONG then
                prompt_after (console_write lsr (Some (''error: argument too long'' @ [CHR 0x0A]))) r
              else if parse_result \<noteq> SHELL_PARSE_OK then
                prompt_after (console_write lsr (Some (''error: invalid command line'' @ [CHR 0x0A]))) r
              else if kind (the command) = SHELL_COMMAND_UNKNOWN then
                prompt_after (console_write lsr (Some (''error: unknown command'' @ [CHR 0x0A]))) r
              else if \<not> shell_command_has_valid_arity command then
                prompt_after (\<lambda>s. do {
                  s \<leftarrow> console_write lsr (Some ''error: usage: '') s;
                  s \<leftarrow> console_write lsr (shell_command_usage (kind (the command))) s;
                  console_putc lsr (CHR 0x0A) s }) r
              else do {
                (fs, s) \<leftarrow> execute_command lsr l status (the command) (files r, screen r);
                prompt_after Some (r\<lparr>files := fs, screen := s\<rparr>) } }
        | SHELL_LINE_NONE \<Rightarrow> Some r
        | SHELL_LINE_FULL \<Rightarrow> Some r)"

section \<open>The self-tests pass\<close>

lemma ramfs_wf_shape: "ramfs_wf fs \<Longrightarrow> ramfs_shape fs"
  by (simp add: ramfs_wf_def ramfs_shape_def slot_wf_def)

lemma ramfs_wf_validates: "ramfs_wf fs \<Longrightarrow> ramfs_validate fs"
  by (simp add: validate_iff ramfs_wf_shape)

lemma count_view: "ramfs_wf fs \<Longrightarrow> ramfs_count fs = of_nat (card (dom (ramfs_view fs)))"
  by (simp add: ramfs_count_def card_view) (simp add: ramfs_wf_def)

text \<open>An operation as its result and a state known by its files.\<close>

lemma ramfs_step_to:
  assumes "ramfs_wf fs" "file_op_ok x" "file_spec x (ramfs_view fs) = (r, m)"
  obtains fs' where "ramfs_step x fs = (r, fs')" "ramfs_wf fs'" "ramfs_view fs' = m"
  using ramfs_store.step_inv [OF assms(1,2)] ramfs_store.step_result [OF assms(1,2)] ramfs_store.step_view [OF assms(1,2)] assms(3) that
  by (metis fst_conv prod.collapse snd_conv)

lemma get_info_single:
  assumes wf: "ramfs_wf fs" and view: "ramfs_view fs = [w \<mapsto> bytes]"
  obtains nm size where "ramfs_get_info 0 True fs = Some (nm, size)" "c_str nm = w" "unat size = length bytes"
proof -
  note l = ramfs_listing_exact [OF wf]
  have "ramfs_count fs = 1" using count_view [OF wf] view by simp
  then have "ramfs_get_info 0 True fs \<noteq> None" using conjunct1 [OF l] by simp
  then obtain nm size where i: "ramfs_get_info 0 True fs = Some (nm, size)" by auto
  with conjunct1 [OF conjunct2 [OF l]] obtain b where "ramfs_view fs (c_str nm) = Some b" "unat size = length b" by blast
  with view that [OF i] show ?thesis by (simp split: if_splits)
qed

lemma append_too_large:
  assumes wf: "ramfs_wf fs" and v: "valid_name (c_str n)" and m: "ramfs_view fs (c_str n) = Some bytes"
    and big: "RAMFS_FILE_MAX_BYTES < length bytes + unat len"
  shows "ramfs_append (Some n) (Some d) len fs = (RAMFS_RESULT_TOO_LARGE, fs)"
proof -
  obtain i where f: "find_slot n fs = Some i"
    using find_slot_view(1) [OF wf valid_name_length [OF v]] m by fastforce
  let ?s = "slots fs ! i"
  have "slot_wf ?s" "alive ?s" using find_slot_Some [OF wf f] by metis+
  then have sl: "unat (slot_length ?s) \<le> length (slot_data ?s)" "unat (slot_length ?s) \<le> RAMFS_FILE_MAX_BYTES" by (simp_all add: slot_wf_def slot_shape_def)
  have "length bytes = unat (slot_length ?s)" using find_slot_view(2) [OF wf valid_name_length [OF v] f] m sl by simp
  moreover have "unat (of_nat RAMFS_FILE_MAX_BYTES - slot_length ?s) = RAMFS_FILE_MAX_BYTES - unat (slot_length ?s)"
    using sl(2) by (simp add: unat_sub_no_wrap word_le_nat_alt)
  ultimately have "of_nat RAMFS_FILE_MAX_BYTES - slot_length ?s < len" using big sl(2) by (simp add: word_less_nat_alt)
  then show ?thesis using f v by (simp add: ramfs_append_def name_is_valid_iff Let_def)
qed

lemma read_too_large:
  assumes wf: "ramfs_wf fs" and v: "valid_name (c_str n)" and m: "ramfs_view fs (c_str n) = Some bytes"
    and big: "unat capacity < length bytes"
  shows "ramfs_read (Some n) (Some d) capacity True fs = (RAMFS_RESULT_TOO_LARGE, Some d, None)"
proof -
  obtain i where f: "find_slot n fs = Some i"
    using find_slot_view(1) [OF wf valid_name_length [OF v]] m by fastforce
  have "length bytes \<le> unat (slot_length (slots fs ! i))" using find_slot_view(2) [OF wf valid_name_length [OF v] f] m by simp
  then show ?thesis using f v big by (simp add: ramfs_read_def name_is_valid_iff Let_def word_less_nat_alt)
qed

lemma test_names: "valid_name ''self-test''" "c_str ''self-test'' = ''self-test''" "\<not> valid_name ''bad/name''" "c_str ''bad/name'' = ''bad/name''"
  by code_simp+

lemma ramfs_self_test_passes:
  assumes "ramfs_shape fs" "length output = 4"
  obtains fs' where "ramfs_self_test output fs = (True, fs')" "ramfs_wf fs'"
proof -
  let ?N = "''self-test''"
  let ?abc = "map char_byte ''abc''" and ?d = "map char_byte ''d''" and ?abcd = "map char_byte ''abcd''"
  define fs0 where "fs0 = ramfs_init fs"
  have 0: "ramfs_wf fs0" "ramfs_view fs0 = Map.empty" unfolding fs0_def by (rule ramfs_init_clean [OF assms(1)])+
  obtain fs1 where 1: "ramfs_create (Some ?N) fs0 = (RAMFS_RESULT_OK, fs1)" "ramfs_wf fs1" "ramfs_view fs1 = [?N \<mapsto> []]"
    by (rule ramfs_step_to [OF 0(1), of "Create_File (Some ?N)" RAMFS_RESULT_OK "[?N \<mapsto> []]"]) (simp_all add: 0(2) test_names Let_def)
  obtain fs2 where 2: "ramfs_create (Some ?N) fs1 = (RAMFS_RESULT_ALREADY_EXISTS, fs2)" "ramfs_wf fs2" "ramfs_view fs2 = [?N \<mapsto> []]"
    by (rule ramfs_step_to [OF 1(2), of "Create_File (Some ?N)" RAMFS_RESULT_ALREADY_EXISTS "[?N \<mapsto> []]"]) (simp_all add: 1(3) test_names Let_def)
  obtain fs3 where 3: "ramfs_create (Some ''bad/name'') fs2 = (RAMFS_RESULT_INVALID_NAME, fs3)" "ramfs_wf fs3" "ramfs_view fs3 = [?N \<mapsto> []]"
    by (rule ramfs_step_to [OF 2(2), of "Create_File (Some ''bad/name'')" RAMFS_RESULT_INVALID_NAME "[?N \<mapsto> []]"]) (simp_all add: 2(3) test_names Let_def)
  obtain fs4 where 4: "ramfs_write (Some ?N) (Some ?abc) 3 fs3 = (RAMFS_RESULT_OK, fs4)" "ramfs_wf fs4" "ramfs_view fs4 = [?N \<mapsto> ?abc]"
    by (rule ramfs_step_to [OF 3(2), of "Write_File (Some ?N) (Some ?abc) 3" RAMFS_RESULT_OK "[?N \<mapsto> ?abc]"])
      (simp_all add: 3(3) test_names Let_def bytes_of_def)
  obtain fs5 where 5: "ramfs_append (Some ?N) (Some ?d) 1 fs4 = (RAMFS_RESULT_OK, fs5)" "ramfs_wf fs5" "ramfs_view fs5 = [?N \<mapsto> ?abcd]"
    by (rule ramfs_step_to [OF 4(2), of "Append_File (Some ?N) (Some ?d) 1" RAMFS_RESULT_OK "[?N \<mapsto> ?abcd]"])
      (simp_all add: 4(3) test_names Let_def bytes_of_def)
  obtain nm size where info: "ramfs_get_info 0 True fs5 = Some (nm, size)" "c_str nm = ?N" "unat size = length ?abcd"
    by (rule get_info_single [OF 5(2,3)])
  have size: "size = 4" using info(3) by (simp add: word_unat_eq_iff)
  have short: "ramfs_read (Some ?N) (Some out) 3 True fs5 = (RAMFS_RESULT_TOO_LARGE, Some out, None)" for out
    using read_too_large [OF 5(2), of ?N ?abcd 3 out] by (simp add: test_names 5(3))
  have big: "ramfs_append (Some ?N) (Some ?d) 509 fs5 = (RAMFS_RESULT_TOO_LARGE, fs5)"
    using append_too_large [OF 5(2), of ?N ?abcd 509 ?d] by (simp add: test_names 5(3))
  have rd: "ramfs_read (Some ?N) (Some out) 4 True fs5 = (RAMFS_RESULT_OK, Some (?abcd @ drop 4 out), Some 4)" if "length out = 4" for out
    using read_file [OF 5(2), of ?N ?abcd 4 out] that by (simp add: test_names 5(3))
  obtain fs6 where 6: "ramfs_remove (Some ?N) fs5 = (RAMFS_RESULT_OK, fs6)" "ramfs_wf fs6" "ramfs_view fs6 = Map.empty"
    by (rule ramfs_step_to [OF 5(2), of "Remove_File (Some ?N)" RAMFS_RESULT_OK Map.empty]) (simp_all add: 5(3) test_names Let_def)
  have counts: "ramfs_count fs0 = 0" "ramfs_count fs5 = 1" "ramfs_count fs6 = 0"
    using count_view [OF 0(1)] count_view [OF 5(2)] count_view [OF 6(2)] by (simp_all add: 0(2) 5(3) 6(3))
  note ok = ramfs_wf_validates [OF 0(1)] ramfs_wf_validates [OF 5(2)] ramfs_wf_validates [OF 6(2)]
  have "ramfs_self_test output fs = (True, fs6)"
    using 1(1) 2(1) 3(1) 4(1) 5(1) 6(1) info(1,2) size short big rd assms(2) counts ok
    by (simp add: ramfs_self_test_def fs0_def [symmetric] Let_def holds_def returns_def strings_equal_iff test_names bytes_equal_def find_None_iff)
  then show ?thesis using that 6(2) by blast
qed

lemma le_feed_to:
  assumes "le_wf e" "line_spec c (le_view e) = (ev, v)"
  obtains e' where "shell_line_editor_feed (Some e) c = (ev, Some e')" "le_wf e'" "le_view e' = v"
  using le_feed_refines [OF assms(1), of c] assms(2) that by (metis fst_conv prod.collapse snd_conv)

lemma le_empty: "le_wf e \<Longrightarrow> le_view e = ([], r, n) \<Longrightarrow> line_length e = 0 \<and> ready e = r \<and> overflow_count e = n"
  using le_length [of e] by (auto simp: le_view_def unat_eq_zero)

lemma feed_many:
  assumes "le_wf e" "le_view e = (t, False, k)" "length t + n \<le> SHELL_LINE_MAX" "is_printable_ascii c"
  obtains e' where "run_tests (replicate n (returns (\<lambda>(e, out). case shell_line_editor_feed e c of (ev, e) \<Rightarrow> (ev, e, out)) SHELL_LINE_ECHO)) (Some e, out) =
      (True, Some e', out)" "le_wf e'" "le_view e' = (t @ replicate n c, False, k)"
  using assms
proof (induction n arbitrary: e t thesis)
  case 0
  then show ?case by simp
next
  case (Suc n)
  have c: "c \<noteq> CHR 0x08" "c \<noteq> CHR 0x0A" "c \<noteq> CHR 0x0D" using Suc.prems(5) by (auto simp: is_printable_ascii_def)
  have "line_spec c (le_view e) = (SHELL_LINE_ECHO, t @ [c], False, k)" using Suc.prems(3,4,5) c by (simp add: line_spec_def)
  from le_feed_to [OF Suc.prems(2) this] obtain e1 where
    e1: "shell_line_editor_feed (Some e) c = (SHELL_LINE_ECHO, Some e1)" "le_wf e1" "le_view e1 = (t @ [c], False, k)" by blast
  have one: "returns (\<lambda>(e, out). case shell_line_editor_feed e c of (ev, e) \<Rightarrow> (ev, e, out)) SHELL_LINE_ECHO (Some e, out) = (True, Some e1, out)"
    by (simp add: returns_def e1(1))
  show ?case
  proof (rule Suc.IH [OF _ e1(2,3)])
    fix e' assume e': "run_tests (replicate n (returns (\<lambda>(e, out). case shell_line_editor_feed e c of (ev, e) \<Rightarrow> (ev, e, out)) SHELL_LINE_ECHO)) (Some e1, out) =
      (True, Some e', out)" "le_wf e'" "le_view e' = ((t @ [c]) @ replicate n c, False, k)"
    show thesis by (rule Suc.prems(1) [of e']) (use e' one in simp_all)
  qed (use Suc.prems in simp_all)
qed

lemma printable_letters: "is_printable_ascii CHR ''a''" "is_printable_ascii CHR ''b''" "is_printable_ascii CHR ''x''" "is_printable_ascii CHR ''y''"
  by code_simp+

lemma line_editor_self_test_passes:
  assumes "length (buffer editor) = SHELL_LINE_MAX + 1" "length output = 128"
  shows "line_editor_self_test editor output"
proof -
  let ?feed = "\<lambda>c (e, out). case shell_line_editor_feed e c of (ev, e) \<Rightarrow> (ev, e, out)"
  let ?take = "\<lambda>capacity (e, out). case shell_line_editor_take e (Some out) capacity of (ok, out', e) \<Rightarrow> (ok, e, the out')"
  note spec = line_spec_def printable_letters
  obtain e0 where 0: "shell_line_editor_init (Some editor) = Some e0" "le_wf e0" "le_view e0 = ([], False, 0)" using le_init [OF assms(1)] .
  obtain e1 where 1: "shell_line_editor_feed (Some e0) CHR ''a'' = (SHELL_LINE_ECHO, Some e1)" "le_wf e1" "le_view e1 = (''a'', False, 0)"
    by (rule le_feed_to [OF 0(2), of "CHR ''a''" SHELL_LINE_ECHO]) (simp_all add: 0(3) spec)
  obtain e2 where 2: "shell_line_editor_feed (Some e1) CHR ''b'' = (SHELL_LINE_ECHO, Some e2)" "le_wf e2" "le_view e2 = (''ab'', False, 0)"
    by (rule le_feed_to [OF 1(2), of "CHR ''b''" SHELL_LINE_ECHO]) (simp_all add: 1(3) spec)
  obtain e3 where 3: "shell_line_editor_feed (Some e2) (CHR 0x08) = (SHELL_LINE_ERASE, Some e3)" "le_wf e3" "le_view e3 = (''a'', False, 0)"
    by (rule le_feed_to [OF 2(2), of "CHR 0x08" SHELL_LINE_ERASE]) (simp_all add: 2(3) spec)
  obtain e4 where 4: "shell_line_editor_feed (Some e3) (CHR 0x0A) = (SHELL_LINE_READY, Some e4)" "le_wf e4" "le_view e4 = (''a'', True, 0)"
    by (rule le_feed_to [OF 3(2), of "CHR 0x0A" SHELL_LINE_READY]) (simp_all add: 3(3) spec)
  obtain e5 where 5: "shell_line_editor_feed (Some e4) CHR ''x'' = (SHELL_LINE_NONE, Some e5)" "le_wf e5" "le_view e5 = (''a'', True, 0)"
    by (rule le_feed_to [OF 4(2), of "CHR ''x''" SHELL_LINE_NONE]) (simp_all add: 4(3) spec)
  have v5: "le_text e5 = ''a''" "ready e5" "overflow_count e5 = 0" using 5(3) by (simp_all add: le_view_def)
  have t1: "shell_line_editor_take (Some e5) (Some output) 1 = (False, Some output, Some e5)"
    using line_editor_take_exact [OF 5(2), of 1 "output"] assms(2) v5 by simp
  define e6 out where "e6 = clear_line_buffer e5" and "out = ''a'' @ NUL # drop (length ''a'' + 1) output"
  have t2: "shell_line_editor_take (Some e5) (Some output) 128 = (True, Some out, Some e6)" and 6: "le_wf e6" "le_view e6 = ([], False, 0)"
    using line_editor_take_exact [OF 5(2), of 128 "output"] assms(2) v5 by (simp_all add: e6_def out_def)
  have out: "length out = 128" "c_str out = ''a''" using assms(2) by (simp_all add: out_def) (simp add: c_str_def)
  obtain e7 where 7: "run_tests (replicate SHELL_LINE_MAX (returns (?feed CHR ''x'') SHELL_LINE_ECHO)) (Some e6, out) = (True, Some e7, out)"
    "le_wf e7" "le_view e7 = (replicate SHELL_LINE_MAX CHR ''x'', False, 0)"
    by (rule feed_many [OF 6, of SHELL_LINE_MAX "CHR ''x''" out]) (simp_all add: printable_letters del: replicate.simps)
  obtain e8 where 8: "shell_line_editor_feed (Some e7) CHR ''y'' = (SHELL_LINE_FULL, Some e8)" "le_wf e8" "le_view e8 = (replicate SHELL_LINE_MAX CHR ''x'', False, 1)"
    by (rule le_feed_to [OF 7(2), of "CHR ''y''" SHELL_LINE_FULL]) (simp_all add: 7(3) spec del: replicate.simps)
  obtain e9 where 9: "shell_line_editor_feed (Some e8) (CHR 0x0D) = (SHELL_LINE_READY, Some e9)" "le_wf e9" "le_view e9 = (replicate SHELL_LINE_MAX CHR ''x'', True, 1)"
    by (rule le_feed_to [OF 8(2), of "CHR 0x0D" SHELL_LINE_READY]) (simp_all add: 8(3) spec del: replicate.simps)
  define e10 out' where "e10 = clear_line_buffer e9" and "out' = replicate SHELL_LINE_MAX CHR ''x'' @ NUL # drop 128 out"
  have v9: "le_text e9 = replicate SHELL_LINE_MAX CHR ''x''" "ready e9" "overflow_count e9 = 1" using 9(3) by (simp_all add: le_view_def del: replicate.simps)
  have t3: "shell_line_editor_take (Some e9) (Some out) 128 = (True, Some out', Some e10)" and 10: "le_wf e10" "le_view e10 = ([], False, 1)"
    using line_editor_take_exact [OF 9(2), of 128 out] out v9 by (simp_all add: e10_def out'_def del: replicate.simps)
  have last: "out' ! SHELL_LINE_MAX = NUL" by (simp add: out'_def nth_append del: replicate.simps)
  have o8: "overflow_count e8 = 1" using 8(3) by (simp add: le_view_def)
  note le_empty [OF 0(2,3)] le_empty [OF 10]
  then show ?thesis
    using 0(1) 1(1) 2(1) 3(1) 4(1) 5(1) t1 t2 7(1) 8(1) 9(1) t3 out(2) last o8
    by (simp add: line_editor_self_test_def Let_def holds_def returns_def run_tests_append strings_equal_iff shell_line_editor_overflow_count_def
        c_str_def del: replicate.simps)
qed

lemma test_lines:
  "NUL \<notin> set (''  write'' @ [CHR 0x09] @ ''note  hello world '')"
  "cmd_words (''  write'' @ [CHR 0x09] @ ''note  hello world '') = [''write'', ''note'', ''hello'', ''world'']"
  "NUL \<notin> set ''nosuch''" "cmd_words ''nosuch'' = [''nosuch'']"
  "NUL \<notin> set [CHR '' '', CHR 0x09, CHR '' '']" "cmd_words [CHR '' '', CHR 0x09, CHR '' ''] = []"
  by code_simp+

lemma parse_test_lines:
  "parse_spec (''  write'' @ [CHR 0x09] @ ''note  hello world '') = Inr (command_of_words ''write'' [''note'', ''hello'', ''world''])"
  "parse_spec ''nosuch'' = Inr (command_of_words ''nosuch'' [])"
  "parse_spec [CHR '' '', CHR 0x09, CHR '' ''] = Inl SHELL_PARSE_EMPTY"
  unfolding parse_spec_def test_lines by simp_all

lemma parsed_test_words:
  "kind (command_of_words ''write'' [''note'', ''hello'', ''world'']) = SHELL_COMMAND_WRITE"
  "argument_count (command_of_words ''write'' [''note'', ''hello'', ''world'']) = 3"
  "strings_equal (cmd_name (command_of_words ''write'' [''note'', ''hello'', ''world''])) ''write''"
  "strings_equal (arguments (command_of_words ''write'' [''note'', ''hello'', ''world'']) ! 0) ''note''"
  "strings_equal (arguments (command_of_words ''write'' [''note'', ''hello'', ''world'']) ! 1) ''hello''"
  "strings_equal (arguments (command_of_words ''write'' [''note'', ''hello'', ''world'']) ! 2) ''world''"
  "shell_command_has_valid_arity (Some (command_of_words ''write'' [''note'', ''hello'', ''world'']))"
  "kind (command_of_words ''nosuch'' []) = SHELL_COMMAND_UNKNOWN"
  "\<not> shell_command_has_valid_arity (Some (command_of_words ''nosuch'' []))"
  by code_simp+

lemma parser_self_test_passes:
  assumes "command_shape parsed"
  shows "parser_self_test parsed command"
proof -
  have "shell_command_parse parsed (Some (''  write'' @ [CHR 0x09] @ ''note  hello world '')) (Some c) =
      (SHELL_PARSE_OK, Some (command_of_words ''write'' [''note'', ''hello'', ''world'']))"
    "shell_command_parse parsed (Some ''nosuch'') (Some c) = (SHELL_PARSE_OK, Some (command_of_words ''nosuch'' []))"
    "shell_command_parse parsed (Some [CHR '' '', CHR 0x09, CHR '' '']) (Some c) = (SHELL_PARSE_EMPTY, Some c)" for c
    by (subst parse_text [OF _ assms]; simp only: test_lines parse_test_lines sum.case not_False_eq_True)+
  then show ?thesis
    unfolding parser_self_test_def Let_def holds_def returns_def
    by (simp only: run_tests.simps prod.case option.sel parsed_test_words if_True fst_conv option.distinct shell_command_usage.simps
        simp_thms not_False_eq_True)
qed

lemma runtime_init_passes:
  assumes "ramfs_shape (files r)" "length output = 4" "length (buffer editor) = SHELL_LINE_MAX + 1" "length got = 128" "command_shape parsed"
    and "length (buffer (runtime_editor r)) = SHELL_LINE_MAX + 1"
  obtains r' where "shell_runtime_init output editor got parsed command r = (True, r')" "ramfs_wf (files r')" "ramfs_view (files r') = Map.empty"
    "le_wf (runtime_editor r')" "le_view (runtime_editor r') = ([], False, 0)" "runtime_initialized r'" "\<not> runtime_started r'" "screen r' = screen r"
proof -
  obtain fs where fs: "ramfs_self_test output (files r) = (True, fs)" "ramfs_wf fs" by (rule ramfs_self_test_passes [OF assms(1,2)])
  obtain e where e: "shell_line_editor_init (Some (runtime_editor r)) = Some e" "le_wf e" "le_view e = ([], False, 0)" using le_init [OF assms(6)] .
  note clean = ramfs_init_clean [OF ramfs_wf_shape [OF fs(2)]]
  show ?thesis
    by (rule that [of "r\<lparr>files := ramfs_init fs, runtime_editor := e, runtime_initialized := True, runtime_started := False\<rparr>"])
      (use fs(1) e clean line_editor_self_test_passes [OF assms(3,4)] parser_self_test_passes [OF assms(5)] in
        \<open>simp_all add: shell_runtime_init_def Let_def\<close>)
qed

section \<open>Properties\<close>

definition example_runtime :: runtime where
  "example_runtime = \<lparr>files = example_ramfs, screen = \<lparr>vga_buffer = replicate 2000 0, vga_row = 7, vga_column = 99, uart = \<lparr>status_reads = 0, thr_empty = False, lost_bytes = 0, serial_ports = []\<rparr>\<rparr>,
     runtime_editor = example_editor, runtime_initialized = False, runtime_started = True\<rparr>"

text \<open>
  The shell always comes up: whatever the file system, the editor and the uninitialised locals of the self-tests
  hold, all three self-tests pass, and the shell starts with no file, a file system that
  validates, an empty line and nothing printed.
\<close>

lemma shell_runtime_init_passes:
  assumes "ramfs_shape (files r)" "length output = 4" "length (buffer editor) = SHELL_LINE_MAX + 1" "length got = 128" "command_shape parsed"
    and "length (buffer (runtime_editor r)) = SHELL_LINE_MAX + 1"
  shows "\<exists>r'. shell_runtime_init output editor got parsed command r = (True, r') \<and> ramfs_view (files r') = Map.empty \<and> ramfs_validate (files r') \<and>
    ramfs_count (files r') = 0 \<and> c_str (buffer (runtime_editor r')) = [] \<and> \<not> ready (runtime_editor r') \<and>
    runtime_initialized r' \<and> \<not> runtime_started r' \<and> screen r' = screen r"
proof -
  obtain r' where r': "shell_runtime_init output editor got parsed command r = (True, r')" "ramfs_wf (files r')" "ramfs_view (files r') = Map.empty"
    "le_wf (runtime_editor r')" "le_view (runtime_editor r') = ([], False, 0)" "runtime_initialized r'" "\<not> runtime_started r'" "screen r' = screen r"
    by (rule runtime_init_passes [OF assms])
  then show ?thesis
    using ramfs_wf_validates [OF r'(2)] count_view [OF r'(2)] le_buffer_text [OF r'(4)] by (auto simp: le_view_def)
qed

theorem shell_runtime_init_passes_witness:
  "\<exists>r'. shell_runtime_init [1, 2, 3, 4] example_editor (replicate 128 CHR ''q'') example_command example_command example_runtime = (True, r') \<and> runtime_initialized r'"
proof -
  have sh: "ramfs_shape (files example_runtime)" using example_ramfs_shape by (simp add: example_runtime_def)
  have len: "length [1, 2, 3, 4 :: u8] = 4" "length (buffer example_editor) = SHELL_LINE_MAX + 1" "length (replicate 128 CHR ''q'') = 128"
    "command_shape example_command" "length (buffer (runtime_editor example_runtime)) = SHELL_LINE_MAX + 1"
    by (simp_all add: example_editor_def example_command_def command_shape_def example_runtime_def)
  show ?thesis using shell_runtime_init_passes [OF sh len, of example_command] by blast
qed

end
