(* ===== verification/Shell_Session.thy ===== *)
theory Shell_Session
  imports Runtime
begin

text \<open>
  A session with the shell, specified over lines of text, words, a map of files and a terminal, and
  the proof that \<open>kernel/shell/runtime.c\<close> implements it on top of the line editor, the parser, the
  file system and the console. The order of a listing is not specified.
\<close>

section \<open>The specification\<close>

abbreviation newline :: string where "newline \<equiv> [CHR 0x0A]"

datatype answer = Say string | Wipe

fun show_answer :: "answer \<Rightarrow> terminal \<Rightarrow> terminal" where
  "show_answer (Say cs) t = fold term_putc cs t"
| "show_answer Wipe t = term_clear t"

fun result_text :: "ramfs_result \<Rightarrow> string" where
  "result_text RAMFS_RESULT_OK = ''ok'' @ newline"
| "result_text RAMFS_RESULT_INVALID_ARGUMENT = ''error: invalid argument'' @ newline"
| "result_text RAMFS_RESULT_INVALID_NAME = ''error: invalid name'' @ newline"
| "result_text RAMFS_RESULT_NOT_FOUND = ''error: file not found'' @ newline"
| "result_text RAMFS_RESULT_ALREADY_EXISTS = ''error: file exists'' @ newline"
| "result_text RAMFS_RESULT_NO_SPACE = ''error: ramfs full'' @ newline"
| "result_text RAMFS_RESULT_TOO_LARGE = ''error: file too large'' @ newline"

definition field :: "string \<Rightarrow> u32 \<Rightarrow> string" where
  "field name v = name @ decimal (unat v)"

text \<open>The report of the \<open>status\<close> command, from the counters of the components.\<close>

definition status_report :: "u32 \<Rightarrow> 'w observed \<Rightarrow> string" where
  "status_report arena k = (case inspect_heap arena (seen_heap k) of None \<Rightarrow> ''error: status unavailable'' @ newline
   | Some h \<Rightarrow>
       field ''PMM pages: free='' (free_pages (seen_pmm k)) @ field '' total='' (total_pages (seen_pmm k)) @ newline @
       field ''Heap bytes: free='' (free_bytes h) @ field '' total='' (total_bytes h) @
       field '' largest='' (largest_free_block h) @ field '' blocks='' (allocated_blocks h) @ newline @
       field ''Timer: ticks='' (tick_count (seen_pit k)) @ field '' irq0='' (counts (seen_irq k) ! 0) @ newline @
       field ''Keyboard: dropped='' (dropped_characters (seen_keyboard k)) @ newline @
       field ''Tasks: switches='' (switch_count (seen_tasks k)) @ field '' finished='' (finished_count (seen_tasks k)) @ newline)"

text \<open>The files in some order.\<close>

definition listing_order :: "file_map \<Rightarrow> string list \<Rightarrow> bool" where
  "listing_order m order \<longleftrightarrow> distinct order \<and> set order = dom m"

definition ls_line :: "file_map \<Rightarrow> string \<Rightarrow> string" where
  "ls_line m w = w @ '' '' @ decimal (length (the (m w))) @ newline"

definition ls_text :: "file_map \<Rightarrow> string list \<Rightarrow> string" where
  "ls_text m order = (if order = [] then ''(empty)'' @ newline else concat (map (ls_line m) order))"

definition cat_text :: "file_map \<Rightarrow> string \<Rightarrow> string" where
  "cat_text m w = (if \<not> valid_name w then result_text RAMFS_RESULT_INVALID_NAME
     else case m w of None \<Rightarrow> result_text RAMFS_RESULT_NOT_FOUND | Some bytes \<Rightarrow> map (char_of \<circ> unat) bytes @ newline)"

definition change :: "file_op \<Rightarrow> file_map \<Rightarrow> answer \<times> file_map" where
  "change x m = (case file_spec x m of (r, m') \<Rightarrow> (Say (result_text r), m'))"

definition text_op :: "(string option \<Rightarrow> u8 list option \<Rightarrow> u32 \<Rightarrow> file_op) \<Rightarrow> string \<Rightarrow> string \<Rightarrow> file_op" where
  "text_op f w t = f (Some w) (Some (map char_byte t)) (of_nat (length t))"

text \<open>Text appended to a file that is not empty is separated from its contents by a space.\<close>

definition separator :: "file_map \<Rightarrow> string \<Rightarrow> string" where
  "separator m w = (case m w of None \<Rightarrow> [] | Some bytes \<Rightarrow> if bytes = [] then [] else '' '')"

fun command_spec :: "string \<Rightarrow> string list \<Rightarrow> shell_command_kind \<Rightarrow> string list \<Rightarrow> file_map \<Rightarrow> answer \<times> file_map" where
  "command_spec report order SHELL_COMMAND_HELP ws m = (Say (shell_command_help @ newline), m)"
| "command_spec report order SHELL_COMMAND_CLEAR ws m = (Wipe, m)"
| "command_spec report order SHELL_COMMAND_ECHO ws m = (Say (join_words ws @ newline), m)"
| "command_spec report order SHELL_COMMAND_LS ws m = (Say (ls_text m order), m)"
| "command_spec report order SHELL_COMMAND_CAT ws m = (Say (cat_text m (ws ! 0)), m)"
| "command_spec report order SHELL_COMMAND_TOUCH ws m = change (Create_File (Some (ws ! 0))) m"
| "command_spec report order SHELL_COMMAND_WRITE ws m = change (text_op Write_File (ws ! 0) (join_words (drop 1 ws))) m"
| "command_spec report order SHELL_COMMAND_APPEND ws m = change (text_op Append_File (ws ! 0) (separator m (ws ! 0) @ join_words (drop 1 ws))) m"
| "command_spec report order SHELL_COMMAND_RM ws m = change (Remove_File (Some (ws ! 0))) m"
| "command_spec report order SHELL_COMMAND_STATUS ws m = (Say report, m)"
| "command_spec report order SHELL_COMMAND_ABOUT ws m =
     (Say (''TinyShell OS is an i386 teaching microkernel prototype. '' @ ''Shell and RAMFS currently run in Ring 0.'' @ newline), m)"
| "command_spec report order SHELL_COMMAND_UNKNOWN ws m = (Say (''error: unknown command'' @ newline), m)"

fun arity_ok :: "shell_command_kind \<Rightarrow> nat \<Rightarrow> bool" where
  "arity_ok SHELL_COMMAND_ECHO n \<longleftrightarrow> n \<le> 8"
| "arity_ok SHELL_COMMAND_WRITE n \<longleftrightarrow> 2 \<le> n \<and> n \<le> 8"
| "arity_ok SHELL_COMMAND_APPEND n \<longleftrightarrow> 2 \<le> n \<and> n \<le> 8"
| "arity_ok SHELL_COMMAND_CAT n \<longleftrightarrow> n = 1"
| "arity_ok SHELL_COMMAND_TOUCH n \<longleftrightarrow> n = 1"
| "arity_ok SHELL_COMMAND_RM n \<longleftrightarrow> n = 1"
| "arity_ok SHELL_COMMAND_UNKNOWN n \<longleftrightarrow> False"
| "arity_ok _ n \<longleftrightarrow> n = 0"

definition line_answer :: "string \<Rightarrow> string list \<Rightarrow> string \<Rightarrow> file_map \<Rightarrow> answer \<times> file_map" where
  "line_answer report order t m = (case cmd_words t of
     [] \<Rightarrow> (Say [], m)
   | w # ws \<Rightarrow>
       if \<exists>x \<in> set (take 9 (w # ws)). length x > 31 then (Say (''error: argument too long'' @ newline), m)
       else if length ws > 8 then (Say (''error: too many arguments'' @ newline), m)
       else if kind_of_word w = SHELL_COMMAND_UNKNOWN then (Say (''error: unknown command'' @ newline), m)
       else if \<not> arity_ok (kind_of_word w) (length ws)
         then (Say (''error: usage: '' @ the (shell_command_usage (kind_of_word w)) @ newline), m)
       else command_spec report order (kind_of_word w) ws m)"

text \<open>The state of a session: the line typed so far, the files and the terminal.\<close>

type_synonym session = "string \<times> file_map \<times> terminal"

definition prompt :: string where "prompt = ''tiny> ''"

definition key_spec :: "string \<Rightarrow> string list \<Rightarrow> char \<Rightarrow> session \<Rightarrow> session" where
  "key_spec report order c = (\<lambda>(t, m, d).
     if c = CHR 0x08 then (if t = [] then (t, m, d) else (butlast t, m, term_putc c d))
     else if c = CHR 0x0A \<or> c = CHR 0x0D then
       (case line_answer report order t m of (a, m') \<Rightarrow> ([], m', fold term_putc prompt (show_answer a (term_putc (CHR 0x0A) d))))
     else if \<not> is_printable_ascii c \<or> length t = 127 then (t, m, d)
     else (t @ [c], m, term_putc c d))"

inductive shell_session :: "(char \<times> string) list \<Rightarrow> session \<Rightarrow> session \<Rightarrow> bool" where
  session_end: "shell_session [] v v"
| session_key: "listing_order (fst (snd v)) order \<Longrightarrow> shell_session keys (key_spec report order c v) v' \<Longrightarrow> shell_session ((c, report) # keys) v v'"

section \<open>Joined arguments\<close>

text \<open>The buffer holds the text, terminated.\<close>

definition joined :: "string \<Rightarrow> char list \<times> u32 \<Rightarrow> bool" where
  "joined cs = (\<lambda>(d, n). length d = 256 \<and> length cs < 256 \<and> n = of_nat (length cs) \<and> take (length cs) d = cs \<and> d ! length cs = NUL)"

lemma buffer_append_joined:
  assumes "joined cs b" "length cs < 255"
  obtains b' where "buffer_append_char SHELL_TEXT_CAPACITY c b = (True, b')" "joined (cs @ [c]) b'"
proof -
  obtain d n where b: "b = (d, n)" by (cases b)
  have j: "length d = 256" "n = of_nat (length cs)" "take (length cs) d = cs" using assms(1) by (simp_all add: joined_def b)
  have n: "unat n = length cs" "unat (n + 1) = length cs + 1" using j(2) assms(2) by (simp_all add: unat_word_of_nat_small unat_add_no_wrap)
  have "\<not> SHELL_TEXT_CAPACITY \<le> n + 1" using n assms(2) by (simp add: word_le_nat_alt)
  then have "buffer_append_char SHELL_TEXT_CAPACITY c b = (True, (d[length cs := c])[length cs + 1 := NUL], n + 1)"
    by (simp add: buffer_append_char_def b n Let_def)
  moreover have "joined (cs @ [c]) ((d[length cs := c])[length cs + 1 := NUL], n + 1)"
    using j assms(2) by (simp add: joined_def take_Suc_conv_app_nth nth_list_update)
  ultimately show ?thesis by (rule that)
qed

lemma append_word_joined:
  assumes "joined cs b" "length cs + length (c_str s) < 256"
  obtains b' where "append_word SHELL_TEXT_CAPACITY s b = (True, b')" "joined (cs @ c_str s) b'"
  using assms
proof (induction s arbitrary: cs b thesis)
  case Nil
  then show ?case by (simp add: c_str_def)
next
  case (Cons c s)
  show ?case
  proof (cases "c = NUL")
    case True
    then show ?thesis using Cons.prems(1) [of b] Cons.prems(2) by (simp add: c_str_def)
  next
    case False
    then have cs: "c_str (c # s) = c # c_str s" by (simp add: c_str_def)
    obtain b1 where b1: "buffer_append_char SHELL_TEXT_CAPACITY c b = (True, b1)" "joined (cs @ [c]) b1"
      by (rule buffer_append_joined [OF Cons.prems(2)]) (use Cons.prems(3) cs in simp)
    show ?thesis
    proof (rule Cons.IH [OF _ b1(2)])
      fix b' assume "append_word SHELL_TEXT_CAPACITY s b1 = (True, b')" "joined ((cs @ [c]) @ c_str s) b'"
      then show thesis using Cons.prems(1) [of b'] b1(1) False cs by simp
    qed (use Cons.prems(3) cs in simp)
  qed
qed

lemma join_words_Cons: "join_words (w # ws) = w @ concat (map ((#) (CHR '' '')) ws)"
  by (induction ws arbitrary: w) simp_all

lemma append_rest_joined:
  assumes "joined cs b" "first < i" "i \<le> n" "n = length ws" "\<forall>k < n. c_str (arguments command ! k) = ws ! k"
    and "length cs + length (concat (map ((#) (CHR '' '')) (drop i ws))) < 256"
  obtains b' where "append_arguments command SHELL_TEXT_CAPACITY first [i..<n] b = (True, b')"
    "joined (cs @ concat (map ((#) (CHR '' '')) (drop i ws))) b'"
  using assms(1,2,3,6)
proof (induction "n - i" arbitrary: i cs b thesis)
  case 0
  then show ?case using assms(4) by simp
next
  case (Suc k)
  then have i: "i < n" by simp
  have up: "[i..<n] = i # [Suc i..<n]" using i by (simp add: upt_conv_Cons)
  have dr: "drop i ws = ws ! i # drop (Suc i) ws" using i assms(4) by (simp add: Cons_nth_drop_Suc)
  have w: "c_str (arguments command ! i) = ws ! i" using i assms(5) by simp
  have room: "length cs + 1 + length (ws ! i) + length (concat (map ((#) (CHR '' '')) (drop (Suc i) ws))) < 256" using Suc.prems(5) dr by simp
  obtain b1 where b1: "buffer_append_char SHELL_TEXT_CAPACITY CHR '' '' b = (True, b1)" "joined (cs @ '' '') b1"
    by (rule buffer_append_joined [OF Suc.prems(2)]) (use room in simp)
  obtain b2 where b2: "append_word SHELL_TEXT_CAPACITY (arguments command ! i) b1 = (True, b2)" "joined ((cs @ '' '') @ ws ! i) b2"
    by (rule append_word_joined [OF b1(2), of "arguments command ! i"]) (use room w in simp_all)
  show ?case
  proof (rule Suc.hyps(1) [of "Suc i", OF _ _ b2(2)])
    fix b' assume b': "append_arguments command SHELL_TEXT_CAPACITY first [Suc i..<n] b2 = (True, b')"
      "joined (((cs @ '' '') @ ws ! i) @ concat (map ((#) (CHR '' '')) (drop (Suc i) ws))) b'"
    show thesis by (rule Suc.prems(1) [of b']) (use b' b1(1) b2(1) up dr Suc.prems(3) in simp_all)
  qed (use Suc.hyps(2) Suc.prems room i in simp_all)
qed

lemma append_all_joined:
  assumes "joined cs b" "first \<le> n" "n = length ws" "\<forall>k < n. c_str (arguments command ! k) = ws ! k"
    and "length cs + length (join_words (drop first ws)) < 256"
  obtains b' where "append_arguments command SHELL_TEXT_CAPACITY first [first..<n] b = (True, b')"
    "joined (cs @ join_words (drop first ws)) b'"
proof (cases "first = n")
  case True
  then show ?thesis using that [of b] assms by simp
next
  case False
  then have i: "first < n" using assms(2) by simp
  have up: "[first..<n] = first # [Suc first..<n]" using i by (simp add: upt_conv_Cons)
  have dr: "drop first ws = ws ! first # drop (Suc first) ws" using i assms(3) by (simp add: Cons_nth_drop_Suc)
  have w: "c_str (arguments command ! first) = ws ! first" using i assms(4) by simp
  have room: "length cs + length (ws ! first) + length (concat (map ((#) (CHR '' '')) (drop (Suc first) ws))) < 256"
    using assms(5) by (simp add: dr join_words_Cons)
  obtain b2 where b2: "append_word SHELL_TEXT_CAPACITY (arguments command ! first) b = (True, b2)" "joined (cs @ ws ! first) b2"
    by (rule append_word_joined [OF assms(1), of "arguments command ! first"]) (use room w in simp_all)
  obtain b' where "append_arguments command SHELL_TEXT_CAPACITY first [Suc first..<n] b2 = (True, b')"
      "joined ((cs @ ws ! first) @ concat (map ((#) (CHR '' '')) (drop (Suc first) ws))) b'"
    by (rule append_rest_joined [OF b2(2), of first "Suc first" n ws command]) (use i assms(3,4) room in simp_all)
  then show ?thesis using that [of b'] b2(1) up by (simp add: dr join_words_Cons)
qed

lemma join_arguments_joined:
  assumes "length dest = 256" "argument_count command = of_nat (length ws)" "length ws \<le> 8" "\<forall>k < length ws. c_str (arguments command ! k) = ws ! k"
    and "unat first \<le> length ws" "of_bool lead + length (join_words (drop (unat first) ws)) < 256"
  obtains b where "join_arguments (Some command) first lead (Some dest) SHELL_TEXT_CAPACITY True = Some b"
    "joined ((if lead then '' '' else []) @ join_words (drop (unat first) ws)) b"
proof -
  have n: "unat (argument_count command) = length ws" using assms(2,3) by (simp add: unat_word_of_nat_small)
  have le: "\<not> argument_count command < first" using n assms(5) by (simp add: word_less_nat_alt)
  have 0: "joined [] (dest[0 := NUL], 0)" using assms(1) by (simp add: joined_def)
  obtain b1 where b1: "(if lead then buffer_append_char SHELL_TEXT_CAPACITY CHR '' '' (dest[0 := NUL], 0) else (True, dest[0 := NUL], 0)) = (True, b1)"
    "joined (if lead then '' '' else []) b1"
  proof (cases lead)
    case True
    then show ?thesis using buffer_append_joined [OF 0, of "CHR '' ''"] that by fastforce
  qed (use 0 that in simp)
  obtain b where b: "append_arguments command SHELL_TEXT_CAPACITY (unat first) [unat first..<length ws] b1 = (True, b)"
    "joined ((if lead then '' '' else []) @ join_words (drop (unat first) ws)) b"
    by (rule append_all_joined [OF b1(2) assms(5) refl assms(4)]) (use assms(6) in \<open>cases lead; simp\<close>)
  show ?thesis by (rule that [OF _ b(2)]) (use b1(1) b(1) le n in \<open>simp add: join_arguments_def Let_def\<close>)
qed

lemma joined_c_str: "joined cs (d, n) \<Longrightarrow> NUL \<notin> set cs \<Longrightarrow> c_str d = cs"
proof -
  assume j: "joined cs (d, n)" and nul: "NUL \<notin> set cs"
  then have "d = cs @ NUL # drop (Suc (length cs)) d"
    using id_take_nth_drop [of "length cs" d] by (simp add: joined_def)
  then show ?thesis using nul c_str_append_NUL [of cs] c_str_text [of cs] by metis
qed

lemma joined_bytes: "joined cs (d, n) \<Longrightarrow> bytes_of (Some (map char_byte d)) n = map char_byte cs \<and> unat n = length cs \<and> unat n \<le> length d"
  by (auto simp: joined_def bytes_of_def unat_word_of_nat_small take_map)

section \<open>Words of a line\<close>

lemma cmd_words_chars: "w \<in> set (cmd_words s) \<Longrightarrow> set w \<subseteq> set s"
proof (induction s rule: cmd_words.induct)
  case (1 s)
  show ?case
  proof (cases "dropWhile is_separator s")
    case Nil
    have "cmd_words s = []" by (subst cmd_words.simps) (simp only: Nil list.case)
    then show ?thesis using "1.prems" by simp
  next
    case (Cons c cs)
    have sub: "set (c # cs) \<subseteq> set s" using set_dropWhileD [of _ is_separator s] Cons by (metis subsetI)
    have "w = takeWhile (Not \<circ> is_separator) (c # cs) \<or> w \<in> set (cmd_words (dropWhile (Not \<circ> is_separator) (c # cs)))"
      using "1.prems" by (subst (asm) cmd_words.simps) (simp only: Cons list.case set_simps insert_iff)
    then show ?thesis
    proof
      assume "w = takeWhile (Not \<circ> is_separator) (c # cs)"
      then show ?thesis using set_takeWhileD [of _ "Not \<circ> is_separator" "c # cs"] sub by blast
    next
      assume "w \<in> set (cmd_words (dropWhile (Not \<circ> is_separator) (c # cs)))"
      then have "set w \<subseteq> set (dropWhile (Not \<circ> is_separator) (c # cs))" by (rule "1.IH" [OF Cons])
      then show ?thesis using set_dropWhileD [of _ "Not \<circ> is_separator" "c # cs"] sub by blast
    qed
  qed
qed

lemma join_length:
  assumes "\<forall>w \<in> set ws. length w \<le> 31"
  shows "ws \<noteq> [] \<Longrightarrow> length (join_words ws) + 1 \<le> 32 * length ws"
  using assms by (induction ws rule: join_words.induct) auto

text \<open>A parsed command and its words.\<close>

lemma command_words:
  assumes "\<forall>x \<in> set ws. length x \<le> 31 \<and> NUL \<notin> set x" "length ws \<le> 8" "k < length ws"
  shows "c_str (arguments (command_of_words w ws) ! k) = ws ! k"
  using assms c_str_pad [of "ws ! k"] by (simp add: command_of_words_def nth_append)

lemma command_arity:
  assumes "length ws \<le> 8"
  shows "shell_command_has_valid_arity (Some (command_of_words w ws)) \<longleftrightarrow> arity_ok (kind_of_word w) (length ws)"
proof -
  have n: "unat (of_nat (length ws) :: u32) = length ws" using assms by (simp add: unat_word_of_nat_small)
  then have "(of_nat (length ws) :: u32) = 0 \<longleftrightarrow> length ws = 0" "(of_nat (length ws) :: u32) = 1 \<longleftrightarrow> length ws = 1"
    "(2 :: u32) \<le> of_nat (length ws) \<longleftrightarrow> 2 \<le> length ws" "(of_nat (length ws) :: u32) \<le> of_nat 8 \<longleftrightarrow> length ws \<le> 8"
    by (simp_all add: word_unat_eq_iff word_le_nat_alt del: word_of_nat_eq_0_iff)
  then show ?thesis
    by (cases "kind_of_word w") (simp_all add: shell_command_has_valid_arity_def command_of_words_def)
qed

section \<open>Listings\<close>

definition file_order :: "ramfs \<Rightarrow> string list" where
  "file_order fs = map fst (live_files (slots fs))"

lemma file_order_listing: "ramfs_wf fs \<Longrightarrow> listing_order (ramfs_view fs) (file_order fs)"
  by (simp add: listing_order_def file_order_def ramfs_wf_def ramfs_view_def dom_map_of_conv_image_fst)

lemma file_order_count: "ramfs_wf fs \<Longrightarrow> unat (ramfs_count fs) = length (file_order fs) \<and> length (file_order fs) \<le> 16"
proof -
  assume wf: "ramfs_wf fs"
  have "length (filter alive (slots fs)) \<le> RAMFS_MAX_FILES" using wf unfolding ramfs_wf_def by (metis length_filter_le)
  then have "length (file_order fs) \<le> 16" by (simp add: file_order_def live_files_def)
  then show ?thesis using wf by (simp add: ramfs_count_def file_order_def ramfs_wf_def unat_word_of_nat_small)
qed

lemma get_info_nth:
  assumes wf: "ramfs_wf fs" and i: "i < length (file_order fs)"
  obtains nm size bytes where "ramfs_get_info (of_nat i) True fs = Some (nm, size)" "c_str nm = file_order fs ! i"
    "ramfs_view fs (file_order fs ! i) = Some bytes" "size = of_nat (length bytes)" "unat size = length bytes"
proof -
  let ?L = "filter alive (slots fs)"
  have c: "unat (ramfs_count fs) = length (file_order fs)" "length (file_order fs) \<le> 16" using file_order_count [OF wf] by simp_all
  have u: "unat (of_nat i :: u32) = i" using i c by (simp add: unat_word_of_nat_small)
  have iL: "i < length ?L" using i by (simp add: file_order_def live_files_def)
  let ?s = "?L ! i"
  have "?s \<in> set (slots fs)" "alive ?s" using nth_mem [OF iL] by auto
  then have sl: "unat (slot_length ?s) \<le> length (slot_data ?s)" using wf by (auto simp: ramfs_wf_def slot_wf_def slot_shape_def)
  have info: "ramfs_get_info (of_nat i) True fs = Some (slot_name ?s, slot_length ?s)"
    using get_info_eq [OF wf, of "of_nat i"] u i c by (simp add: word_less_nat_alt)
  have entry: "live_files (slots fs) ! i = (c_str (slot_name ?s), take (unat (slot_length ?s)) (slot_data ?s))"
    using iL by (simp add: live_files_def slot_file_def)
  have nm: "file_order fs ! i = c_str (slot_name ?s)" using entry i by (simp add: file_order_def)
  have "(c_str (slot_name ?s), take (unat (slot_length ?s)) (slot_data ?s)) \<in> set (live_files (slots fs))"
    using entry nth_mem [of i "live_files (slots fs)"] i by (simp add: file_order_def)
  then have v: "ramfs_view fs (file_order fs ! i) = Some (take (unat (slot_length ?s)) (slot_data ?s))"
    using wf nm by (simp add: ramfs_view_def ramfs_wf_def)
  show ?thesis by (rule that [OF info nm [symmetric] v]) (use sl in simp_all)
qed

lemma size_scan_eq:
  assumes wf: "ramfs_wf fs" and "i \<le> length (file_order fs)"
  shows "size_scan nm fs (map of_nat [i..<length (file_order fs)]) =
    (if c_str nm \<in> set (drop i (file_order fs)) then map_option (of_nat \<circ> length) (ramfs_view fs (c_str nm)) else None)"
  using assms(2)
proof (induction "length (file_order fs) - i" arbitrary: i)
  case 0
  then show ?case by simp
next
  case (Suc k)
  then have i: "i < length (file_order fs)" by simp
  have up: "[i..<length (file_order fs)] = i # [Suc i..<length (file_order fs)]" using i by (simp add: upt_conv_Cons)
  have dr: "drop i (file_order fs) = file_order fs ! i # drop (Suc i) (file_order fs)" using i by (simp add: Cons_nth_drop_Suc)
  obtain nm' size bytes where info: "ramfs_get_info (of_nat i) True fs = Some (nm', size)" "c_str nm' = file_order fs ! i"
    "ramfs_view fs (file_order fs ! i) = Some bytes" "size = of_nat (length bytes)" by (rule get_info_nth [OF wf i])
  show ?case using Suc.hyps(1) [of "Suc i"] Suc.hyps(2) i info by (auto simp: up dr strings_equal_iff)
qed

lemma file_size_eq: "ramfs_wf fs \<Longrightarrow> file_size nm fs = map_option (of_nat \<circ> length) (ramfs_view fs (c_str nm))"
proof -
  assume wf: "ramfs_wf fs"
  have "set (file_order fs) = dom (ramfs_view fs)" using file_order_listing [OF wf] by (simp add: listing_order_def)
  then show ?thesis using size_scan_eq [OF wf, of 0 nm] file_order_count [OF wf] by (auto simp: file_size_def)
qed

section \<open>What the commands print\<close>

lemma prints_none: "prints Some []"
  by (simp add: prints_def)

lemma prints_bind_eq: "prints f cs \<Longrightarrow> prints g ds \<Longrightarrow> xs = cs @ ds \<Longrightarrow> prints (\<lambda>s. f s \<bind> g) xs"
  by (simp add: prints_bind)

lemma prints_result:
  "transmitter_live lsr \<Longrightarrow> prints (\<lambda>s. if r = RAMFS_RESULT_OK then console_write lsr (Some (''ok'' @ newline)) s else print_ramfs_result lsr r s) (result_text r)"
  by (cases r) (simp_all add: prints_lit)

lemma prints_error: "transmitter_live lsr \<Longrightarrow> r \<noteq> RAMFS_RESULT_OK \<Longrightarrow> prints (print_ramfs_result lsr r) (result_text r)"
  using prints_result [of lsr r] by simp

text \<open>The snapshot carries the counters to the lines of the report.\<close>

definition status_text :: "system_status option \<Rightarrow> string" where
  "status_text status = (case status of None \<Rightarrow> ''error: status unavailable'' @ newline
   | Some k \<Rightarrow>
       field ''PMM pages: free='' (status_pmm_free_pages k) @ field '' total='' (status_pmm_total_pages k) @ newline @
       field ''Heap bytes: free='' (status_heap_free_bytes k) @ field '' total='' (status_heap_total_bytes k) @
       field '' largest='' (status_heap_largest_free_block k) @ field '' blocks='' (status_heap_allocated_blocks k) @ newline @
       field ''Timer: ticks='' (status_pit_ticks k) @ field '' irq0='' (status_irq0_count k) @ newline @
       field ''Keyboard: dropped='' (status_keyboard_dropped k) @ newline @
       field ''Tasks: switches='' (status_task_switches k) @ field '' finished='' (status_task_finished k) @ newline)"

lemma status_report_eq: "status_text (system_status_read arena True k) = status_report arena k"
  by (cases "inspect_heap arena (seen_heap k)")
    (simp_all add: status_text_def status_report_def system_status_read_def kheap_get_stats_def size_to_u32_def pmm_total_page_count_def
      pmm_free_page_count_def pit_ticks_def irq_count_def keyboard_dropped_count_def task_switch_count_def task_finished_count_def)

lemma prints_status:
  assumes live: "transmitter_live lsr" and digits: "\<forall>i. length (digits i) = 10"
  shows "prints (print_status lsr digits status) (status_text status)"
proof (cases status)
  case None
  then show ?thesis using prints_lit [OF live, of "''error: status unavailable'' @ newline"] by (simp add: print_status_def status_text_def prints_def)
next
  case (Some k)
  show ?thesis
    unfolding print_status_def status_text_def Some option.case field_def append_assoc
    by (intro prints_bind prints_lit [OF live] prints_dec [OF live] prints_putc [OF live]) (use digits in simp_all)
qed

lemma prints_ls_lines:
  assumes live: "transmitter_live lsr" and digits: "\<forall>i. length (digits i) = 10" and wf: "ramfs_wf fs" and "i \<le> length (file_order fs)"
  shows "prints (ls_lines lsr digits fs (map of_nat [i..<length (file_order fs)])) (concat (map (ls_line (ramfs_view fs)) (drop i (file_order fs))))"
  using assms(4)
proof (induction "length (file_order fs) - i" arbitrary: i)
  case 0
  then show ?case by (simp add: prints_def)
next
  case (Suc k)
  then have i: "i < length (file_order fs)" by simp
  have up: "[i..<length (file_order fs)] = i # [Suc i..<length (file_order fs)]" using i by (simp add: upt_conv_Cons)
  have dr: "drop i (file_order fs) = file_order fs ! i # drop (Suc i) (file_order fs)" using i by (simp add: Cons_nth_drop_Suc)
  obtain nm size bytes where info: "ramfs_get_info (of_nat i) True fs = Some (nm, size)" "c_str nm = file_order fs ! i"
    "ramfs_view fs (file_order fs ! i) = Some bytes" "unat size = length bytes" by (rule get_info_nth [OF wf i])
  have rest: "prints (ls_lines lsr digits fs (map of_nat [Suc i..<length (file_order fs)])) (concat (map (ls_line (ramfs_view fs)) (drop (Suc i) (file_order fs))))"
    by (rule Suc.hyps(1)) (use Suc.hyps(2) i in simp_all)
  have "prints (\<lambda>s. do { s \<leftarrow> console_write lsr (Some nm) s; s \<leftarrow> console_putc lsr CHR '' '' s; s \<leftarrow> console_write_u32_dec lsr (digits i') size s;
      s \<leftarrow> console_putc lsr (CHR 0x0A) s; ls_lines lsr digits fs (map of_nat [Suc i..<length (file_order fs)]) s })
    (c_str nm @ '' '' @ decimal (unat size) @ newline @ concat (map (ls_line (ramfs_view fs)) (drop (Suc i) (file_order fs))))" for i'
    by (intro prints_bind prints_write [OF live] prints_dec [OF live] prints_putc [OF live] rest) (use digits in simp_all)
  then show ?case by (simp add: up dr info ls_line_def prints_def)
qed

lemma prints_ls:
  assumes "transmitter_live lsr" "\<forall>i. length (digits i) = 10" "ramfs_wf fs"
  shows "prints (execute_ls lsr digits fs) (ls_text (ramfs_view fs) (file_order fs))"
proof -
  have "ramfs_count fs = 0 \<longleftrightarrow> file_order fs = []" using file_order_count [OF assms(3)] by (auto simp: unat_eq_zero)
  then show ?thesis
    using prints_ls_lines [OF assms, of 0] file_order_count [OF assms(3)] prints_lit [OF assms(1), of "''(empty)'' @ newline"]
    by (simp add: execute_ls_def ls_text_def prints_def)
qed

lemma prints_bytes: "transmitter_live lsr \<Longrightarrow> prints (put_bytes lsr bs) (map (char_of \<circ> unat) bs)"
proof (induction bs)
  case Nil
  then show ?case by (simp add: prints_def)
next
  case (Cons b bs)
  then have "prints (\<lambda>s. do { s \<leftarrow> console_putc lsr (char_of (unat b)) s; put_bytes lsr bs s }) ([char_of (unat b)] @ map (char_of \<circ> unat) bs)"
    by (intro prints_bind prints_putc Cons.IH Cons.prems)
  then show ?case by (simp add: prints_def comp_def)
qed

lemma prints_cat:
  assumes live: "transmitter_live lsr" and wf: "ramfs_wf fs" and data: "length data = 512"
  shows "prints (execute_cat lsr data nm fs) (cat_text (ramfs_view fs) (c_str nm))"
proof -
  consider "\<not> valid_name (c_str nm)" | "valid_name (c_str nm)" "ramfs_view fs (c_str nm) = None"
    | bytes where "valid_name (c_str nm)" "ramfs_view fs (c_str nm) = Some bytes" by blast
  then show ?thesis
  proof cases
    case 1
    then have "execute_cat lsr data nm fs = print_ramfs_result lsr RAMFS_RESULT_INVALID_NAME"
      by (simp add: fun_eq_iff execute_cat_def ramfs_read_def name_is_valid_iff)
    with 1 prints_error [OF live, of RAMFS_RESULT_INVALID_NAME] show ?thesis by (simp add: cat_text_def)
  next
    case 2
    then have "find_slot nm fs = None" using find_slot_view(1) [OF wf valid_name_length] by simp
    with 2 have "execute_cat lsr data nm fs = print_ramfs_result lsr RAMFS_RESULT_NOT_FOUND"
      by (simp add: fun_eq_iff execute_cat_def ramfs_read_def name_is_valid_iff)
    with 2 prints_error [OF live, of RAMFS_RESULT_NOT_FOUND] show ?thesis by (simp add: cat_text_def)
  next
    case 3
    note le = view_bounded [OF wf 3(2)]
    have "ramfs_read (Some nm) (Some data) (of_nat RAMFS_FILE_MAX_BYTES) True fs =
        (RAMFS_RESULT_OK, Some (bytes @ drop (length bytes) data), Some (of_nat (length bytes)))"
      by (rule read_file [OF wf 3]) (use le data in simp_all)
    moreover have "map (\<lambda>index. (bytes @ drop (length bytes) data) ! index) [0..<length bytes] = bytes"
      by (intro nth_equalityI) (simp_all add: nth_append)
    ultimately have "execute_cat lsr data nm fs = (\<lambda>s. do { s \<leftarrow> put_bytes lsr bytes s; console_putc lsr (CHR 0x0A) s })"
      using le by (simp add: fun_eq_iff execute_cat_def unat_word_of_nat_small)
    moreover have "prints (\<lambda>s. do { s \<leftarrow> put_bytes lsr bytes s; console_putc lsr (CHR 0x0A) s }) (map (char_of \<circ> unat) bytes @ newline)"
      by (intro prints_bind prints_bytes [OF live] prints_putc [OF live])
    ultimately show ?thesis using 3 by (simp add: cat_text_def)
  qed
qed

section \<open>Commands\<close>

definition locals_ok :: "shell_locals \<Rightarrow> bool" where
  "locals_ok l \<longleftrightarrow> length (l_text l) = 256 \<and> length (l_line l) = 128 \<and> command_shape (l_parsed l) \<and> length (l_data l) = 512 \<and>
     (\<forall>i. length (l_digits l i) = 10)"

text \<open>A command's effect on a shell that shows a terminal.\<close>

definition answers :: "(ramfs \<times> console \<Rightarrow> (ramfs \<times> console) option) \<Rightarrow> ramfs \<Rightarrow> answer \<times> file_map \<Rightarrow> bool" where
  "answers f fs a \<longleftrightarrow> (\<forall>pre s t. shows_terminal pre s t \<longrightarrow> (\<exists>fs' s'. f (fs, s) = Some (fs', s') \<and> ramfs_wf fs' \<and> ramfs_view fs' = snd a \<and>
     shows_terminal pre s' (show_answer (fst a) t)))"

lemma answers_say:
  assumes "prints p cs" "ramfs_wf fs" "\<And>s. f (fs, s) = do { s \<leftarrow> p s; Some (fs, s) }"
  shows "answers f fs (Say cs, ramfs_view fs)"
  unfolding answers_def
proof (intro allI impI)
  fix pre s t assume "shows_terminal pre s t"
  with assms(1) obtain s' where "p s = Some s'" "shows_terminal pre s' (fold term_putc cs t)" unfolding prints_def by blast
  with assms(2,3) show "\<exists>fs' s'. f (fs, s) = Some (fs', s') \<and> ramfs_wf fs' \<and> ramfs_view fs' = snd (Say cs, ramfs_view fs) \<and>
     shows_terminal pre s' (show_answer (fst (Say cs, ramfs_view fs)) t)" by auto
qed

lemma answers_change:
  assumes live: "transmitter_live lsr" and wf: "ramfs_wf fs" and ok: "file_op_ok x" and same: "file_spec x (ramfs_view fs) = file_spec y (ramfs_view fs)"
    and f: "\<And>s. f (fs, s) = (case ramfs_step x fs of (result, fs) \<Rightarrow> do {
      s \<leftarrow> (if result = RAMFS_RESULT_OK then console_write lsr (Some (''ok'' @ newline)) s else print_ramfs_result lsr result s); Some (fs, s) })"
  shows "answers f fs (change y (ramfs_view fs))"
proof -
  obtain r m where rm: "file_spec x (ramfs_view fs) = (r, m)" by (cases "file_spec x (ramfs_view fs)")
  obtain fs' where fs': "ramfs_step x fs = (r, fs')" "ramfs_wf fs'" "ramfs_view fs' = m" by (rule ramfs_step_to [OF wf ok rm])
  have c: "change y (ramfs_view fs) = (Say (result_text r), m)" unfolding change_def same [symmetric] rm by simp
  show ?thesis unfolding answers_def c
  proof (intro allI impI)
    fix pre s t assume "shows_terminal pre s t"
    with prints_result [OF live, of r] obtain s' where
      "(if r = RAMFS_RESULT_OK then console_write lsr (Some (''ok'' @ newline)) s else print_ramfs_result lsr r s) = Some s'"
      "shows_terminal pre s' (fold term_putc (result_text r) t)" unfolding prints_def by blast
    with f fs' show "\<exists>fs' s'. f (fs, s) = Some (fs', s') \<and> ramfs_wf fs' \<and> ramfs_view fs' = snd (Say (result_text r), m) \<and>
      shows_terminal pre s' (show_answer (fst (Say (result_text r), m)) t)" by simp
  qed
qed

lemma text_op_same:
  assumes "joined t (d, n)" "c_str nm = w" "NUL \<notin> set w"
  shows "file_spec (Write_File (Some nm) (Some (map char_byte d)) n) m = file_spec (text_op Write_File w t) m"
    and "file_spec (Append_File (Some nm) (Some (map char_byte d)) n) m = file_spec (text_op Append_File w t) m"
proof -
  have n: "unat n = length t" "n = of_nat (length t)" "length t < 256" "bytes_of (Some (map char_byte d)) n = map char_byte t"
    using joined_bytes [OF assms(1)] assms(1) by (simp_all add: joined_def)
  have b: "bytes_of (Some (map char_byte t)) n = map char_byte t" using n(1) by (simp add: bytes_of_def)
  show "file_spec (Write_File (Some nm) (Some (map char_byte d)) n) m = file_spec (text_op Write_File w t) m"
    "file_spec (Append_File (Some nm) (Some (map char_byte d)) n) m = file_spec (text_op Append_File w t) m"
    unfolding text_op_def n(2) [symmetric] using assms(2,3) by (cases "m w"; simp add: n(4) b Let_def)+
qed

lemma name_op_same:
  assumes "c_str nm = w" "NUL \<notin> set w"
  shows "file_spec (Create_File (Some nm)) m = file_spec (Create_File (Some w)) m" "file_spec (Remove_File (Some nm)) m = file_spec (Remove_File (Some w)) m"
  using assms by simp_all

lemma command_answers:
  assumes live: "transmitter_live lsr" and l: "locals_ok l" and wf: "ramfs_wf fs"
    and ws: "\<forall>x \<in> set ws. length x \<le> 31 \<and> NUL \<notin> set x" and n: "length ws \<le> 8" and ar: "arity_ok (kind_of_word w) (length ws)"
  shows "answers (execute_command lsr l status (command_of_words w ws)) fs (command_spec (status_text status) (file_order fs) (kind_of_word w) ws (ramfs_view fs))"
proof -
  let ?c = "command_of_words w ws" and ?m = "ramfs_view fs"
  have k: "kind ?c = kind_of_word w" "argument_count ?c = of_nat (length ws)" by (simp_all add: command_of_words_def)
  have args: "\<forall>k < length ws. c_str (arguments ?c ! k) = ws ! k" using command_words [OF ws n] by simp
  have arg0: "c_str (arguments ?c ! 0) = ws ! 0" "NUL \<notin> set (ws ! 0)" if "0 < length ws"
    using that args ws nth_mem [OF that] by auto
  have l': "length (l_text l) = 256" "length (l_data l) = 512" "\<forall>i. length (l_digits l i) = 10" using l by (simp_all add: locals_ok_def)
  have nul: "NUL \<notin> set (join_words xs)" if "set xs \<subseteq> set ws" for xs
    using that ws by (induction xs rule: join_words.induct) auto
  have len: "length (join_words xs) + 1 \<le> 32 * length xs" if "set xs \<subseteq> set ws" "xs \<noteq> []" for xs
    by (rule join_length) (use that ws in auto)
  have all: "length (join_words ws) < 256" using len [of ws] n by (cases "ws = []") auto
  have rest: "1 + length (join_words (drop 1 ws)) < 256"
    using len [of "drop 1 ws"] n set_drop_subset [of 1 ws] by (cases "drop 1 ws = []") auto
  show ?thesis
  proof (cases "kind_of_word w")
    case SHELL_COMMAND_HELP
    have "prints (\<lambda>s. do { s \<leftarrow> console_write lsr (Some shell_command_help) s; console_putc lsr (CHR 0x0A) s }) (shell_command_help @ newline)"
      by (intro prints_bind prints_lit [OF live] prints_putc [OF live]) (simp add: shell_command_help_def)
    from answers_say [OF this wf, of "execute_command lsr l status ?c"] show ?thesis
      using SHELL_COMMAND_HELP k by (simp add: execute_command_def)
  next
    case SHELL_COMMAND_CLEAR
    have "\<exists>s'. console_clear s = s' \<and> shows_terminal pre s' (term_clear t)" if "shows_terminal pre s t" for pre s t
    proof -
      have lines: "vga_buffer s = concat (term_lines t)" "length (term_lines t) = 25" "\<forall>x \<in> set (term_lines t). length x = 80"
        "serial_ports (uart s) = pre @ map (Pair COM1) (sent t) \<and> lost_bytes (uart s) = 0"
        using that by (auto simp: shows_terminal_def shows_lines_def)
      have "map length (term_lines t) = replicate 25 80" using lines(2,3) by (intro nth_equalityI) simp_all
      then have "length (vga_buffer s) = 2000" "serial_ports (uart s) = pre @ map (Pair COM1) (sent t) \<and> lost_bytes (uart s) = 0"
        using lines(1,4) by (simp_all add: length_concat sum_list_replicate)
      then show ?thesis using console_clear_shows(1) by blast
    qed
    then show ?thesis using SHELL_COMMAND_CLEAR k wf by (auto simp: answers_def execute_command_def)
  next
    case SHELL_COMMAND_ECHO
    obtain b where b: "join_arguments (Some ?c) 0 False (Some (l_text l)) SHELL_TEXT_CAPACITY True = Some b"
      "joined ((if False then '' '' else []) @ join_words (drop (unat (0 :: u32)) ws)) b"
      by (rule join_arguments_joined [OF l'(1) k(2) n args, of 0 False]) (use all in simp_all)
    obtain d len where bd: "b = (d, len)" by (cases b)
    have d: "c_str d = join_words ws" using b(2) joined_c_str [of "join_words ws" d len] nul [of ws] by (simp add: bd)
    have "prints (\<lambda>s. do { s \<leftarrow> console_write lsr (Some d) s; console_putc lsr (CHR 0x0A) s }) (c_str d @ newline)"
      by (intro prints_bind prints_write [OF live] prints_putc [OF live])
    from answers_say [OF this wf, of "execute_command lsr l status ?c"] show ?thesis
      using SHELL_COMMAND_ECHO k b(1) by (simp add: execute_command_def bd d)
  next
    case SHELL_COMMAND_LS
    from answers_say [OF prints_ls [OF live l'(3) wf] wf, of "execute_command lsr l status ?c"] show ?thesis
      using SHELL_COMMAND_LS k by (simp add: execute_command_def)
  next
    case SHELL_COMMAND_CAT
    then have "c_str (arguments ?c ! 0) = ws ! 0" using ar args by simp
    with answers_say [OF prints_cat [OF live wf l'(2), of "arguments ?c ! 0"] wf, of "execute_command lsr l status ?c"] show ?thesis
      using SHELL_COMMAND_CAT k by (simp add: execute_command_def)
  next
    case SHELL_COMMAND_TOUCH
    then have "0 < length ws" using ar by simp
    note a = arg0 [OF this]
    show ?thesis unfolding SHELL_COMMAND_TOUCH command_spec.simps
      by (rule answers_change [OF live wf, of "Create_File (Some (arguments ?c ! 0))"])
        (use SHELL_COMMAND_TOUCH k name_op_same(1) [OF a] in \<open>simp_all add: execute_command_def case_prod_beta\<close>)
  next
    case SHELL_COMMAND_RM
    then have "0 < length ws" using ar by simp
    note a = arg0 [OF this]
    show ?thesis unfolding SHELL_COMMAND_RM command_spec.simps
      by (rule answers_change [OF live wf, of "Remove_File (Some (arguments ?c ! 0))"])
        (use SHELL_COMMAND_RM k name_op_same(2) [OF a] in \<open>simp_all add: execute_command_def case_prod_beta\<close>)
  next
    case SHELL_COMMAND_WRITE
    then have two: "2 \<le> length ws" using ar by simp
    then have "0 < length ws" by linarith
    note a = arg0 [OF this]
    obtain b where b: "join_arguments (Some ?c) 1 False (Some (l_text l)) SHELL_TEXT_CAPACITY True = Some b"
      "joined ((if False then '' '' else []) @ join_words (drop (unat (1 :: u32)) ws)) b"
      by (rule join_arguments_joined [OF l'(1) k(2) n args, of 1 False]) (use rest two in simp_all)
    obtain d len where bd: "b = (d, len)" by (cases b)
    have j: "joined (join_words (drop 1 ws)) (d, len)" using b(2) by (simp add: bd)
    show ?thesis unfolding SHELL_COMMAND_WRITE command_spec.simps
      by (rule answers_change [OF live wf, of "Write_File (Some (arguments ?c ! 0)) (Some (map char_byte d)) len"])
        (use SHELL_COMMAND_WRITE k b(1) text_op_same(1) [OF j a] joined_bytes [OF j] in \<open>simp_all add: execute_command_def case_prod_beta bd\<close>)
  next
    case SHELL_COMMAND_APPEND
    then have two: "2 \<le> length ws" using ar by simp
    then have "0 < length ws" by linarith
    note a = arg0 [OF this]
    let ?lead = "file_size (arguments ?c ! 0) fs \<noteq> None \<and> (case file_size (arguments ?c ! 0) fs of None \<Rightarrow> 0 | Some n \<Rightarrow> n) \<noteq> 0"
    have lead: "(if ?lead then '' '' else []) = separator ?m (ws ! 0)"
      using view_bounded [OF wf, of "ws ! 0"] by (auto simp: file_size_eq [OF wf] a separator_def word_unat_eq_iff unat_word_of_nat_small split: option.splits)
    obtain b where b: "join_arguments (Some ?c) 1 ?lead (Some (l_text l)) SHELL_TEXT_CAPACITY True = Some b"
      "joined ((if ?lead then '' '' else []) @ join_words (drop (unat (1 :: u32)) ws)) b"
      by (rule join_arguments_joined [OF l'(1) k(2) n args, of 1 ?lead]) (use rest two in \<open>simp_all split: if_splits\<close>)
    obtain d len where bd: "b = (d, len)" by (cases b)
    have j: "joined (separator ?m (ws ! 0) @ join_words (drop 1 ws)) (d, len)" using b(2) unfolding lead by (simp add: bd)
    show ?thesis unfolding SHELL_COMMAND_APPEND command_spec.simps
      by (rule answers_change [OF live wf, of "Append_File (Some (arguments ?c ! 0)) (Some (map char_byte d)) len"])
        (use SHELL_COMMAND_APPEND k b(1) text_op_same(2) [OF j a] joined_bytes [OF j] in \<open>simp_all add: execute_command_def case_prod_beta bd Let_def\<close>)
  next
    case SHELL_COMMAND_STATUS
    from answers_say [OF prints_status [OF live l'(3)] wf, of "execute_command lsr l status ?c"] show ?thesis
      using SHELL_COMMAND_STATUS k by (simp add: execute_command_def)
  next
    case SHELL_COMMAND_ABOUT
    have "prints (console_write lsr (Some (''TinyShell OS is an i386 teaching microkernel prototype. '' @ ''Shell and RAMFS currently run in Ring 0.'' @ newline)))
        (''TinyShell OS is an i386 teaching microkernel prototype. '' @ ''Shell and RAMFS currently run in Ring 0.'' @ newline)"
      by (rule prints_lit [OF live]) simp
    from answers_say [OF this wf, of "execute_command lsr l status ?c"] show ?thesis
      using SHELL_COMMAND_ABOUT k by (simp add: execute_command_def)
  next
    case SHELL_COMMAND_UNKNOWN
    then show ?thesis using ar by simp
  qed
qed

section \<open>Keys\<close>

definition represents :: "port_write list \<Rightarrow> runtime \<Rightarrow> session \<Rightarrow> bool" where
  "represents pre r = (\<lambda>(t, m, d). runtime_initialized r \<and> runtime_started r \<and> le_wf (runtime_editor r) \<and> le_text (runtime_editor r) = t \<and>
     \<not> ready (runtime_editor r) \<and> ramfs_wf (files r) \<and> ramfs_view (files r) = m \<and> shows_terminal pre (screen r) d)"

lemma shows_putc:
  assumes "transmitter_live lsr" "shows_terminal pre s d"
  obtains s' where "console_putc lsr c s = Some s'" "shows_terminal pre s' (term_putc c d)"
  using prints_putc [OF assms(1), of c] assms(2) that unfolding prints_def by fastforce

lemma shows_prompt:
  assumes "transmitter_live lsr" "prints p cs" "shows_terminal pre s d"
  obtains s2 s3 where "p s = Some s2" "print_prompt lsr s2 = Some s3" "shows_terminal pre s3 (fold term_putc prompt (show_answer (Say cs) d))"
proof -
  obtain s2 where s2: "p s = Some s2" "shows_terminal pre s2 (fold term_putc cs d)" using assms(2,3) unfolding prints_def by blast
  have "prints (print_prompt lsr) prompt" unfolding print_prompt_def prompt_def by (rule prints_lit [OF assms(1)]) simp
  then obtain s3 where "print_prompt lsr s2 = Some s3" "shows_terminal pre s3 (fold term_putc prompt (fold term_putc cs d))"
    using s2(2) unfolding prints_def by blast
  with s2(1) show ?thesis using that by simp
qed

text \<open>A submitted line: the editor has handed it out and the line feed is on the screen.\<close>

lemma line_runs:
  assumes live: "transmitter_live lsr" and l: "locals_ok l" and on: "runtime_initialized r" "runtime_started r"
    and feed: "shell_line_editor_feed (Some (runtime_editor r)) c = (SHELL_LINE_READY, Some e1)" and e1: "le_wf e1" "ready e1"
    and put: "console_putc lsr (CHR 0x0A) (screen r) = Some s1" "shows_terminal pre s1 d" and wf: "ramfs_wf (files r)"
  shows "\<exists>r'. shell_runtime_handle_char lsr l status c r = Some r' \<and>
    (case line_answer (status_text status) (file_order (files r)) (le_text e1) (ramfs_view (files r)) of (a, m') \<Rightarrow>
      represents pre r' ([], m', fold term_putc prompt (show_answer a d)))"
proof -
  let ?t = "le_text e1" and ?m = "ramfs_view (files r)"
  have len: "length ?t \<le> 127" "list_all is_printable_ascii ?t" using e1(1) le_length [OF e1(1)] by (simp_all add: le_wf_def)
  have nul: "NUL \<notin> set ?t" using len(2) printable_not_NUL by (auto simp: list_all_iff)
  define e2 where "e2 = clear_line_buffer e1"
  define line where "line = ?t @ NUL # drop (length ?t + 1) (l_line l)"
  have l': "length (l_line l) = 128" "command_shape (l_parsed l)" using l by (simp_all add: locals_ok_def)
  have taking: "shell_line_editor_take (Some e1) (Some (l_line l)) 128 = (True, Some line, Some e2)"
    and e2: "le_wf e2" "le_text e2 = []" "\<not> ready e2"
    using line_editor_take_exact [OF e1(1), of 128 "l_line l"] l'(1) e1(2) len(1) by (simp_all add: e2_def line_def le_view_def)
  have "c_str line = ?t" using nul by (simp add: line_def)
  then have parse: "shell_command_parse (l_parsed l) (Some line) (Some out) = (case parse_spec ?t of Inl x \<Rightarrow> (x, Some out) | Inr x \<Rightarrow> (SHELL_PARSE_OK, Some x))" for out
    using parse_text [OF nul l'(2), of out] parse_c_str [of "l_parsed l" line "Some out"] by simp
  note run = shell_runtime_handle_char_def Let_def on feed put(1) taking parse
  have rep: "represents pre (r\<lparr>runtime_editor := e2, screen := s3\<rparr>) ([], ?m, d')" if "shows_terminal pre s3 d'" for s3 d'
    using that on e2 wf by (simp add: represents_def)
  have error: "\<exists>s2 s3. p s1 = Some s2 \<and> print_prompt lsr s2 = Some s3 \<and>
      represents pre (r\<lparr>runtime_editor := e2, screen := s3\<rparr>) ([], ?m, fold term_putc prompt (show_answer (Say cs) d))" if "prints p cs" for p cs
    using shows_prompt [OF live that put(2)] rep by metis
  show ?thesis
  proof (cases "cmd_words ?t")
    case Nil
    then have "parse_spec ?t = Inl SHELL_PARSE_EMPTY" by (simp add: parse_spec_def)
    with error [OF prints_none] show ?thesis using Nil by (auto simp: run line_answer_def)
  next
    case (Cons w ws)
    consider "\<exists>x \<in> set (take 9 (w # ws)). length x > 31"
      | "\<not> (\<exists>x \<in> set (take 9 (w # ws)). length x > 31)" "length ws > 8"
      | "\<not> (\<exists>x \<in> set (take 9 (w # ws)). length x > 31)" "length ws \<le> 8" by linarith
    then show ?thesis
    proof cases
      case 1
      then have "parse_spec ?t = Inl SHELL_PARSE_ARGUMENT_TOO_LONG" using Cons by (simp add: parse_spec_def)
      with error [OF prints_lit [OF live, of "''error: argument too long'' @ newline"]] show ?thesis
        using Cons 1 by (auto simp: run line_answer_def)
    next
      case 2
      then have "parse_spec ?t = Inl SHELL_PARSE_TOO_MANY_ARGUMENTS" using Cons by (simp add: parse_spec_def)
      with error [OF prints_lit [OF live, of "''error: too many arguments'' @ newline"]] show ?thesis
        using Cons 2 by (auto simp: run line_answer_def)
    next
      case 3
      then have ps: "parse_spec ?t = Inr (command_of_words w ws)" using Cons by (simp add: parse_spec_def)
      have k: "kind (command_of_words w ws) = kind_of_word w" by (simp add: command_of_words_def)
      note ar = command_arity [OF 3(2), of w]
      have ws: "\<forall>x \<in> set ws. length x \<le> 31 \<and> NUL \<notin> set x"
      proof
        fix x assume x: "x \<in> set ws"
        have "take 9 (w # ws) = w # ws" using 3(2) by simp
        then have "\<not> length x > 31" using 3(1) x by auto
        moreover have "set x \<subseteq> set ?t" using cmd_words_chars [of x ?t] Cons x by simp
        ultimately show "length x \<le> 31 \<and> NUL \<notin> set x" using nul by auto
      qed
      have ans: "line_answer (status_text status) (file_order (files r)) ?t ?m =
          (if kind_of_word w = SHELL_COMMAND_UNKNOWN then (Say (''error: unknown command'' @ newline), ?m)
           else if \<not> arity_ok (kind_of_word w) (length ws) then (Say (''error: usage: '' @ the (shell_command_usage (kind_of_word w)) @ newline), ?m)
           else command_spec (status_text status) (file_order (files r)) (kind_of_word w) ws ?m)"
        using 3 Cons by (simp add: line_answer_def)
      consider "kind_of_word w = SHELL_COMMAND_UNKNOWN" | "kind_of_word w \<noteq> SHELL_COMMAND_UNKNOWN" "\<not> arity_ok (kind_of_word w) (length ws)"
        | "kind_of_word w \<noteq> SHELL_COMMAND_UNKNOWN" "arity_ok (kind_of_word w) (length ws)" by blast
      then show ?thesis
      proof cases
        case 1
        with error [OF prints_lit [OF live, of "''error: unknown command'' @ newline"]] show ?thesis
          by (auto simp: run ps k ans)
      next
        case 2
        obtain u where u: "shell_command_usage (kind_of_word w) = Some u" "NUL \<notin> set u" using 2(1) by (cases "kind_of_word w") auto
        have "prints (\<lambda>s. do { s \<leftarrow> console_write lsr (Some ''error: usage: '') s; s \<leftarrow> console_write lsr (Some u) s; console_putc lsr (CHR 0x0A) s })
            (''error: usage: '' @ u @ newline)"
          by (intro prints_bind prints_lit [OF live] prints_putc [OF live]) (use u in simp_all)
        from error [OF this] show ?thesis using 2 u(1) by (auto simp: run ps k ans ar bind_eq_Some_conv)
      next
        case 3
        obtain a m' where am: "command_spec (status_text status) (file_order (files r)) (kind_of_word w) ws ?m = (a, m')" by (meson surj_pair)
        from command_answers [OF live l wf ws \<open>length ws \<le> 8\<close> 3(2), of status] put(2) obtain fs' s2 where
          x: "execute_command lsr l status (command_of_words w ws) (files r, s1) = Some (fs', s2)" "ramfs_wf fs'" "ramfs_view fs' = m'"
            "shows_terminal pre s2 (show_answer a d)" unfolding answers_def am by fastforce
        obtain s3 where s3: "print_prompt lsr s2 = Some s3" "shows_terminal pre s3 (fold term_putc prompt (show_answer a d))"
          using shows_prompt [OF live prints_none x(4)] by auto
        have "represents pre (r\<lparr>runtime_editor := e2, files := fs', screen := s3\<rparr>) ([], m', fold term_putc prompt (show_answer a d))"
          using x s3 on e2 by (simp add: represents_def)
        then show ?thesis using 3 x(1) s3(1) by (simp add: run ps k ans ar am)
      qed
    qed
  qed
qed

lemma key_refines:
  assumes live: "transmitter_live lsr" and l: "locals_ok l" and rep: "represents pre r v"
  obtains r' where "shell_runtime_handle_char lsr l status c r = Some r'" "represents pre r' (key_spec (status_text status) (file_order (files r)) c v)"
proof -
  obtain t m d where v: "v = (t, m, d)" by (cases v)
  have on: "runtime_initialized r" "runtime_started r" and e: "le_wf (runtime_editor r)" "le_text (runtime_editor r) = t" "\<not> ready (runtime_editor r)"
    and fs: "ramfs_wf (files r)" "ramfs_view (files r) = m" and sh: "shows_terminal pre (screen r) d"
    using rep by (simp_all add: represents_def v)
  let ?n = "overflow_count (runtime_editor r)"
  have view: "le_view (runtime_editor r) = (t, False, ?n)" using e by (simp add: le_view_def)
  obtain ev e' where ev: "shell_line_editor_feed (Some (runtime_editor r)) c = (ev, Some e')" "le_wf e'" "line_spec c (t, False, ?n) = (ev, le_view e')"
    using le_feed_refines [OF e(1), of c] view by (metis prod.collapse)
  have le': "le_text e' = fst (le_view e')" "ready e' = fst (snd (le_view e'))" by (simp_all add: le_view_def)
  have quiet: "represents pre (r\<lparr>runtime_editor := e'\<rparr>) (t', m, d)" if "le_view e' = (t', False, k)" for t' k
    using that on ev(2) le' fs sh by (simp add: represents_def)
  have loud: "\<exists>s'. console_putc lsr x (screen r) = Some s' \<and> represents pre (r\<lparr>runtime_editor := e', screen := s'\<rparr>) (t', m, term_putc x d)"
    if "le_view e' = (t', False, k)" for t' k x
  proof -
    obtain s' where "console_putc lsr x (screen r) = Some s'" "shows_terminal pre s' (term_putc x d)" using shows_putc [OF live sh] .
    with that on ev(2) le' fs show ?thesis by (auto simp: represents_def)
  qed
  have none: "shell_runtime_handle_char lsr l status c r = Some (r\<lparr>runtime_editor := e'\<rparr>)" if "ev = SHELL_LINE_NONE \<or> ev = SHELL_LINE_FULL"
    using that on ev(1) by (auto simp: shell_runtime_handle_char_def)
  have typed: "shell_runtime_handle_char lsr l status c r = Some (r\<lparr>runtime_editor := e', screen := s'\<rparr>)"
    if "ev = SHELL_LINE_ECHO \<and> x = c \<or> ev = SHELL_LINE_ERASE \<and> x = CHR 0x08" "console_putc lsr x (screen r) = Some s'" for x s'
    using that on ev(1) by (auto simp: shell_runtime_handle_char_def)
  consider "c = CHR 0x08" | "c = CHR 0x0A \<or> c = CHR 0x0D" | "c \<notin> {CHR 0x08, CHR 0x0A, CHR 0x0D}" by auto
  then show ?thesis
  proof cases
    case 1
    then have v': "ev = (if t = [] then SHELL_LINE_NONE else SHELL_LINE_ERASE)" "le_view e' = (butlast t, False, ?n)" using ev(3) by (auto simp: line_spec_def)
    show ?thesis
    proof (cases "t = []")
      case True
      then show ?thesis using 1 that [OF none] quiet [OF v'(2)] v'(1) by (simp add: key_spec_def v)
    next
      case False
      obtain s' where s': "console_putc lsr (CHR 0x08) (screen r) = Some s'"
        "represents pre (r\<lparr>runtime_editor := e', screen := s'\<rparr>) (butlast t, m, term_putc (CHR 0x08) d)" using loud [OF v'(2)] by blast
      show ?thesis by (rule that [OF typed [OF _ s'(1)]]) (use 1 False v'(1) s'(2) in \<open>simp_all add: key_spec_def v\<close>)
    qed
  next
    case 2
    then have "ev = SHELL_LINE_READY" "le_view e' = (t, True, ?n)" using ev(3) by (auto simp: line_spec_def)
    then have rdy: "ev = SHELL_LINE_READY" "le_text e' = t" "ready e'" using le' by simp_all
    obtain s1 where s1: "console_putc lsr (CHR 0x0A) (screen r) = Some s1" "shows_terminal pre s1 (term_putc (CHR 0x0A) d)" using shows_putc [OF live sh] .
    obtain a m' where am: "line_answer (status_text status) (file_order (files r)) t m = (a, m')" by (meson surj_pair)
    from line_runs [OF live l on ev(1) [unfolded rdy(1)] ev(2) rdy(3) s1 fs(1), of status] obtain r' where
      r': "shell_runtime_handle_char lsr l status c r = Some r'" "represents pre r' ([], m', fold term_putc prompt (show_answer a (term_putc (CHR 0x0A) d)))"
      unfolding rdy(2) fs(2) am by auto
    have "key_spec (status_text status) (file_order (files r)) c v = ([], m', fold term_putc prompt (show_answer a (term_putc (CHR 0x0A) d)))"
      using 2 am by (auto simp: key_spec_def v)
    with r' show ?thesis using that by simp
  next
    case 3
    consider "\<not> is_printable_ascii c" | "is_printable_ascii c" "length t = 127" | "is_printable_ascii c" "length t \<noteq> 127" by blast
    then show ?thesis
    proof cases
      case 1
      then have v': "ev = SHELL_LINE_NONE" "le_view e' = (t, False, ?n)" using ev(3) 3 by (auto simp: line_spec_def)
      show ?thesis by (rule that [OF none]) (use 1 3 v' quiet [OF v'(2)] in \<open>auto simp: key_spec_def v\<close>)
    next
      case 2
      then have v': "ev = SHELL_LINE_FULL" "le_view e' = (t, False, ?n + 1)" using ev(3) 3 by (auto simp: line_spec_def)
      show ?thesis by (rule that [OF none]) (use 2 3 v' quiet [OF v'(2)] in \<open>auto simp: key_spec_def v\<close>)
    next
      case p: 3
      then have v': "ev = SHELL_LINE_ECHO" "le_view e' = (t @ [c], False, ?n)" using ev(3) 3 by (auto simp: line_spec_def)
      obtain s' where s': "console_putc lsr c (screen r) = Some s'"
        "represents pre (r\<lparr>runtime_editor := e', screen := s'\<rparr>) (t @ [c], m, term_putc c d)" using loud [OF v'(2)] by blast
      show ?thesis by (rule that [OF typed [OF _ s'(1)]]) (use p 3 v'(1) s'(2) in \<open>auto simp: key_spec_def v\<close>)
    qed
  qed
qed

section \<open>Properties\<close>

text \<open>The keys of a session, each with the locals of its call and the counters a status command would read.\<close>

fun run_keys :: "(nat \<Rightarrow> u8) \<Rightarrow> u32 \<Rightarrow> (shell_locals \<times> 'w observed \<times> char) list \<Rightarrow> runtime \<Rightarrow> runtime option" where
  "run_keys lsr arena [] r = Some r"
| "run_keys lsr arena ((l, k, c) # keys) r = do {
     r \<leftarrow> shell_runtime_handle_char lsr l (system_status_read arena True k) c r;
     run_keys lsr arena keys r
   }"

definition banner :: string where "banner = ''TinyShell OS interactive shell (Ring 0)'' @ newline"

lemma keys_refine:
  assumes live: "transmitter_live lsr" and "list_all (\<lambda>(l, k, c). locals_ok l) keys" "represents pre r v"
  shows "\<exists>r' v'. run_keys lsr arena keys r = Some r' \<and> shell_session (map (\<lambda>(l, k, c). (c, status_report arena k)) keys) v v' \<and> represents pre r' v'"
  using assms(2,3)
proof (induction keys arbitrary: r v)
  case Nil
  then show ?case by (metis list.simps(8) run_keys.simps(1) session_end)
next
  case (Cons x keys)
  obtain l k c where x: "x = (l, k, c)" by (cases x)
  obtain r1 where r1: "shell_runtime_handle_char lsr l (system_status_read arena True k) c r = Some r1"
    "represents pre r1 (key_spec (status_report arena k) (file_order (files r)) c v)"
    unfolding status_report_eq [symmetric] by (rule key_refines [OF live _ Cons.prems(2), of l]) (use Cons.prems(1) x in simp_all)
  from Cons.IH [OF _ r1(2)] Cons.prems(1) obtain r' v' where r': "run_keys lsr arena keys r1 = Some r'" "represents pre r' v'"
    "shell_session (map (\<lambda>(l, k, c). (c, status_report arena k)) keys) (key_spec (status_report arena k) (file_order (files r)) c v) v'"
    by auto
  have "listing_order (fst (snd v)) (file_order (files r))"
    using Cons.prems(2) file_order_listing [of "files r"] by (auto simp: represents_def)
  from session_key [OF this r'(3)] show ?case
    by (intro exI [of _ r'] exI [of _ v']) (use r1(1) r'(1,2) in \<open>simp add: x\<close>)
qed

lemma start_represents:
  assumes live: "transmitter_live lsr" and "runtime_initialized r" "\<not> runtime_started r" "le_wf (runtime_editor r)" "le_view (runtime_editor r) = ([], False, n)"
    and "ramfs_wf (files r)" "shows_terminal pre (screen r) d"
  obtains r' where "shell_runtime_start lsr r = Some r'" "represents pre r' ([], ramfs_view (files r), fold term_putc (banner @ prompt) d)"
proof -
  have "prints (\<lambda>s. do { s \<leftarrow> console_write lsr (Some banner) s; print_prompt lsr s }) (banner @ prompt)"
    unfolding print_prompt_def prompt_def banner_def by (intro prints_bind prints_lit [OF live]) simp_all
  then obtain s' where "do { s \<leftarrow> console_write lsr (Some banner) (screen r); print_prompt lsr s } = Some s'"
    "shows_terminal pre s' (fold term_putc (banner @ prompt) d)" using assms(7) unfolding prints_def by blast
  then show ?thesis
    using that [of "r\<lparr>runtime_started := True, screen := s'\<rparr>"] assms(2-6)
    by (auto simp: shell_runtime_start_def represents_def le_view_def banner_def bind_eq_Some_conv)
qed

text \<open>
  (C3) The shell is the session of the specification: on a console that shows a terminal, with a transmitter that does
  not stay busy for ever, the shell comes up, greets, and answers every sequence of keys. At every moment
  the line being edited, the contents of all files, the screen and the bytes sent are those of
  the specification: each submitted line is split into words, checked and run, its error or its result is
  printed, the files change as the command says, and \<open>status\<close> reports the counters of the components. The messages of the code for an
  unavailable or invalid line or a text too long never appear.
\<close>

theorem shell_session_refines:
  assumes "transmitter_live lsr" "list_all (\<lambda>(l, k, c). locals_ok l) keys" "shows_terminal pre (screen r) d"
    and "ramfs_shape (files r)" "length output = 4" "length (buffer editor) = SHELL_LINE_MAX + 1" "length got = 128" "command_shape parsed"
    and "length (buffer (runtime_editor r)) = SHELL_LINE_MAX + 1"
  shows "\<exists>r0 r1 r' t m d'. shell_runtime_init output editor got parsed command r = (True, r0) \<and> shell_runtime_start lsr r0 = Some r1 \<and>
    run_keys lsr arena keys r1 = Some r' \<and>
    shell_session (map (\<lambda>(l, k, c). (c, status_report arena k)) keys) ([], Map.empty, fold term_putc (banner @ prompt) d) (t, m, d') \<and>
    c_str (buffer (runtime_editor r')) = t \<and> ramfs_view (files r') = m \<and> ramfs_validate (files r') \<and> shows_terminal pre (screen r') d'"
proof -
  obtain r0 where r0: "shell_runtime_init output editor got parsed command r = (True, r0)" "ramfs_wf (files r0)" "ramfs_view (files r0) = Map.empty"
    "le_wf (runtime_editor r0)" "le_view (runtime_editor r0) = ([], False, 0)" "runtime_initialized r0" "\<not> runtime_started r0" "screen r0 = screen r"
    by (rule runtime_init_passes [OF assms(4-9)])
  obtain r1 where r1: "shell_runtime_start lsr r0 = Some r1" "represents pre r1 ([], Map.empty, fold term_putc (banner @ prompt) d)"
    using start_represents [OF assms(1) r0(6,7,4,5,2), of pre d] assms(3) unfolding r0(3,8) by auto
  obtain r' t m d' where "run_keys lsr arena keys r1 = Some r'" "represents pre r' (t, m, d')"
    "shell_session (map (\<lambda>(l, k, c). (c, status_report arena k)) keys) ([], Map.empty, fold term_putc (banner @ prompt) d) (t, m, d')"
    using keys_refine [OF assms(1,2) r1(2), of arena] by auto
  then show ?thesis using r0(1) r1(1) le_buffer_text [of "runtime_editor r'"] ramfs_wf_validates [of "files r'"]
    unfolding represents_def by fast
qed

definition example_locals :: shell_locals where
  "example_locals = \<lparr>l_text = replicate 256 CHR ''?'', l_line = replicate 128 CHR ''?'', l_command = example_command, l_parsed = example_command,
     l_data = replicate 512 1, l_digits = (\<lambda>_. replicate 10 CHR ''?'')\<rparr>"

theorem shell_session_refines_witness:
  fixes r :: runtime
  defines "r \<equiv> example_runtime\<lparr>screen := console_init (screen example_runtime)\<rparr>"
  shows "\<forall>k. \<exists>r0 r1 r'. shell_runtime_init [1, 2, 3, 4] example_editor (replicate 128 CHR ''q'') example_command example_command r = (True, r0) \<and>
    shell_runtime_start (\<lambda>_. 0x20) r0 = Some r1 \<and>
    run_keys (\<lambda>_. 0x20) 0x200000 (map (\<lambda>c. (example_locals, k :: unit observed, c)) (''touch a'' @ newline @ ''ls'' @ newline)) r1 = Some r'"
proof
  fix k :: "unit observed"
  have live: "transmitter_live (\<lambda>_. 0x20)" by (auto simp: transmitter_live_def)
  have shape: "command_shape example_command" by (simp add: example_command_def command_shape_def)
  have l: "locals_ok example_locals" using shape by (simp add: locals_ok_def example_locals_def)
  then have keys: "list_all (\<lambda>(l, k, c). locals_ok l) (map (\<lambda>c. (example_locals, k, c)) (''touch a'' @ newline @ ''ls'' @ newline))" by (simp add: list_all_iff)
  have sh: "ramfs_shape (files r)" using example_ramfs_shape by (simp add: r_def example_runtime_def)
  have len: "length [1, 2, 3, 4 :: u8] = 4" "length (buffer example_editor) = SHELL_LINE_MAX + 1" "length (replicate 128 CHR ''q'') = 128"
    "length (buffer (runtime_editor r)) = SHELL_LINE_MAX + 1"
    by (simp_all add: example_editor_def r_def example_runtime_def)
  have "length (vga_buffer (screen example_runtime)) = 2000" by (simp add: example_runtime_def)
  from console_init_shows [OF this] have scr: "shows_terminal (serial_ports (serial_init (uart (screen example_runtime)))) (screen r) blank_terminal"
    by (simp add: r_def)
  show "\<exists>r0 r1 r'. shell_runtime_init [1, 2, 3, 4] example_editor (replicate 128 CHR ''q'') example_command example_command r = (True, r0) \<and>
    shell_runtime_start (\<lambda>_. 0x20) r0 = Some r1 \<and>
    run_keys (\<lambda>_. 0x20) 0x200000 (map (\<lambda>c. (example_locals, k, c)) (''touch a'' @ newline @ ''ls'' @ newline)) r1 = Some r'"
    using shell_session_refines [OF live keys scr sh len(1-3) shape len(4), of example_command "0x200000"] by blast
qed

end
