(* ===== verification/Spec2Isabelle.thy ===== *)
theory Spec2Isabelle
  imports Pmm Vmm Heap Task Ipc Keyboard Ramfs Line_Editor Command Multiboot Interrupt Shell_Session
begin

text \<open>
  TinyShell OS is a teaching kernel for the i386. The boot loader passes it a memory map; the kernel
  sets up segments, interrupts, physical and virtual memory, a heap, message passing and
  cooperative tasks, checks each of them with a self-test, and ends in an interactive shell over a
  RAM file system that is driven by the keyboard interrupt and answers on the screen and
  the serial line. The library models these parts from the sources under \<open>src/\<close>, one theory for each, and proves
  what each promises to the others.

  \<^bold>\<open>Conventions.\<close> \<open>Kernel_Prelude\<close> names the C integers \<open>u8\<close>, \<open>u16\<close>, \<open>u32\<close>, \<open>u64\<close> as words, so that
  wrap-around is that of the code; \<open>size_t\<close> and addresses have 32 bits. A module's static variables are a record
  that its operations take and return; a struct is a record, an enum a datatype, an array a list.
  A null pointer is \<open>None\<close>, or a Boolean where only its being null matters. \<open>C_String\<close> reads
  terminated strings, \<open>Byte_Memory\<close> is memory with little-endian accesses and a stack, \<open>Port_IO\<close> is a log of the
  bytes written to ports, \<open>Self_Test\<close> the conditions of self-tests, left to right. Uninitialised locals,
  bytes read from devices and addresses chosen by the linker are arguments, and the theorems hold for all of
  them, under the array sizes of their declarations.

  \<^bold>\<open>Memory.\<close> \<open>Pmm\<close> models \<open>kernel/mm/pmm.c\<close>: two bitmaps give each page one of four states. The
  counters are exact in every reachable state, regions mark the pages the comments describe,
  allocation is lowest first, a free succeeds exactly on an allocated page, reserved pages
  stay reserved, and through the contract of \<open>Page_Allocator\<close> no address is held twice. \<open>Vmm\<close> models \<open>kernel/mm/vmm.c\<close>
  with CR0, CR3 and a translation cache that the processor may fill at any time from the tables:
  cached translations never disagree with a walk of the tables, the identity map never changes, and map and unmap
  change one translation. \<open>Heap\<close> models \<open>kernel/mm/heap.c\<close> with its headers in byte memory: allocation and free
  terminate, are first fit and coalesce, the self-check accepts exactly the tilings of the arena by sound
  headers, and clients that write only their own blocks never see them change.

  \<^bold>\<open>Tasks and messages.\<close> \<open>Task\<close> models \<open>kernel/task/task.c\<close> and \<open>boot/context_switch.S\<close>: a call that leaves a stack is an
  explicit switch of stacks in byte memory. States are consistent in every reachable
  scheduler, a ready task waits for at most seven slices, a run ends within its budget, and a switch away and back restores the
  registers. \<open>Ipc\<close> models \<open>kernel/ipc/ipc.c\<close> and \<open>Keyboard\<close> models \<open>kernel/arch/x86/keyboard.c\<close>; both are rings with free running
  sequence numbers, and \<open>Seq_Ring\<close> shows once that such a ring is a bounded queue, also when the numbers wrap. Messages are deep
  copies delivered in order; the key queue is a queue under every interleaving of the
  interrupt with the consumer's single accesses, and the decoder is the US layout.

  \<^bold>\<open>Devices and interrupts.\<close> \<open>Serial\<close> and \<open>Console\<close> model \<open>kernel/serial.c\<close> and \<open>kernel/console/console.c\<close>; the console
  refines a scrolling terminal, writes no byte before the transmitter is ready for it, and returns whenever the transmitter does not stay busy for ever. \<open>Descriptors\<close> models \<open>gdt.c\<close> and \<open>idt.c\<close>, \<open>Irq\<close>
  models \<open>pic.c\<close>, \<open>pit.c\<close> and \<open>irq.c\<close> against models of the devices, \<open>Interrupt\<close> models \<open>interrupt.c\<close>, the page fault report of
  \<open>paging.c\<close> and the assembly entry of \<open>boot/isr_stubs.S\<close> and \<open>boot/irq_stubs.S\<close>: descriptors decode to what was meant, masks agree with the
  controllers, each request is counted, handled and ended once, and an interrupt is transparent to the code it
  interrupts. \<open>Multiboot\<close> models \<open>kernel/boot/multiboot.c\<close> over a memory in which a read of an absent byte is a fault:
  exactly the sound reports are accepted, whatever the memory holds, and nothing outside the header and the announced map is read.

  \<^bold>\<open>Shell.\<close> \<open>Ramfs\<close> models \<open>kernel/fs/ramfs.c\<close>, a bounded map from names to bytes with every error code; \<open>Line_Editor\<close> and \<open>Command\<close> model
  \<open>kernel/shell/line_editor.c\<close> and \<open>command.c\<close>, a bounded line and its splitting into words. \<open>System_Status\<close> models
  \<open>kernel/diag/system_status.c\<close>, and \<open>Runtime\<close> models \<open>kernel/shell/runtime.c\<close>: the self-tests, each command and the handler
  of a key. \<open>Shell_Session\<close> specifies a session over words, a map of files and a terminal, and shows that the self-tests always
  pass and that every sequence of keys is answered as specified, through all the components it runs on.

  \<^bold>\<open>Interfaces.\<close> The locales \<open>page_allocator\<close>, \<open>seq_ring\<close>, \<open>bounded_fifo\<close>, \<open>file_store\<close>, \<open>address_space\<close> and \<open>heap_allocator\<close> state
  what a client relies on; each is interpreted on the definitions of its component, and the theorems on runs of clients are
  proved in it.

  \<^bold>\<open>Loops.\<close> Counted loops are folds or recursion on the index. Loops over pointers in memory and the wait for the transmitter are partial functions,
  \<open>None\<close> when they do not return, and are shown to return; no model has fuel.

  \<^bold>\<open>Not modelled.\<close> The sequence of \<open>kernel_main\<close> and its self-tests in \<open>kernel/kernel.c\<close>, whose calls are modelled in their own components; \<open>boot/multiboot.S\<close>, which
  only sets a stack and calls \<open>kernel_main\<close>; the linker script, the build, the emulator tests and the
  documents. The processor is present as far as the code drives it: no privilege changes, no timing, no caches other than that of translations.
\<close>

end
